(* ===== verification/Greyd_Prelude.thy ===== *)
theory Greyd_Prelude
  imports Main "HOL-Library.Word" "HOL-Library.Char_ord" "HOL-Library.List_Lexorder"
begin

text \<open>
  Shared vocabulary of the development: the names of the machine types, the wrap-around of
  Go's 64-bit integers, the interface of an encoder/decoder pair, and the generic facts on
  lists, options and words that the component theories rely on.
\<close>

unbundle bit_operations_syntax

named_theorems go_simps \<open>evaluation rules for the Go library functions\<close>
named_theorems word_ineqs \<open>unsigned readings of word arithmetic\<close>

subsection \<open>Machine types\<close>

type_synonym u8 = "8 word"
type_synonym u16 = "16 word"
type_synonym u32 = "32 word"
type_synonym u64 = "64 word"
type_synonym u128 = "128 word"
type_synonym bytes = "u8 list"

text \<open>
  Go's \<open>int\<close> and \<open>int64\<close> are 64 bits wide and wrap around. Values are kept as \<open>int\<close>;
  the wrap-around of an arithmetic result is \<open>i64\<close>.
\<close>

definition i64 :: "int \<Rightarrow> int" where
  "i64 x = sint (word_of_int x :: u64)"

definition is_i64 :: "int \<Rightarrow> bool" where
  "is_i64 x \<longleftrightarrow> - (2 ^ 63) \<le> x \<and> x < 2 ^ 63"

lemma i64_range: "is_i64 (i64 x)"
  using sint_range_size [of "word_of_int x :: u64"]
  by (simp add: i64_def is_i64_def word_size)

lemma i64_id [simp]: "is_i64 x \<Longrightarrow> i64 x = x"
  unfolding i64_def is_i64_def
  by (subst sint_sbintrunc') (rule signed_take_bit_int_eq_self, simp_all)

lemma i64_idem [simp]: "i64 (i64 x) = i64 x"
  by (simp add: i64_range)

subsection \<open>Encoder/decoder pairs\<close>

text \<open>
  Several components come as a writer and the matching reader. The contract is that decoding
  an encoded value gives the value back, for the values the writer is specified for.
\<close>

locale codec =
  fixes enc :: "'a \<Rightarrow> 'b" and dec :: "'b \<Rightarrow> 'e + 'a" and valid :: "'a \<Rightarrow> bool"
  assumes dec_enc: "valid x \<Longrightarrow> dec (enc x) = Inr x"
begin

lemma enc_injective: "valid x \<Longrightarrow> valid y \<Longrightarrow> enc x = enc y \<Longrightarrow> x = y"
  by (metis dec_enc sum.inject(2))

lemma enc_inj_on: "inj_on enc {x. valid x}"
  by (auto intro: inj_onI enc_injective)

lemma dec_not_error: "valid x \<Longrightarrow> dec (enc x) \<noteq> Inl e"
  by (simp add: dec_enc)

end

subsection \<open>Words\<close>

lemma unat_less_2p: "unat (w :: 'a::len word) < 2 ^ LENGTH('a)"
  by (rule unsigned_less)

lemma word_xor_eq_0: "x XOR y = 0 \<longleftrightarrow> x = y" for x y :: "'a::len word"
  by (auto simp: bit_eq_iff bit_xor_iff)

lemma word_eq_0_bits: "w = 0 \<longleftrightarrow> (\<forall>n. \<not> bit w n)" for w :: "'a::len word"
  by (auto intro: bit_word_eqI)

lemma unat_power_lower_u32: "n < 32 \<Longrightarrow> unat (2 ^ n :: u32) = 2 ^ n"
  by transfer (simp add: take_bit_int_eq_self nat_power_eq)

lemma and_ff_ucast [simp]: "(ucast (w AND 0xff :: u32) :: u8) = ucast w"
proof -
  have *: "0xff = (mask 8 :: u32)" by (simp add: mask_eq_exp_minus_1)
  show ?thesis unfolding * by (rule bit_word_eqI) (auto simp: bit_simps)
qed

lemma u32_of_bytes:
  "push_bit 8 (push_bit 8 (push_bit 8 (ucast (ucast (drop_bit 24 w) :: u8)) OR
     ucast (ucast (drop_bit 16 w) :: u8)) OR ucast (ucast (drop_bit 8 w) :: u8)) OR
     ucast (ucast w :: u8) = (w :: u32)" (is "?l = w")
proof (rule bit_word_eqI)
  fix n :: nat
  assume "n < LENGTH(32)"
  then consider "n < 8" | "8 \<le> n" "n < 16" | "16 \<le> n" "n < 24" | "24 \<le> n" "n < 32"
    by fastforce
  then show "bit ?l n \<longleftrightarrow> bit w n"
    by cases (auto simp add: bit_simps)
qed

subsection \<open>Lists\<close>

lemma take_length_append [simp]: "take (length xs) (xs @ ys) = xs"
  by simp

lemma drop_length_append [simp]: "drop (length xs) (xs @ ys) = ys"
  by simp

lemma dropWhile_append_stop:
  "(\<And>x. x \<in> set xs \<Longrightarrow> P x) \<Longrightarrow> \<not> P y \<Longrightarrow> dropWhile P (xs @ y # ys) = y # ys"
  by (induction xs) auto

lemma takeWhile_append_stop:
  "(\<And>x. x \<in> set xs \<Longrightarrow> P x) \<Longrightarrow> \<not> P y \<Longrightarrow> takeWhile P (xs @ y # ys) = xs"
  by (induction xs) auto

end
