(* ===== verification/Go_Strings.thy ===== *)
theory Go_Strings
  imports Greyd_Prelude "HOL-Library.Sublist"
begin

text \<open>
  The functions of Go's \<open>strings\<close>, \<open>strconv\<close> and \<open>encoding/binary\<close> packages that greyd
  calls. A Go string is a sequence of bytes, here a \<open>string\<close> (a list of 8-bit characters).
  White space follows \<open>unicode.IsSpace\<close> on UTF-8 text: every white space rune is listed by its
  encoding, and since each encoding starts with an ASCII or a lead byte, which never occurs
  inside another rune, a scan from either end meets it exactly where Go's decoder does.
  Case folding (\<open>ToLower\<close>, \<open>EqualFold\<close>) is modelled on the ASCII letters; bytes from 0x80 on
  are compared as they are.
\<close>

subsection \<open>Bytes of a string\<close>

abbreviation byte_at :: "char \<Rightarrow> nat" where
  "byte_at c \<equiv> of_char c"

definition is_digit :: "char \<Rightarrow> bool" where
  "is_digit c \<longleftrightarrow> 48 \<le> byte_at c \<and> byte_at c \<le> 57"

definition digit_val :: "char \<Rightarrow> nat" where
  "digit_val c = byte_at c - 48"

definition digit_char :: "nat \<Rightarrow> char" where
  "digit_char n = char_of (48 + n)"

definition lower_char :: "char \<Rightarrow> char" where
  "lower_char c = (if 65 \<le> byte_at c \<and> byte_at c \<le> 90 then char_of (byte_at c + 32) else c)"

definition to_lower :: "string \<Rightarrow> string" where
  "to_lower s = map lower_char s"

definition equal_fold :: "string \<Rightarrow> string \<Rightarrow> bool" where
  "equal_fold s t \<longleftrightarrow> to_lower s = to_lower t"

subsection \<open>Searching and splitting\<close>

definition has_prefix :: "string \<Rightarrow> string \<Rightarrow> bool" where
  "has_prefix s p \<longleftrightarrow> prefix p s"

definition has_suffix :: "string \<Rightarrow> string \<Rightarrow> bool" where
  "has_suffix s p \<longleftrightarrow> suffix p s"

fun index_byte :: "string \<Rightarrow> char \<Rightarrow> nat option" where
  "index_byte [] c = None"
| "index_byte (d # s) c = (if d = c then Some 0 else map_option Suc (index_byte s c))"

text \<open>\<open>strings.Split\<close> and \<open>strings.SplitN\<close> for a one byte separator.\<close>

fun split_on :: "char \<Rightarrow> string \<Rightarrow> string list" where
  "split_on c [] = [[]]"
| "split_on c (d # s) =
     (if d = c then [] # split_on c s
      else case split_on c s of [] \<Rightarrow> [[d]] | p # ps \<Rightarrow> (d # p) # ps)"

fun split_n :: "nat \<Rightarrow> char \<Rightarrow> string \<Rightarrow> string list" where
  "split_n 0 c s = []"
| "split_n (Suc 0) c s = [s]"
| "split_n (Suc (Suc n)) c s =
     (case index_byte s c of None \<Rightarrow> [s]
      | Some i \<Rightarrow> take i s # split_n (Suc n) c (drop (Suc i) s))"

subsection \<open>White space\<close>

definition space2 :: "string list" where
  "space2 = [[CHR 0xC2, CHR 0x85], [CHR 0xC2, CHR 0xA0]]"

definition space3 :: "string list" where
  "space3 =
     [[CHR 0xE1, CHR 0x9A, CHR 0x80],
      [CHR 0xE2, CHR 0x80, CHR 0x80], [CHR 0xE2, CHR 0x80, CHR 0x81],
      [CHR 0xE2, CHR 0x80, CHR 0x82], [CHR 0xE2, CHR 0x80, CHR 0x83],
      [CHR 0xE2, CHR 0x80, CHR 0x84], [CHR 0xE2, CHR 0x80, CHR 0x85],
      [CHR 0xE2, CHR 0x80, CHR 0x86], [CHR 0xE2, CHR 0x80, CHR 0x87],
      [CHR 0xE2, CHR 0x80, CHR 0x88], [CHR 0xE2, CHR 0x80, CHR 0x89],
      [CHR 0xE2, CHR 0x80, CHR 0x8A], [CHR 0xE2, CHR 0x80, CHR 0xA8],
      [CHR 0xE2, CHR 0x80, CHR 0xA9], [CHR 0xE2, CHR 0x80, CHR 0xAF],
      [CHR 0xE2, CHR 0x81, CHR 0x9F], [CHR 0xE3, CHR 0x80, CHR 0x80]]"

definition ascii_space :: "char \<Rightarrow> bool" where
  "ascii_space c \<longleftrightarrow> (9 \<le> byte_at c \<and> byte_at c \<le> 13) \<or> byte_at c = 32"

text \<open>The width of the white space rune at the front (at the end) of a string, 0 if none.\<close>

fun space_len :: "string \<Rightarrow> nat" where
  "space_len [] = 0"
| "space_len (c # s) =
     (if ascii_space c then 1
      else if byte_at c < 128 then 0
      else if take 2 (c # s) \<in> set space2 then 2
      else if take 3 (c # s) \<in> set space3 then 3 else 0)"

definition space_suffix_len :: "string \<Rightarrow> nat" where
  "space_suffix_len s =
     (if s = [] then 0
      else if ascii_space (last s) then 1
      else if byte_at (last s) < 128 then 0
      else if drop (length s - 2) s \<in> set space2 then 2
      else if drop (length s - 3) s \<in> set space3 then 3 else 0)"

function fields_acc :: "string \<Rightarrow> string \<Rightarrow> string list" where
  "fields_acc [] cur = (if cur = [] then [] else [rev cur])"
| "fields_acc (c # s) cur =
     (if space_len (c # s) = 0 then fields_acc s (c # cur)
      else (if cur = [] then [] else [rev cur])
             @ fields_acc (drop (space_len (c # s)) (c # s)) [])"
  by pat_completeness auto
termination
  by (relation "measure (\<lambda>(s, cur). length s)") (auto simp del: space_len.simps)

definition fields :: "string \<Rightarrow> string list" where
  "fields s = fields_acc s []"

function trim_left :: "string \<Rightarrow> string" where
  "trim_left s = (if space_len s = 0 then s else trim_left (drop (space_len s) s))"
  by pat_completeness auto
termination
proof (relation "measure length", goal_cases)
  case (2 s)
  then show ?case by (cases s) (auto simp del: space_len.simps, simp)
qed simp

function trim_right :: "string \<Rightarrow> string" where
  "trim_right s =
     (if space_suffix_len s = 0 then s else trim_right (take (length s - space_suffix_len s) s))"
  by pat_completeness auto
termination
  by (relation "measure length") (auto simp: space_suffix_len_def split: if_splits)

declare trim_left.simps [simp del] trim_right.simps [simp del]

definition trim_space :: "string \<Rightarrow> string" where
  "trim_space s = trim_right (trim_left s)"

subsection \<open>Decimal numbers\<close>

fun itoa :: "nat \<Rightarrow> string" where
  "itoa n = (if n < 10 then [digit_char n] else itoa (n div 10) @ [digit_char (n mod 10)])"

declare itoa.simps [simp del]

definition itoa_int :: "int \<Rightarrow> string" where
  "itoa_int x = (if x < 0 then CHR ''-'' # itoa (nat (- x)) else itoa (nat x))"

definition digits_val :: "string \<Rightarrow> nat" where
  "digits_val s = foldl (\<lambda>a c. a * 10 + digit_val c) 0 s"

definition parse_digits :: "string \<Rightarrow> nat option" where
  "parse_digits s = (if s \<noteq> [] \<and> list_all is_digit s then Some (digits_val s) else None)"

text \<open>
  \<open>strconv.ParseInt(s, 10, 64)\<close>, which \<open>strconv.Atoi\<close> agrees with on a 64-bit platform:
  an optional sign, decimal digits, and the result must fit.
\<close>

definition parse_int :: "string \<Rightarrow> int option" where
  "parse_int s =
     (case s of
        [] \<Rightarrow> None
      | c # t \<Rightarrow>
          (case parse_digits (if c = CHR ''-'' \<or> c = CHR ''+'' then t else s) of
             None \<Rightarrow> None
           | Some n \<Rightarrow>
               (let x = (if c = CHR ''-'' then - int n else int n)
                in if is_i64 x then Some x else None)))"

subsection \<open>Big-endian integers\<close>

definition put_u16 :: "u16 \<Rightarrow> bytes" where
  "put_u16 w = [ucast (drop_bit 8 w), ucast w]"

definition put_u32 :: "u32 \<Rightarrow> bytes" where
  "put_u32 w = [ucast (drop_bit 24 w), ucast (drop_bit 16 w), ucast (drop_bit 8 w), ucast w]"

definition put_u64 :: "u64 \<Rightarrow> bytes" where
  "put_u64 w = put_u32 (ucast (drop_bit 32 w)) @ put_u32 (ucast w)"

text \<open>
  The readers take the first bytes of their argument. On a shorter slice Go panics, which is
  \<open>None\<close> here.
\<close>

fun get_u16 :: "bytes \<Rightarrow> u16 option" where
  "get_u16 (a # b # _) = Some (push_bit 8 (ucast a) OR ucast b)"
| "get_u16 _ = None"

fun get_u32 :: "bytes \<Rightarrow> u32 option" where
  "get_u32 (a # b # c # d # _) =
     Some (push_bit 24 (ucast a) OR push_bit 16 (ucast b) OR push_bit 8 (ucast c) OR ucast d)"
| "get_u32 _ = None"

definition get_u64 :: "bytes \<Rightarrow> u64 option" where
  "get_u64 b =
     (case (get_u32 b, get_u32 (drop 4 b)) of
        (Some h, Some l) \<Rightarrow> Some (push_bit 32 (ucast h) OR ucast l)
      | _ \<Rightarrow> None)"

subsection \<open>Facts on digits and decimal numbers\<close>

lemma digit_char_facts [simp]:
  assumes "n < 10"
  shows "is_digit (digit_char n)" and "digit_val (digit_char n) = n"
  using assms by (simp_all add: is_digit_def digit_val_def digit_char_def)

lemma digit_char_zero [simp]: "n < 10 \<Longrightarrow> digit_char n = CHR ''0'' \<longleftrightarrow> n = 0"
proof
  assume n: "n < 10" and "digit_char n = CHR ''0''"
  then have "digit_val (digit_char n) = 0" by (simp add: digit_val_def)
  with n show "n = 0" by simp
next
  have "char_of (48 :: nat) = CHR ''0''" by code_simp
  then show "n = 0 \<Longrightarrow> digit_char n = CHR ''0''" by (simp add: digit_char_def)
qed

lemma digits_val_snoc [simp]: "digits_val (s @ [c]) = digits_val s * 10 + digit_val c"
  by (simp add: digits_val_def)

lemma itoa_not_Nil [simp]: "itoa n \<noteq> []"
  by (subst itoa.simps) simp

lemma itoa_digits: "list_all is_digit (itoa n)"
proof (induction n rule: itoa.induct)
  case (1 n)
  then show ?case by (subst itoa.simps) auto
qed

lemma digits_val_itoa [simp]: "digits_val (itoa n) = n"
proof (induction n rule: itoa.induct)
  case (1 n)
  show ?case
  proof (cases "n < 10")
    case True
    then show ?thesis by (subst itoa.simps) (simp add: digits_val_def)
  next
    case False
    with "1.IH" have "digits_val (itoa (n div 10)) = n div 10" by simp
    with False show ?thesis by (subst itoa.simps) simp
  qed
qed

lemma parse_digits_itoa [simp]: "parse_digits (itoa n) = Some n"
  by (simp add: parse_digits_def itoa_digits)

lemma itoa_set: "c \<in> set (itoa n) \<Longrightarrow> is_digit c"
  using itoa_digits [of n] by (auto simp: list_all_iff)

lemma not_digit_sign [simp]: "\<not> is_digit (CHR ''-'')" "\<not> is_digit (CHR ''+'')"
  by (simp_all add: is_digit_def)

lemma parse_int_itoa: "int n < 2 ^ 63 \<Longrightarrow> parse_int (itoa n) = Some (int n)"
proof -
  assume n: "int n < 2 ^ 63"
  obtain c t where ct: "itoa n = c # t" by (cases "itoa n") auto
  then have "is_digit c" using itoa_set [of c n] by simp
  then have "c \<noteq> CHR ''-''" "c \<noteq> CHR ''+''" by auto
  moreover have "parse_digits (c # t) = Some n" using ct parse_digits_itoa [of n] by simp
  ultimately show ?thesis using n by (simp add: parse_int_def ct is_i64_def)
qed

lemma parse_int_itoa_int: "is_i64 x \<Longrightarrow> parse_int (itoa_int x) = Some x"
proof (cases "x < 0")
  case True
  assume "is_i64 x"
  with True show ?thesis by (simp add: parse_int_def itoa_int_def Let_def)
next
  case False
  assume "is_i64 x"
  with False show ?thesis
    using parse_int_itoa [of "nat x"] by (simp add: itoa_int_def is_i64_def)
qed

subsection \<open>Facts on searching and splitting\<close>

lemma index_byte_None [simp]: "index_byte s c = None \<longleftrightarrow> c \<notin> set s"
  by (induction s) auto

lemma index_byte_append [simp]:
  "c \<notin> set s \<Longrightarrow> index_byte (s @ c # t) c = Some (length s)"
  by (induction s) auto

lemma index_byte_Some:
  "index_byte s c = Some i \<Longrightarrow> i < length s \<and> s ! i = c \<and> c \<notin> set (take i s)"
proof (induction s arbitrary: i)
  case (Cons d s)
  then show ?case by (auto split: if_splits)
qed simp

lemma split_on_not_Nil [simp]: "split_on c s \<noteq> []"
  by (induction s) (auto split: list.splits)

lemma split_on_notin: "c \<notin> set s \<Longrightarrow> split_on c s = [s]"
  by (induction s) auto

lemma split_on_append: "c \<notin> set s \<Longrightarrow> split_on c (s @ c # t) = s # split_on c t"
  by (induction s) auto

lemma lower_char_idem [simp]: "lower_char (lower_char c) = lower_char c"
  by (simp add: lower_char_def)

lemma to_lower_idem [simp]: "to_lower (to_lower s) = to_lower s"
  by (simp add: to_lower_def)

lemma equal_fold_refl [simp]: "equal_fold s s"
  by (simp add: equal_fold_def)

lemma has_suffix_iff: "has_suffix s p \<longleftrightarrow> length p \<le> length s \<and> drop (length s - length p) s = p"
proof
  assume "has_suffix s p"
  then show "length p \<le> length s \<and> drop (length s - length p) s = p"
    by (auto simp: has_suffix_def suffix_def)
next
  assume "length p \<le> length s \<and> drop (length s - length p) s = p"
  then show "has_suffix s p"
    by (metis append_take_drop_id has_suffix_def suffixI)
qed

subsection \<open>Facts on big-endian integers\<close>

lemma put_u16_length [simp]: "length (put_u16 w) = 2"
  by (simp add: put_u16_def)

lemma put_u32_length [simp]: "length (put_u32 w) = 4"
  by (simp add: put_u32_def)

lemma put_u64_length [simp]: "length (put_u64 w) = 8"
  by (simp add: put_u64_def)

lemma get_put_u16 [simp]: "get_u16 (put_u16 w @ t) = Some w"
proof -
  have "push_bit 8 (ucast (ucast (drop_bit 8 w) :: u8)) OR ucast (ucast w :: u8) = w"
    by (rule bit_word_eqI) (auto simp: bit_simps)
  then show ?thesis by (simp add: put_u16_def)
qed

lemma get_put_u32 [simp]: "get_u32 (put_u32 w @ t) = Some w"
proof -
  have "push_bit 24 (ucast (ucast (drop_bit 24 w) :: u8)) OR
        push_bit 16 (ucast (ucast (drop_bit 16 w) :: u8)) OR
        push_bit 8 (ucast (ucast (drop_bit 8 w) :: u8)) OR ucast (ucast w :: u8) = w" (is "?l = w")
  proof (rule bit_word_eqI)
    fix n :: nat
    assume "n < LENGTH(32)"
    then consider "n < 8" | "8 \<le> n" "n < 16" | "16 \<le> n" "n < 24" | "24 \<le> n" "n < 32"
      by fastforce
    then show "bit ?l n \<longleftrightarrow> bit w n"
      by cases (auto simp: bit_simps)
  qed
  then show ?thesis by (simp add: put_u32_def)
qed

lemma get_put_u64 [simp]: "get_u64 (put_u64 w @ t) = Some w"
proof -
  have "push_bit 32 (ucast (ucast (drop_bit 32 w) :: u32)) OR ucast (ucast w :: u32) = w"
    by (rule bit_word_eqI) (auto simp: bit_simps)
  then show ?thesis
    by (simp add: get_u64_def put_u64_def)
qed

subsection \<open>Words of a line\<close>

definition plain_word :: "string \<Rightarrow> bool" where
  "plain_word w \<longleftrightarrow> w \<noteq> [] \<and> list_all (\<lambda>c. byte_at c < 128 \<and> \<not> ascii_space c) w"

lemma fields_acc_plain:
  "list_all (\<lambda>c. byte_at c < 128 \<and> \<not> ascii_space c) w \<Longrightarrow> fields_acc (w @ s) cur = fields_acc s (rev w @ cur)"
  by (induction w arbitrary: cur) simp_all

lemma fields_word: "plain_word w \<Longrightarrow> fields (w @ CHR '' '' # s) = w # fields s"
  by (simp add: plain_word_def fields_def fields_acc_plain ascii_space_def)

lemma fields_last: "plain_word w \<Longrightarrow> fields w = [w]"
  using fields_acc_plain [of w "[]" "[]"] by (simp add: plain_word_def fields_def)

lemma fields_Nil [simp]: "fields [] = []" by (simp add: fields_def)

subsection \<open>Bytes and characters\<close>

definition chars_of :: "bytes \<Rightarrow> string" where
  "chars_of bs = map (\<lambda>b. char_of (unat b)) bs"

definition bytes_of :: "string \<Rightarrow> bytes" where
  "bytes_of s = map (\<lambda>c. of_nat (byte_at c)) s"

lemma bytes_of_chars_of [simp]: "bytes_of (chars_of bs) = bs"
proof -
  have "of_nat (byte_at (char_of (unat b))) = b" for b :: u8
    using unat_less_2p [of b] by (simp add: take_bit_nat_eq_self)
  then show ?thesis by (simp add: bytes_of_def chars_of_def comp_def map_idI)
qed

lemma chars_of_bytes_of [simp]: "chars_of (bytes_of s) = s"
proof -
  have "char_of (unat (of_nat (byte_at c) :: u8)) = c" for c
    by (simp add: unat_of_nat take_bit_nat_def)
  then show ?thesis by (simp add: bytes_of_def chars_of_def comp_def map_idI)
qed

lemma length_chars_of [simp]: "length (chars_of bs) = length bs" by (simp add: chars_of_def)

lemma length_bytes_of [simp]: "length (bytes_of s) = length s" by (simp add: bytes_of_def)

lemma bytes_of_append [simp]: "bytes_of (a @ b) = bytes_of a @ bytes_of b" by (simp add: bytes_of_def)

lemma bytes_of_drop: "bytes_of (drop n s) = drop n (bytes_of s)" by (simp add: bytes_of_def drop_map)

end
