(* ===== verification/Go_Netip.thy ===== *)
theory Go_Netip
  imports Go_Strings
begin

text \<open>
  The part of Go's \<open>net/netip\<close> package that greyd uses: addresses, prefixes, their text forms
  and the parser \<open>ParseAddr\<close>. An address is the zero \<open>Addr\<close>, an IPv4 address, or an IPv6
  address with its zone (empty when it has none).
\<close>

datatype addr = AddrZero | Addr4 u32 | Addr6 u128 string

subsection \<open>Addresses\<close>

fun is_valid :: "addr \<Rightarrow> bool" where
  "is_valid AddrZero = False"
| "is_valid _ = True"

fun is4 :: "addr \<Rightarrow> bool" where
  "is4 (Addr4 _) = True"
| "is4 _ = False"

fun is4in6 :: "addr \<Rightarrow> bool" where
  "is4in6 (Addr6 w _) = (drop_bit 32 w = 0xffff)"
| "is4in6 _ = False"

fun unmap :: "addr \<Rightarrow> addr" where
  "unmap (Addr6 w z) = (if drop_bit 32 w = 0xffff then Addr4 (ucast w) else Addr6 w z)"
| "unmap a = a"

fun bit_len :: "addr \<Rightarrow> nat" where
  "bit_len AddrZero = 0"
| "bit_len (Addr4 _) = 32"
| "bit_len (Addr6 _ _) = 128"

fun has_zone :: "addr \<Rightarrow> bool" where
  "has_zone (Addr6 _ z) = (z \<noteq> [])"
| "has_zone _ = False"

fun without_zone :: "addr \<Rightarrow> addr" where
  "without_zone (Addr6 w _) = Addr6 w []"
| "without_zone a = a"

definition put_u128 :: "u128 \<Rightarrow> bytes" where
  "put_u128 w = put_u64 (ucast (drop_bit 64 w)) @ put_u64 (ucast w)"

fun as_slice :: "addr \<Rightarrow> bytes" where
  "as_slice AddrZero = []"
| "as_slice (Addr4 w) = put_u32 w"
| "as_slice (Addr6 w _) = put_u128 w"

fun bytes_val :: "bytes \<Rightarrow> 'a::len word \<Rightarrow> 'a word" where
  "bytes_val [] acc = acc"
| "bytes_val (b # bs) acc = bytes_val bs (push_bit 8 acc OR ucast b)"

definition addr_from4 :: "bytes \<Rightarrow> addr" where
  "addr_from4 b = Addr4 (bytes_val b 0)"

definition addr_from16 :: "bytes \<Rightarrow> addr" where
  "addr_from16 b = Addr6 (bytes_val b 0) []"

subsection \<open>Prefixes\<close>

record prefix =
  p_addr :: addr
  p_bits :: int

definition zero_prefix :: prefix where
  "zero_prefix = \<lparr>p_addr = AddrZero, p_bits = -1\<rparr>"

definition prefix_from :: "addr \<Rightarrow> int \<Rightarrow> prefix" where
  "prefix_from a b =
     \<lparr>p_addr = without_zone a,
      p_bits = (if is_valid a \<and> 0 \<le> b \<and> b \<le> int (bit_len a) then b else -1)\<rparr>"

definition prefix_valid :: "prefix \<Rightarrow> bool" where
  "prefix_valid p \<longleftrightarrow> 0 \<le> p_bits p \<and> is_valid (p_addr p)"

text \<open>\<open>high_mask n\<close> has the \<open>n\<close> most significant bits set.\<close>

definition high_mask :: "nat \<Rightarrow> 'a::len word" where
  "high_mask n = push_bit (LENGTH('a) - n) (mask n)"

definition masked :: "prefix \<Rightarrow> prefix" where
  "masked p =
     (if p_bits p < 0 \<or> int (bit_len (p_addr p)) < p_bits p then zero_prefix
      else case p_addr p of
        AddrZero \<Rightarrow> zero_prefix
      | Addr4 w \<Rightarrow> prefix_from (Addr4 (w AND high_mask (nat (p_bits p)))) (p_bits p)
      | Addr6 w z \<Rightarrow> prefix_from (Addr6 (w AND high_mask (nat (p_bits p))) z) (p_bits p))"

definition prefix_contains :: "prefix \<Rightarrow> addr \<Rightarrow> bool" where
  "prefix_contains p a =
     (prefix_valid p \<and> \<not> has_zone a \<and>
      (case (p_addr p, a) of
         (Addr4 v, Addr4 w) \<Rightarrow> drop_bit (32 - nat (p_bits p)) (w XOR v) = 0
       | (Addr6 v _, Addr6 w _) \<Rightarrow> (w XOR v) AND high_mask (nat (p_bits p)) = 0
       | _ \<Rightarrow> False))"

subsection \<open>Parsing\<close>

fun parse_ipv4_fields :: "string \<Rightarrow> nat \<Rightarrow> nat \<Rightarrow> nat list \<Rightarrow> nat list option" where
  "parse_ipv4_fields [] val dig_len fs = (if length fs < 3 then None else Some (fs @ [val]))"
| "parse_ipv4_fields (c # s) val dig_len fs =
     (if is_digit c then
        (if dig_len = 1 \<and> val = 0 then None
         else if 255 < val * 10 + digit_val c then None
         else parse_ipv4_fields s (val * 10 + digit_val c) (Suc dig_len) fs)
      else if c = CHR ''.'' then
        (if dig_len = 0 \<or> s = [] then None
         else if length fs = 3 then None
         else parse_ipv4_fields s 0 0 (fs @ [val]))
      else None)"

definition parse_ipv4 :: "string \<Rightarrow> addr option" where
  "parse_ipv4 s = map_option (\<lambda>fs. addr_from4 (map of_nat fs)) (parse_ipv4_fields s 0 0 [])"

definition is_hex :: "char \<Rightarrow> bool" where
  "is_hex c \<longleftrightarrow> is_digit c \<or> (97 \<le> byte_at c \<and> byte_at c \<le> 102) \<or> (65 \<le> byte_at c \<and> byte_at c \<le> 70)"

definition hex_val :: "char \<Rightarrow> nat" where
  "hex_val c =
     (if is_digit c then digit_val c
      else if 97 \<le> byte_at c then byte_at c - 87 else byte_at c - 55)"

definition hex_num :: "string \<Rightarrow> nat" where
  "hex_num s = foldl (\<lambda>a c. a * 16 + hex_val c) 0 s"

text \<open>
  The main loop of \<open>parseIPv6\<close>: the text still to read, the bytes read so far and the
  position of the ellipsis. Each round reads one group of hexadecimal digits.
\<close>

function parse_ipv6_loop ::
  "string \<Rightarrow> nat list \<Rightarrow> nat option \<Rightarrow> (string \<times> nat list \<times> nat option) option" where
  "parse_ipv6_loop s ip ell =
     (if 16 \<le> length ip then Some (s, ip, ell)
      else
        let ds = takeWhile is_hex s; rest = dropWhile is_hex s;
            ip' = ip @ [hex_num ds div 256, hex_num ds mod 256]
        in if ds = [] \<or> 4 < length ds then None
        else if rest \<noteq> [] \<and> hd rest = CHR ''.'' then
          (if ell = None \<and> length ip \<noteq> 12 then None
           else if 16 < length ip + 4 then None
           else map_option (\<lambda>fs. ([], ip @ fs, ell)) (parse_ipv4_fields s 0 0 []))
        else if rest = [] then Some ([], ip', ell)
        else if hd rest \<noteq> CHR '':'' \<or> tl rest = [] then None
        else if hd (tl rest) = CHR '':'' then
          (if ell \<noteq> None then None
           else if tl (tl rest) = [] then Some ([], ip', Some (length ip'))
           else parse_ipv6_loop (tl (tl rest)) ip' (Some (length ip')))
        else parse_ipv6_loop (tl rest) ip' ell)"
  by pat_completeness auto
termination
  by (relation "measure (\<lambda>(s, ip, ell). 16 - length ip)") auto

declare parse_ipv6_loop.simps [simp del]

definition expand_ellipsis :: "nat list \<Rightarrow> nat option \<Rightarrow> nat list option" where
  "expand_ellipsis ip ell =
     (if length ip < 16 then
        (case ell of None \<Rightarrow> None
         | Some e \<Rightarrow> Some (take e ip @ replicate (16 - length ip) 0 @ drop e ip))
      else if ell \<noteq> None then None else Some ip)"

definition with_zone :: "nat list \<Rightarrow> string \<Rightarrow> addr" where
  "with_zone ip z = Addr6 (bytes_val (map of_nat ip) 0) z"

definition parse_ipv6 :: "string \<Rightarrow> addr option" where
  "parse_ipv6 s0 =
     (let (s, zone, bad) =
        (case index_byte s0 (CHR ''%'') of
           None \<Rightarrow> (s0, [], False)
         | Some i \<Rightarrow> (take i s0, drop (Suc i) s0, drop (Suc i) s0 = []))
      in if bad then None
      else
        let (body, ell0) = (if has_prefix s ''::'' then (drop 2 s, Some 0) else (s, None))
        in if ell0 = Some 0 \<and> body = [] then Some (with_zone (replicate 16 0) zone)
           else case parse_ipv6_loop body [] ell0 of
               None \<Rightarrow> None
             | Some (rest, ip, ell) \<Rightarrow>
                 if rest \<noteq> [] then None
                 else map_option (\<lambda>b. with_zone b zone) (expand_ellipsis ip ell))"

fun parse_addr_scan :: "string \<Rightarrow> string \<Rightarrow> addr option" where
  "parse_addr_scan s0 [] = None"
| "parse_addr_scan s0 (c # s) =
     (if c = CHR ''.'' then parse_ipv4 s0
      else if c = CHR '':'' then parse_ipv6 s0
      else if c = CHR ''%'' then None
      else parse_addr_scan s0 s)"

definition parse_addr :: "string \<Rightarrow> addr option" where
  "parse_addr s = parse_addr_scan s s"

subsection \<open>Printing\<close>

definition dotted_quad :: "u32 \<Rightarrow> string" where
  "dotted_quad w =
     itoa (unat (drop_bit 24 w)) @ ''.'' @ itoa (unat (drop_bit 16 w AND 0xff)) @ ''.'' @
     itoa (unat (drop_bit 8 w AND 0xff)) @ ''.'' @ itoa (unat (w AND 0xff))"

definition hex_digit :: "nat \<Rightarrow> char" where
  "hex_digit n = (if n < 10 then digit_char n else char_of (87 + n))"

fun hex_string :: "nat \<Rightarrow> string" where
  "hex_string n = (if n < 16 then [hex_digit n] else hex_string (n div 16) @ [hex_digit (n mod 16)])"

declare hex_string.simps [simp del]

definition groups16 :: "u128 \<Rightarrow> nat list" where
  "groups16 w = map (\<lambda>i. unat (drop_bit (16 * (7 - i)) w AND 0xffff)) [0..<8]"

text \<open>The longest run of at least two zero groups, the first of equals, as \<open>(start, end)\<close>.\<close>

definition zero_run :: "nat list \<Rightarrow> nat \<times> nat" where
  "zero_run gs =
     foldl (\<lambda>(zs, ze) i.
        let l = length (takeWhile (\<lambda>g. g = 0) (drop i gs))
        in if 2 \<le> l \<and> ze - zs < l then (i, i + l) else (zs, ze)) (255, 255) [0..<8]"

fun join_groups :: "nat list \<Rightarrow> string" where
  "join_groups [] = []"
| "join_groups [g] = hex_string g"
| "join_groups (g # gs) = hex_string g @ '':'' @ join_groups gs"

definition addr6_string :: "u128 \<Rightarrow> string" where
  "addr6_string w =
     (let gs = groups16 w; (zs, ze) = zero_run gs
      in if zs = 255 then join_groups gs
         else join_groups (take zs gs) @ ''::'' @ join_groups (drop ze gs))"

fun addr_string :: "addr \<Rightarrow> string" where
  "addr_string AddrZero = ''invalid IP''"
| "addr_string (Addr4 w) = dotted_quad w"
| "addr_string (Addr6 w z) =
     (if drop_bit 32 w = 0xffff then ''::ffff:'' @ dotted_quad (ucast w) else addr6_string w)
     @ (if z = [] then [] else CHR ''%'' # z)"

subsection \<open>Facts\<close>

lemma is_digit_dot [simp]: "\<not> is_digit (CHR ''.'')"
  by (simp add: is_digit_def)

lemma is_digit_slash [simp]: "\<not> is_digit (CHR ''/'')"
  by (simp add: is_digit_def)

lemma parse_ipv4_octet:
  assumes "n \<le> 255"
  shows "parse_ipv4_fields (itoa n @ t) 0 0 fs = parse_ipv4_fields t n (length (itoa n)) fs"
proof -
  consider "n < 10" | "10 \<le> n" "n < 100" | "100 \<le> n" "n \<le> 255"
    using assms by linarith
  then show ?thesis
  proof cases
    case 1
    then show ?thesis by (simp add: itoa.simps [of n])
  next
    case 2
    then have "n div 10 < 10" "n div 10 \<noteq> 0" by simp_all
    with 2 show ?thesis
      by (simp add: itoa.simps [of n] itoa.simps [of "n div 10"])
  next
    case 3
    then have "n div 10 div 10 < 10" "\<not> n div 10 < 10" "n div 10 div 10 \<noteq> 0" "\<not> 255 < n div 10"
      by simp_all
    with 3 show ?thesis
      by (simp add: itoa.simps [of n] itoa.simps [of "n div 10"] itoa.simps [of "n div 10 div 10"])
  qed
qed

lemma parse_ipv4_dot:
  assumes "t \<noteq> []" and "length fs < 3"
  shows "parse_ipv4_fields (CHR ''.'' # t) n (length (itoa m)) fs = parse_ipv4_fields t 0 0 (fs @ [n])"
  using assms by simp

lemma unat_and_ff: "unat (w AND 0xff :: u32) \<le> 255"
proof -
  have "w AND 0xff \<le> 0xff" by (rule word_and_le1)
  then show ?thesis by (simp add: word_le_nat_alt)
qed

lemma unat_drop24: "unat (drop_bit 24 w :: u32) \<le> 255"
proof -
  have "unat w < 2 ^ 32" using unat_less_2p [of w] by simp
  then have "unat w div 2 ^ 24 < 256" by (simp add: less_mult_imp_div_less)
  moreover have "unat (drop_bit 24 w) = drop_bit 24 (unat w)" by (rule unat_drop_bit_eq)
  ultimately show ?thesis by (simp only: drop_bit_eq_div)
qed

lemma parse_ipv4_quad:
  assumes "a \<le> 255" "b \<le> 255" "c \<le> 255" "d \<le> 255"
  shows "parse_ipv4_fields (itoa a @ CHR ''.'' # itoa b @ CHR ''.'' # itoa c @ CHR ''.'' # itoa d) 0 0 []
         = Some [a, b, c, d]"
proof -
  have "parse_ipv4_fields (itoa d) 0 0 [a, b, c] = Some [a, b, c, d]"
    using parse_ipv4_octet [OF assms(4), of "[]" "[a, b, c]"] by simp
  then show ?thesis
    by (simp add: parse_ipv4_octet assms parse_ipv4_dot del: parse_ipv4_fields.simps)
qed

lemma quad_bytes:
  "bytes_val (map of_nat [unat (drop_bit 24 w), unat (drop_bit 16 w AND 0xff),
                          unat (drop_bit 8 w AND 0xff), unat (w AND 0xff)]) 0 = (w :: u32)"
  by (simp only: list.map bytes_val.simps of_nat_unat and_ff_ucast push_bit_of_0
      or.left_neutral u32_of_bytes)

lemma digit_not_separator:
  "is_digit c \<Longrightarrow> c \<noteq> CHR ''.'' \<and> c \<noteq> CHR '':'' \<and> c \<noteq> CHR ''%'' \<and> c \<noteq> CHR ''/''"
  by (auto simp: is_digit_def)

lemma parse_addr_scan_digits:
  "list_all is_digit s \<Longrightarrow> parse_addr_scan s0 (s @ CHR ''.'' # t) = parse_ipv4 s0"
  by (induction s) (simp_all add: digit_not_separator)

lemma dotted_quad_Cons:
  "dotted_quad w =
     itoa (unat (drop_bit 24 w)) @ CHR ''.'' # itoa (unat (drop_bit 16 w AND 0xff)) @ CHR ''.'' #
     itoa (unat (drop_bit 8 w AND 0xff)) @ CHR ''.'' # itoa (unat (w AND 0xff))"
  by (simp add: dotted_quad_def)

lemma parse_addr_dotted_quad [simp]: "parse_addr (dotted_quad w) = Some (Addr4 w)"
proof -
  have "parse_addr (dotted_quad w) = parse_ipv4 (dotted_quad w)"
    unfolding parse_addr_def by (subst (2) dotted_quad_Cons) (rule parse_addr_scan_digits [OF itoa_digits])
  also have "\<dots> = Some (Addr4 w)"
    unfolding parse_ipv4_def dotted_quad_Cons
    by (simp only: parse_ipv4_quad unat_and_ff unat_drop24 option.map addr_from4_def quad_bytes)
  finally show ?thesis .
qed

lemma dotted_quad_chars: "c \<in> set (dotted_quad w) \<Longrightarrow> is_digit c \<or> c = CHR ''.''"
  by (auto simp: dotted_quad_def dest: itoa_set)

lemma unmap_idem [simp]: "unmap (unmap a) = unmap a"
  by (cases a) auto

lemma is4_unmap_dotted: "unmap (Addr4 w) = Addr4 w"
  by simp

end
