(* ===== verification/Smtp_Proxy.thy ===== *)
theory Smtp_Proxy
  imports Go_Netip
begin

text \<open>
  The proxy protocol headers of \<open>internal/smtp/proxy.go\<close>: the text line of version 1 and the
  binary header of version 2.
\<close>

datatype proxy_error = ErrProxyUnknown | ErrProxyInvalid

definition max_proxy_header :: nat where "max_proxy_header = 107"

definition proxy_v2_header_len :: nat where "proxy_v2_header_len = 16"

definition max_proxy_v2_length :: nat where "max_proxy_v2_length = 512"

definition proxy_v2_signature :: string where
  "proxy_v2_signature =
     [CHR 0x0D, CHR 0x0A, CHR 0x0D, CHR 0x0A, CHR 0x00, CHR 0x0D, CHR 0x0A] @ ''QUIT'' @ [CHR 0x0A]"

subsection \<open>Version 1\<close>

definition parse_family :: "string \<Rightarrow> bool \<Rightarrow> proxy_error + addr" where
  "parse_family s want4 =
     (case parse_addr s of
        None \<Rightarrow> Inl ErrProxyInvalid
      | Some a \<Rightarrow> if is4 a \<noteq> want4 then Inl ErrProxyInvalid else Inr a)"

definition parse_pair :: "string list \<Rightarrow> bool \<Rightarrow> proxy_error + addr \<times> addr" where
  "parse_pair fs want4 =
     (if length fs < 4 then Inl ErrProxyInvalid
      else case parse_family (fs ! 2) want4 of
        Inl e \<Rightarrow> Inl e
      | Inr src \<Rightarrow> (case parse_family (fs ! 3) want4 of Inl e \<Rightarrow> Inl e | Inr dst \<Rightarrow> Inr (src, dst)))"

definition parse_proxy_header :: "string \<Rightarrow> proxy_error + addr \<times> addr" where
  "parse_proxy_header line =
     (if max_proxy_header < length line then Inl ErrProxyInvalid
      else let fs = Go_Strings.fields line
        in if length fs < 2 \<or> \<not> equal_fold (fs ! 0) ''PROXY'' then Inl ErrProxyInvalid
           else if fs ! 1 = ''UNKNOWN'' then Inl ErrProxyUnknown
           else if fs ! 1 = ''TCP4'' then parse_pair fs True
           else if fs ! 1 = ''TCP6'' then parse_pair fs False
           else Inl ErrProxyInvalid)"

subsection \<open>Version 2\<close>

definition byte_of :: "string \<Rightarrow> nat \<Rightarrow> u8" where
  "byte_of b i = bytes_of b ! i"

definition declared_length :: "string \<Rightarrow> nat" where
  "declared_length b = (case get_u16 (bytes_of (drop 14 b)) of None \<Rightarrow> 0 | Some w \<Rightarrow> unat w)"

definition slice :: "nat \<Rightarrow> nat \<Rightarrow> 'a list \<Rightarrow> 'a list" where
  "slice i j xs = take (j - i) (drop i xs)"

text \<open>The result is \<open>None\<close> for a LOCAL command, which keeps the addresses of the connection.\<close>

definition parse_proxy_header_v2 :: "string \<Rightarrow> proxy_error + (addr \<times> addr) option" where
  "parse_proxy_header_v2 b =
     (if length b < proxy_v2_header_len \<or> \<not> has_prefix b proxy_v2_signature then Inl ErrProxyInvalid
      else let ver_cmd = byte_of b 12; fam = byte_of b 13; len = declared_length b;
               addrs = bytes_of (drop proxy_v2_header_len b)
        in if ver_cmd AND 0xf0 \<noteq> 0x20 \<or> max_proxy_v2_length < len \<or> length b \<noteq> proxy_v2_header_len + len
           then Inl ErrProxyInvalid
           else if ver_cmd AND 0x0f = 0 then Inr None
           else if ver_cmd AND 0x0f \<noteq> 1 then Inl ErrProxyInvalid
           else if fam = 0x11 then
             (if length addrs < 12 then Inl ErrProxyInvalid
              else Inr (Some (addr_from4 (slice 0 4 addrs), addr_from4 (slice 4 8 addrs))))
           else if fam = 0x21 then
             (if length addrs < 36 then Inl ErrProxyInvalid
              else Inr (Some (addr_from16 (slice 0 16 addrs), addr_from16 (slice 16 32 addrs))))
           else if fam \<in> {0x00, 0x12, 0x22, 0x31, 0x32} then Inl ErrProxyUnknown
           else Inl ErrProxyInvalid)"

subsection \<open>What a proxy sends\<close>

text \<open>
  The header of the specification for a TCP connection between two addresses of one family,
  with the ports and further records behind them.
\<close>

fun v2_family :: "addr \<Rightarrow> u8" where
  "v2_family (Addr4 _) = 0x11"
| "v2_family _ = 0x21"

definition v2_header :: "addr \<Rightarrow> addr \<Rightarrow> bytes \<Rightarrow> string" where
  "v2_header src dst tlvs =
     (let block = as_slice src @ as_slice dst @ tlvs
      in proxy_v2_signature @ chars_of [0x21, v2_family src] @ chars_of (put_u16 (of_nat (length block))) @ chars_of block)"

definition v1_line :: "addr \<Rightarrow> addr \<Rightarrow> string \<Rightarrow> string" where
  "v1_line src dst tlvs =
     ''PROXY '' @ (if is4 src then ''TCP4'' else ''TCP6'') @ '' '' @ addr_string src @ '' '' @ addr_string dst @ '' '' @ tlvs"

fun same_family :: "addr \<Rightarrow> addr \<Rightarrow> bool" where
  "same_family (Addr4 _) (Addr4 _) = True"
| "same_family (Addr6 _ z) (Addr6 _ z') = (z = [] \<and> z' = [])"
| "same_family _ _ = False"

lemma signature_length [simp]: "length proxy_v2_signature = 12" by (simp add: proxy_v2_signature_def)


lemma signature_bytes: "length (bytes_of proxy_v2_signature) = 12" by simp

lemma bytes_val_u32 [simp]: "bytes_val (put_u32 w) 0 = w"
  using u32_of_bytes [of w] by (simp add: put_u32_def)

lemma bytes_val_put_u32: "bytes_val (put_u32 w) (acc :: u128) = push_bit 32 acc OR ucast w"
proof (rule bit_word_eqI)
  fix n assume "n < LENGTH(128)"
  then consider "n < 8" | "8 \<le> n" "n < 16" | "16 \<le> n" "n < 24" | "24 \<le> n" "n < 32" | "32 \<le> n" "n < 128" by fastforce
  then show "bit (bytes_val (put_u32 w) acc) n \<longleftrightarrow> bit (push_bit 32 acc OR ucast w) n"
    by cases (auto simp: put_u32_def bit_simps dest: bit_imp_le_length)
qed

lemma bytes_val_append: "bytes_val (a @ b) acc = bytes_val b (bytes_val a acc)"
  by (induction a arbitrary: acc) simp_all

lemma bytes_val_put_u128:
  "bytes_val (put_u128 w) (0 :: u128) =
     push_bit 32 (push_bit 32 (push_bit 32 (push_bit 32 0 OR ucast (ucast (drop_bit 32 (ucast (drop_bit 64 w) :: u64)) :: u32)) OR
       ucast (ucast (ucast (drop_bit 64 w) :: u64) :: u32)) OR ucast (ucast (drop_bit 32 (ucast w :: u64)) :: u32)) OR
       ucast (ucast (ucast w :: u64) :: u32)"
  unfolding put_u128_def put_u64_def bytes_val_append by (simp only: bytes_val_put_u32)

lemma bytes_val_u128 [simp]: "bytes_val (put_u128 w) 0 = w"
proof (rule bit_word_eqI)
  fix n assume "n < LENGTH(128)"
  then consider "n < 32" | "32 \<le> n" "n < 64" | "64 \<le> n" "n < 96" | "96 \<le> n" "n < 128" by fastforce
  then show "bit (bytes_val (put_u128 w) (0 :: u128)) n \<longleftrightarrow> bit w n"
    unfolding bytes_val_put_u128 by cases (auto simp: bit_simps)
qed

lemma put_u128_length [simp]: "length (put_u128 w) = 16" by (simp add: put_u128_def)

lemma v2_header_facts:
  fixes tlvs :: bytes
  assumes n: "length (as_slice src @ as_slice dst @ tlvs) \<le> max_proxy_v2_length"
  defines "h \<equiv> v2_header src dst tlvs"
  shows "length h = 16 + length (as_slice src @ as_slice dst @ tlvs)" "has_prefix h proxy_v2_signature"
    "byte_of h 12 = 0x21" "byte_of h 13 = v2_family src" "declared_length h = length (as_slice src @ as_slice dst @ tlvs)"
    "bytes_of (drop proxy_v2_header_len h) = as_slice src @ as_slice dst @ tlvs"
proof -
  let ?b = "as_slice src @ as_slice dst @ tlvs"
  have b: "bytes_of h = bytes_of proxy_v2_signature @ [0x21, v2_family src] @ put_u16 (of_nat (length ?b)) @ ?b"
    by (simp add: h_def v2_header_def Let_def)
  show "length h = 16 + length ?b" by (simp add: h_def v2_header_def Let_def)
  show "has_prefix h proxy_v2_signature" by (simp add: h_def v2_header_def Let_def has_prefix_def)
  show "byte_of h 12 = 0x21" "byte_of h 13 = v2_family src" by (simp_all add: byte_of_def b nth_append)
  have "drop 14 (bytes_of h) = put_u16 (of_nat (length ?b)) @ ?b" by (simp add: b)
  moreover have "unat (of_nat (length ?b) :: u16) = length ?b"
    using n by (simp add: unat_of_nat max_proxy_v2_length_def take_bit_nat_eq_self del: length_append of_nat_add)
  ultimately show "declared_length h = length ?b" by (simp add: declared_length_def bytes_of_drop del: length_append)
  show "bytes_of (drop proxy_v2_header_len h) = ?b" by (simp add: bytes_of_drop b proxy_v2_header_len_def)
qed

text \<open>
  C32: A proxy header is understood. The binary header for a TCP connection between two addresses of
  one family gives back both addresses, whatever ports and further records follow, up to the
  length limit; and so does the text line for two IPv4 addresses.
\<close>

theorem proxy_header_round_trip:
  assumes "same_family src dst" "4 \<le> length tlvs" "length (as_slice src @ as_slice dst @ tlvs) \<le> max_proxy_v2_length"
    and "length (v1_line (Addr4 v) (Addr4 w) ports) \<le> max_proxy_header"
  shows "parse_proxy_header_v2 (v2_header src dst tlvs) = Inr (Some (src, dst)) \<and>
     parse_proxy_header (v1_line (Addr4 v) (Addr4 w) ports) = Inr (Addr4 v, Addr4 w)"
proof
  note h = v2_header_facts [OF assms(3)]
  from assms(1,2) show "parse_proxy_header_v2 (v2_header src dst tlvs) = Inr (Some (src, dst))"
    using h assms(3)
    by (cases src; cases dst)
      (simp_all add: parse_proxy_header_v2_def proxy_v2_header_len_def addr_from4_def addr_from16_def slice_def)
  have quad: "plain_word (dotted_quad x)" for x
    using dotted_quad_chars [of _ x] by (force simp: plain_word_def list_all_iff dotted_quad_def is_digit_def ascii_space_def)
  have "v1_line (Addr4 v) (Addr4 w) ports =
      ''PROXY'' @ CHR '' '' # ''TCP4'' @ CHR '' '' # dotted_quad v @ CHR '' '' # dotted_quad w @ CHR '' '' # ports"
    by (simp add: v1_line_def)
  moreover have "plain_word ''PROXY''" "plain_word ''TCP4''" by code_simp+
  ultimately have "Go_Strings.fields (v1_line (Addr4 v) (Addr4 w) ports) =
      [''PROXY'', ''TCP4'', dotted_quad v, dotted_quad w] @ Go_Strings.fields ports"
    using fields_word [of "''PROXY''"] fields_word [of "''TCP4''"] fields_word [OF quad] by simp
  then show "parse_proxy_header (v1_line (Addr4 v) (Addr4 w) ports) = Inr (Addr4 v, Addr4 w)"
    using assms(4) by (simp add: parse_proxy_header_def parse_pair_def parse_family_def)
qed

theorem proxy_header_round_trip_witness:
  "parse_proxy_header_v2 (v2_header (Addr6 1 []) (Addr6 2 []) [0, 25, 0, 25]) = Inr (Some (Addr6 1 [], Addr6 2 [])) \<and>
   parse_proxy_header (v1_line (Addr4 0x7f000001) (Addr4 0x0a000001) ''25 25'') = Inr (Addr4 0x7f000001, Addr4 0x0a000001)"
proof -
  have "length (v1_line (Addr4 0x7f000001) (Addr4 0x0a000001) ''25 25'') \<le> max_proxy_header" by code_simp
  then show ?thesis
    using proxy_header_round_trip [of "Addr6 1 []" "Addr6 2 []" "[0, 25, 0, 25]" "0x7f000001" "0x0a000001" "''25 25''"]
    by (simp add: max_proxy_v2_length_def)
qed

end
