(* ===== verification/Sync_Wire.thy ===== *)
theory Sync_Wire
  imports Smtp_Proxy "HOL-Library.Monad_Syntax"
begin

text \<open>
  The packets by which hosts share their entries: \<open>internal/sync/wire.go\<close>, with the SHA-1 and HMAC
  of the standard library it authenticates them with. A slice or an index out of range is a panic,
  the value \<open>None\<close>; packets that are refused are values of a sum type.
\<close>

subsection \<open>SHA-1 and HMAC\<close>

definition rotl :: "nat \<Rightarrow> u32 \<Rightarrow> u32" where
  "rotl n w = push_bit n w OR drop_bit (32 - n) w"

definition sha1_pad :: "bytes \<Rightarrow> bytes" where
  "sha1_pad m = m @ 0x80 # replicate ((119 - length m mod 64) mod 64) 0 @ put_u64 (of_nat (8 * length m))"

fun be_words :: "bytes \<Rightarrow> u32 list" where
  "be_words (a # b # c # d # s) = bytes_val [a, b, c, d] 0 # be_words s"
| "be_words _ = []"

fun sha1_schedule :: "nat \<Rightarrow> u32 list \<Rightarrow> u32 list" where
  "sha1_schedule 0 ws = ws"
| "sha1_schedule (Suc n) ws =
     (let t = length ws
      in sha1_schedule n (ws @ [rotl 1 (ws ! (t - 3) XOR ws ! (t - 8) XOR ws ! (t - 14) XOR ws ! (t - 16))]))"

type_synonym sha1_state = "u32 \<times> u32 \<times> u32 \<times> u32 \<times> u32"

definition sha1_round :: "nat \<Rightarrow> u32 \<Rightarrow> sha1_state \<Rightarrow> sha1_state" where
  "sha1_round t w = (\<lambda>(a, b, c, d, e).
     (let (f, k) =
        (if t < 20 then ((b AND c) OR (NOT b AND d), 0x5a827999)
         else if t < 40 then (b XOR c XOR d, 0x6ed9eba1)
         else if t < 60 then ((b AND c) OR (b AND d) OR (c AND d), 0x8f1bbcdc)
         else (b XOR c XOR d, 0xca62c1d6))
      in (rotl 5 a + f + e + k + w, a, rotl 30 b, c, d)))"

fun sha1_rounds :: "nat \<Rightarrow> u32 list \<Rightarrow> sha1_state \<Rightarrow> sha1_state" where
  "sha1_rounds t [] s = s"
| "sha1_rounds t (w # ws) s = sha1_rounds (Suc t) ws (sha1_round t w s)"

definition sha1_block :: "bytes \<Rightarrow> sha1_state \<Rightarrow> sha1_state" where
  "sha1_block b = (\<lambda>(h0, h1, h2, h3, h4).
     (let (x0, x1, x2, x3, x4) = sha1_rounds 0 (sha1_schedule 64 (be_words b)) (h0, h1, h2, h3, h4)
      in (h0 + x0, h1 + x1, h2 + x2, h3 + x3, h4 + x4)))"

function sha1_blocks :: "bytes \<Rightarrow> sha1_state \<Rightarrow> sha1_state" where
  "sha1_blocks b s = (if length b < 64 then s else sha1_blocks (drop 64 b) (sha1_block (take 64 b) s))"
  by pat_completeness auto
termination
  by (relation "measure (\<lambda>(b, s). length b)") auto

declare sha1_blocks.simps [simp del]

definition sha1 :: "bytes \<Rightarrow> bytes" where
  "sha1 m =
     (let (h0, h1, h2, h3, h4) = sha1_blocks (sha1_pad m) (0x67452301, 0xefcdab89, 0x98badcfe, 0x10325476, 0xc3d2e1f0)
      in put_u32 h0 @ put_u32 h1 @ put_u32 h2 @ put_u32 h3 @ put_u32 h4)"

definition hmac :: "bytes \<Rightarrow> bytes \<Rightarrow> bytes" where
  "hmac key m =
     (let k0 = (if 64 < length key then sha1 key else key);
          k = k0 @ replicate (64 - length k0) 0
      in sha1 (map (\<lambda>b. b XOR 0x5c) k @ sha1 (map (\<lambda>b. b XOR 0x36) k @ m)))"

lemma sha1_length [simp]: "length (sha1 m) = 20"
  by (simp add: sha1_def split: prod.splits)

lemma hmac_length [simp]: "length (hmac k m) = 20"
  by (simp add: hmac_def Let_def)

subsection \<open>Constants\<close>

definition sync_version :: u8 where "sync_version = 2"

definition af_inet :: u8 where "af_inet = 2"

definition hmac_len :: nat where "hmac_len = 20"

definition max_size :: nat where "max_size = 1408"

definition TypeEnd_tlv :: u16 where "TypeEnd_tlv = 0"

definition TypeGrey_tlv :: u16 where "TypeGrey_tlv = 1"

definition TypeWhite_tlv :: u16 where "TypeWhite_tlv = 2"

definition TypeTrapped_tlv :: u16 where "TypeTrapped_tlv = 3"

definition TypeDelWhite_tlv :: u16 where "TypeDelWhite_tlv = 4"

definition TypeDelTrapped_tlv :: u16 where "TypeDelTrapped_tlv = 5"

definition hdr_len :: nat where "hdr_len = 32"

definition tlv_hdr_len :: nat where "tlv_hdr_len = 4"

definition grey_hdr_len :: nat where "grey_hdr_len = 18"

definition addr_len :: nat where "addr_len = 16"

definition end_len :: nat where "end_len = 4"

lemmas sync_consts = sync_version_def af_inet_def hmac_len_def max_size_def TypeEnd_tlv_def TypeGrey_tlv_def TypeWhite_tlv_def
  TypeTrapped_tlv_def TypeDelWhite_tlv_def TypeDelTrapped_tlv_def hdr_len_def tlv_hdr_len_def grey_hdr_len_def addr_len_def end_len_def

subsection \<open>Keys\<close>

datatype key_file = NoFile | BadFile | KeyFile bytes

definition zero_key :: bytes where "zero_key = replicate 41 0"

text \<open>The key, whether a file was there, and a failure to read it as \<open>None\<close>.\<close>

definition load_key :: "key_file \<Rightarrow> (bytes \<times> bool) option" where
  "load_key f =
     (case f of
        NoFile \<Rightarrow> Some (zero_key, False)
      | BadFile \<Rightarrow> None
      | KeyFile content \<Rightarrow>
          Some (bytes_of (concat (map (\<lambda>b. [hex_digit (unat (drop_bit 4 b)), hex_digit (unat (b AND 0xf))]) (sha1 content))) @ [0],
                True))"

subsection \<open>Encoding\<close>

definition align :: "nat \<Rightarrow> nat" where
  "align n = (n + 15) div 16 * 16"

definition sign :: "bytes \<Rightarrow> bytes \<Rightarrow> bytes" where
  "sign k pkt = take 8 pkt @ hmac k pkt @ drop (8 + hmac_len) pkt"

definition put_header :: "u32 \<Rightarrow> nat \<Rightarrow> bytes" where
  "put_header counter total_len = [sync_version, af_inet] @ put_u16 (of_nat total_len) @ put_u32 counter @ replicate 24 0"

definition put_end :: bytes where
  "put_end = put_u16 TypeEnd_tlv @ put_u16 (of_nat end_len)"

definition ip4 :: "addr \<Rightarrow> bytes" where
  "ip4 a = (case unmap a of Addr4 w \<Rightarrow> put_u32 w | _ \<Rightarrow> [0, 0, 0, 0])"

definition grey_length :: "string \<Rightarrow> string \<Rightarrow> string \<Rightarrow> nat" where
  "grey_length helo from to = align (grey_hdr_len + (length from + 1) + (length to + 1) + (length helo + 1))"

definition encode_grey :: "bytes \<Rightarrow> u32 \<Rightarrow> addr \<Rightarrow> string \<Rightarrow> string \<Rightarrow> string \<Rightarrow> u32 \<Rightarrow> bytes" where
  "encode_grey k counter ip helo from to now =
     (let from_b = bytes_of from @ [0]; to_b = bytes_of to @ [0]; helo_b = bytes_of helo @ [0];
          sglen = grey_hdr_len + length from_b + length to_b + length helo_b;
          padlen = align sglen - sglen;
          total_len = hdr_len + sglen + padlen + end_len
      in sign k
           (put_header counter total_len @
            put_u16 TypeGrey_tlv @ put_u16 (of_nat (sglen + padlen)) @ put_u32 now @ ip4 ip @
            put_u16 (of_nat (length from_b)) @ put_u16 (of_nat (length to_b)) @ put_u16 (of_nat (length helo_b)) @
            from_b @ to_b @ helo_b @ replicate padlen 0 @ put_end))"

definition encode_addr :: "bytes \<Rightarrow> u32 \<Rightarrow> u16 \<Rightarrow> addr \<Rightarrow> u32 \<Rightarrow> u32 \<Rightarrow> bytes" where
  "encode_addr k counter typ ip now expire =
     sign k
       (put_header counter (hdr_len + addr_len + end_len) @
        put_u16 typ @ put_u16 (of_nat addr_len) @ put_u32 now @ put_u32 expire @ ip4 ip @ put_end)"

subsection \<open>Decoding\<close>

record sync_entry =
  se_type :: u16
  se_ip :: addr
  se_helo :: string
  se_from :: string
  se_to :: string
  se_expire :: u32
  se_delete :: bool

record packet =
  pk_counter :: u32
  pk_entries :: "sync_entry list"

datatype sync_error = ErrTruncated

definition cstr :: "bytes \<Rightarrow> string" where
  "cstr b = chars_of (takeWhile (\<lambda>x. x \<noteq> 0) b)"

text \<open>The slice from \<open>i\<close> to \<open>j\<close>; out of range it panics.\<close>

definition slice_at :: "nat \<Rightarrow> nat \<Rightarrow> bytes \<Rightarrow> bytes option" where
  "slice_at i j b = (if i \<le> j \<and> j \<le> length b then Some (slice i j b) else None)"

text \<open>
  One record of length \<open>ln\<close> at the front: a refusal, the end, or an entry.
\<close>

definition decode_grey :: "nat \<Rightarrow> bytes \<Rightarrow> (sync_error + sync_entry option) option" where
  "decode_grey ln p =
     (if ln < grey_hdr_len then Some (Inl ErrTruncated)
      else do {
        f \<leftarrow> map_option unat (get_u16 (drop 12 p));
        t \<leftarrow> map_option unat (get_u16 (drop 14 p));
        h \<leftarrow> map_option unat (get_u16 (drop 16 p));
        if ln < grey_hdr_len + f + t + h then Some (Inl ErrTruncated)
        else do {
          s \<leftarrow> slice_at grey_hdr_len (length p) p;
          ip \<leftarrow> slice_at 8 12 p;
          from \<leftarrow> slice_at 0 f s;
          to \<leftarrow> slice_at f (f + t) s;
          helo \<leftarrow> slice_at (f + t) (f + t + h) s;
          Some (Inr (Some \<lparr>se_type = TypeGrey_tlv, se_ip = addr_from4 ip, se_helo = cstr helo, se_from = cstr from,
            se_to = cstr to, se_expire = 0, se_delete = False\<rparr>))
        }
      })"

definition decode_addr :: "u16 \<Rightarrow> nat \<Rightarrow> bytes \<Rightarrow> (sync_error + sync_entry option) option" where
  "decode_addr typ ln p =
     (if ln \<noteq> addr_len then Some (Inl ErrTruncated)
      else do {
        ip \<leftarrow> slice_at 12 16 p;
        expire \<leftarrow> get_u32 (drop 8 p);
        Some (Inr (Some \<lparr>se_type = typ, se_ip = addr_from4 ip, se_helo = [], se_from = [], se_to = [],
          se_expire = expire, se_delete = (typ = TypeDelWhite_tlv \<or> typ = TypeDelTrapped_tlv)\<rparr>))
      })"

definition decode_entry :: "u16 \<Rightarrow> nat \<Rightarrow> bytes \<Rightarrow> (sync_error + sync_entry option) option" where
  "decode_entry typ ln p =
     (if typ = TypeGrey_tlv then decode_grey ln p
      else if typ \<in> {TypeWhite_tlv, TypeDelWhite_tlv, TypeTrapped_tlv, TypeDelTrapped_tlv} then decode_addr typ ln p
      else if typ = TypeEnd_tlv then Some (Inr None)
      else Some (Inl ErrTruncated))"

function decode_tlvs :: "bytes \<Rightarrow> sync_entry list \<Rightarrow> (sync_error + sync_entry list) option" where
  "decode_tlvs p out =
     (if p = [] then Some (Inr out)
      else if length p < tlv_hdr_len then Some (Inl ErrTruncated)
      else case (get_u16 p, map_option unat (get_u16 (drop 2 p))) of
          (Some typ, Some ln) \<Rightarrow>
            if ln < tlv_hdr_len \<or> length p < ln then Some (Inl ErrTruncated)
            else (case decode_entry typ ln p of
                    None \<Rightarrow> None
                  | Some (Inl e) \<Rightarrow> Some (Inl e)
                  | Some (Inr None) \<Rightarrow> Some (Inr out)
                  | Some (Inr (Some e)) \<Rightarrow> decode_tlvs (drop ln p) (out @ [e]))
        | _ \<Rightarrow> None)"
  by pat_completeness auto
termination
  by (relation "measure (\<lambda>(p, out). length p)") (auto simp: tlv_hdr_len_def)

declare decode_tlvs.simps [simp del]

definition zero_hmac :: "bytes \<Rightarrow> bytes" where
  "zero_hmac pkt = take 8 pkt @ replicate hmac_len 0 @ drop (8 + hmac_len) pkt"

definition sync_decode :: "bytes \<Rightarrow> bytes \<Rightarrow> (sync_error + packet) option" where
  "sync_decode k pkt0 =
     (if length pkt0 < hdr_len \<or> pkt0 ! 0 \<noteq> sync_version \<or> pkt0 ! 1 \<noteq> af_inet then Some (Inl ErrTruncated)
      else do {
        len \<leftarrow> map_option unat (get_u16 (drop 2 pkt0));
        if length pkt0 < len \<or> len < hdr_len then Some (Inl ErrTruncated)
        else do {
          pkt \<leftarrow> slice_at 0 len pkt0;
          counter \<leftarrow> get_u32 (drop 4 pkt);
          got \<leftarrow> slice_at 8 (8 + hmac_len) pkt;
          if got \<noteq> hmac k (zero_hmac pkt) then Some (Inl ErrTruncated)
          else do {
            p \<leftarrow> slice_at hdr_len len (zero_hmac pkt);
            r \<leftarrow> decode_tlvs p [];
            Some (case r of Inl e \<Rightarrow> Inl e | Inr es \<Rightarrow> Inr \<lparr>pk_counter = counter, pk_entries = es\<rparr>)
          }
        }
      })"

subsection \<open>No packet makes the decoder panic\<close>

lemma get_u16_some: "2 \<le> length b \<Longrightarrow> \<exists>w. get_u16 b = Some w"
  by (cases b rule: get_u16.cases) auto

lemma get_u32_some: "4 \<le> length b \<Longrightarrow> \<exists>w. get_u32 b = Some w"
  by (cases b rule: get_u32.cases) auto

lemma get_drop_some:
  "n + 2 \<le> length b \<Longrightarrow> \<exists>w. get_u16 (drop n b) = Some w" "n + 4 \<le> length b \<Longrightarrow> \<exists>w. get_u32 (drop n b) = Some w"
  using get_u16_some [of "drop n b"] get_u32_some [of "drop n b"] by simp_all

lemma decode_entry_returns:
  assumes "ln \<le> length p"
  shows "decode_entry ty ln p \<noteq> None"
proof -
  have "decode_grey ln p \<noteq> None"
  proof (cases "ln < grey_hdr_len")
    case False
    then have l: "18 \<le> length p" using assms by (simp add: grey_hdr_len_def)
    obtain f t h where "get_u16 (drop 12 p) = Some f" "get_u16 (drop 14 p) = Some t" "get_u16 (drop 16 p) = Some h"
      using get_drop_some(1) [of 12 p] get_drop_some(1) [of 14 p] get_drop_some(1) [of 16 p] l by auto
    then show ?thesis using assms l by (auto simp: decode_grey_def slice_at_def slice_def grey_hdr_len_def)
  qed (simp add: decode_grey_def)
  moreover have "decode_addr ty ln p \<noteq> None"
    using get_drop_some(2) [of 8 p] assms by (auto simp: decode_addr_def slice_at_def addr_len_def)
  ultimately show ?thesis by (simp add: decode_entry_def)
qed

lemma decode_tlvs_returns: "decode_tlvs p out \<noteq> None"
proof (induction p out rule: decode_tlvs.induct)
  case (1 p out)
  show ?case
  proof (cases "p = [] \<or> length p < tlv_hdr_len")
    case False
    then have l: "4 \<le> length p" by (simp add: tlv_hdr_len_def)
    obtain ty ln where g: "get_u16 p = Some ty" "get_u16 (drop 2 p) = Some ln"
      using get_u16_some [of p] get_drop_some(1) [of 2 p] l by auto
    show ?thesis
    proof (cases "unat ln < tlv_hdr_len \<or> length p < unat ln")
      case True
      then show ?thesis using False g by (simp add: decode_tlvs.simps [of p])
    next
      case ok: False
      then obtain r where r: "decode_entry ty (unat ln) p = Some r" using decode_entry_returns [of "unat ln" p ty] by auto
      have "decode_tlvs (drop (unat ln) p) (out @ [e]) \<noteq> None" if "r = Inr (Some e)" for e
        using "1.IH" False g ok r that by simp
      then show ?thesis using False g ok r
        by (auto simp: decode_tlvs.simps [of p] split: sum.splits option.splits)
    qed
  qed (auto simp: decode_tlvs.simps [of p])
qed

lemma sync_decode_cases:
  obtains "sync_decode k pkt = Some (Inl ErrTruncated)"
  | len counter es where "get_u16 (drop 2 pkt) = Some len" "unat len \<le> length pkt" "hdr_len \<le> unat len"
      "get_u32 (drop 4 (take (unat len) pkt)) = Some counter"
      "take hmac_len (drop 8 pkt) = hmac k (zero_hmac (take (unat len) pkt))"
      "decode_tlvs (drop hdr_len (zero_hmac (take (unat len) pkt))) [] = Some (Inr es)"
      "sync_decode k pkt = Some (Inr \<lparr>pk_counter = counter, pk_entries = es\<rparr>)"
proof (cases "length pkt < hdr_len \<or> pkt ! 0 \<noteq> sync_version \<or> pkt ! 1 \<noteq> af_inet")
  case True
  then show ?thesis using that(1) by (simp add: sync_decode_def)
next
  case hdr: False
  then obtain len where len: "get_u16 (drop 2 pkt) = Some len" using get_drop_some(1) [of 2 pkt] by (auto simp: hdr_len_def)
  show ?thesis
  proof (cases "length pkt < unat len \<or> unat len < hdr_len")
    case True
    then show ?thesis using that(1) hdr len by (simp add: sync_decode_def)
  next
    case l: False
    let ?p = "take (unat len) pkt"
    have pl: "length ?p = unat len" "32 \<le> unat len" using l by (auto simp: hdr_len_def)
    obtain counter where c: "get_u32 (drop 4 ?p) = Some counter" using get_drop_some(2) [of 4 ?p] pl by (auto simp del: length_take)
    have zl: "length (zero_hmac ?p) = unat len" using pl by (simp add: zero_hmac_def hmac_len_def)
    have s: "slice_at 0 (unat len) pkt = Some ?p" "slice_at 8 (8 + hmac_len) ?p = Some (take hmac_len (drop 8 pkt))"
      "slice_at hdr_len (unat len) (zero_hmac ?p) = Some (drop hdr_len (zero_hmac ?p))"
      using l pl zl by (auto simp: slice_at_def slice_def hmac_len_def hdr_len_def drop_take)
    obtain r where r: "decode_tlvs (drop hdr_len (zero_hmac ?p)) [] = Some r" using decode_tlvs_returns by auto
    have d: "sync_decode k pkt = (if take hmac_len (drop 8 pkt) \<noteq> hmac k (zero_hmac ?p) then Some (Inl ErrTruncated)
        else Some (case r of Inl e \<Rightarrow> Inl e | Inr es \<Rightarrow> Inr \<lparr>pk_counter = counter, pk_entries = es\<rparr>))"
      using hdr len l s c r by (simp add: sync_decode_def)
    show ?thesis
    proof (cases r)
      case (Inl e)
      then have "sync_decode k pkt = Some (Inl ErrTruncated)" using d by (cases e) simp
      then show ?thesis by (rule that(1))
    next
      case (Inr es)
      show ?thesis
      proof (cases "take hmac_len (drop 8 pkt) = hmac k (zero_hmac ?p)")
        case True
        have "sync_decode k pkt = Some (Inr \<lparr>pk_counter = counter, pk_entries = es\<rparr>)" using d True Inr by simp
        with that(2) [OF len _ _ c True r [unfolded Inr]] l show ?thesis by simp
      next
        case False
        then have "sync_decode k pkt = Some (Inl ErrTruncated)" using d by simp
        then show ?thesis by (rule that(1))
      qed
    qed
  qed
qed

definition packet_length :: "bytes \<Rightarrow> nat" where
  "packet_length pkt = (case get_u16 (drop 2 pkt) of None \<Rightarrow> 0 | Some n \<Rightarrow> unat n)"


subsection \<open>Round trips\<close>

lemma unat_u16 [simp]: "n < 65536 \<Longrightarrow> unat (of_nat n :: u16) = n"
  by (simp add: unat_of_nat take_bit_nat_eq_self)

lemma cstr_terminated: "CHR 0x00 \<notin> set s \<Longrightarrow> cstr (bytes_of s @ [0]) = s"
proof -
  assume n: "CHR 0x00 \<notin> set s"
  have "0 \<notin> set (bytes_of s)"
  proof
    assume "0 \<in> set (bytes_of s)"
    then have "char_of (unat (0 :: u8)) \<in> set (chars_of (bytes_of s))" unfolding chars_of_def by (metis image_eqI list.set_map)
    moreover have "char_of (unat (0 :: u8)) = CHR 0x00" by (simp, code_simp)
    ultimately show False using n by simp
  qed
  then have "x \<noteq> 0" if "x \<in> set (bytes_of s)" for x using that by blast
  then have "takeWhile (\<lambda>x. x \<noteq> 0) (bytes_of s @ [0]) = bytes_of s" by (simp add: takeWhile_append2)
  then show ?thesis by (simp add: cstr_def)
qed

lemma decode_signed:
  assumes "n = hdr_len + length body" "n < 65536"
  shows "sync_decode k (sign k (put_header counter n @ body)) =
     map_option (\<lambda>r. case r of Inl e \<Rightarrow> Inl e | Inr es \<Rightarrow> Inr \<lparr>pk_counter = counter, pk_entries = es\<rparr>) (decode_tlvs body [])"
proof -
  let ?h = "[sync_version, af_inet] @ put_u16 (of_nat n) @ put_u32 counter"
  let ?pkt = "put_header counter n @ body"
  let ?m = "hmac k ?pkt"
  have p: "?pkt = ?h @ replicate 20 0 @ replicate 4 0 @ body" by (simp add: put_header_def replicate_add [symmetric] flip: append_assoc)
  have s: "sign k ?pkt = ?h @ ?m @ replicate 4 0 @ body"
    unfolding sign_def by (simp add: p hmac_len_def)
  have z: "zero_hmac (sign k ?pkt) = ?pkt" unfolding s zero_hmac_def by (simp add: p hmac_len_def)
  have l: "length (sign k ?pkt) = n" unfolding s using assms(1) by (simp add: hdr_len_def)
  have "get_u16 (drop 2 (sign k ?pkt)) = Some (of_nat n)" "get_u32 (drop 4 (sign k ?pkt)) = Some counter"
    "take hmac_len (drop 8 (sign k ?pkt)) = ?m" "sign k ?pkt ! 0 = sync_version" "sign k ?pkt ! 1 = af_inet"
    unfolding s by (simp_all add: hmac_len_def)
  moreover have "drop hdr_len ?pkt = body" by (simp add: put_header_def hdr_len_def)
  moreover have "slice_at 0 n (sign k ?pkt) = Some (sign k ?pkt)" "slice_at 8 (8 + hmac_len) (sign k ?pkt) = Some (take hmac_len (drop 8 (sign k ?pkt)))"
    "slice_at hdr_len n ?pkt = Some (drop hdr_len ?pkt)"
    using l assms by (simp_all add: slice_at_def slice_def hmac_len_def hdr_len_def put_header_def)
  moreover have "unat (of_nat n :: u16) = n" using assms(2) by (rule unat_u16)
  moreover have "hdr_len \<le> n" using assms(1) by simp
  ultimately show ?thesis using l z by (simp add: sync_decode_def map_option_case split: option.splits)
qed

lemma decode_tlvs_step:
  assumes "get_u16 p = Some ty" "get_u16 (drop 2 p) = Some n" "4 \<le> unat n" "unat n \<le> length p"
    and "decode_entry ty (unat n) p = Some (Inr r)"
  shows "decode_tlvs p out = (case r of None \<Rightarrow> Some (Inr out) | Some e \<Rightarrow> decode_tlvs (drop (unat n) p) (out @ [e]))"
  using assms by (cases "p = []") (auto simp: decode_tlvs.simps [of p] tlv_hdr_len_def split: option.splits)

lemma decode_end: "decode_tlvs put_end out = Some (Inr out)"
  using decode_tlvs_step [of put_end TypeEnd_tlv 4 None out] get_put_u16 [of 4 "[]"]
  by (simp add: put_end_def decode_entry_def sync_consts)

lemma ip4_length [simp]: "length (ip4 a) = 4"
  by (simp add: ip4_def split: addr.split)

lemma addr_from4_ip4 [simp]: "addr_from4 (ip4 (Addr4 w)) = Addr4 w"
  by (simp add: addr_from4_def ip4_def)

lemma align_ge: "n \<le> align n"
  by (simp add: align_def)

definition grey_record :: "addr \<Rightarrow> string \<Rightarrow> string \<Rightarrow> string \<Rightarrow> u32 \<Rightarrow> bytes" where
  "grey_record ip helo from to now =
     put_u16 TypeGrey_tlv @ put_u16 (of_nat (grey_length helo from to)) @ put_u32 now @ ip4 ip @
     put_u16 (of_nat (length from + 1)) @ put_u16 (of_nat (length to + 1)) @ put_u16 (of_nat (length helo + 1)) @
     (bytes_of from @ [0]) @ (bytes_of to @ [0]) @ (bytes_of helo @ [0]) @
     replicate (grey_length helo from to - (grey_hdr_len + (length from + 1) + (length to + 1) + (length helo + 1))) 0"

lemma grey_record_length: "length (grey_record ip helo from to now) = grey_length helo from to"
  using align_ge [of "grey_hdr_len + (length from + 1) + (length to + 1) + (length helo + 1)"]
  by (simp add: grey_record_def grey_length_def grey_hdr_len_def)

lemma encode_grey_record:
  "encode_grey k counter ip helo from to now =
     sign k (put_header counter (hdr_len + grey_length helo from to + end_len) @ grey_record ip helo from to now @ put_end)"
proof -
  let ?n = "grey_hdr_len + (length from + 1) + (length to + 1) + (length helo + 1)"
  have a: "?n + (align ?n - ?n) = align ?n" "hdr_len + ?n + (align ?n - ?n) + end_len = hdr_len + align ?n + end_len"
    using align_ge [of ?n] by simp_all
  have b: "length (bytes_of x @ [0]) = length x + 1" for x by simp
  show ?thesis unfolding encode_grey_def Let_def grey_record_def grey_length_def by (simp only: a b append_assoc)
qed

lemma decode_grey_record:
  assumes "CHR 0x00 \<notin> set helo" "CHR 0x00 \<notin> set from" "CHR 0x00 \<notin> set to" "grey_length helo from to < 65536"
  shows "decode_tlvs (grey_record (Addr4 w) helo from to now @ put_end) [] =
     Some (Inr [\<lparr>se_type = TypeGrey_tlv, se_ip = Addr4 w, se_helo = helo, se_from = from, se_to = to, se_expire = 0, se_delete = False\<rparr>])"
proof -
  let ?n = "grey_length helo from to"
  let ?r = "grey_record (Addr4 w) helo from to now"
  let ?p = "?r @ put_end"
  let ?f = "length from + 1" and ?t = "length to + 1" and ?h = "length helo + 1"
  have n: "18 + ?f + ?t + ?h \<le> ?n" unfolding grey_length_def using align_ge [of "grey_hdr_len + ?f + ?t + ?h"] by (simp add: grey_hdr_len_def)
  have l: "length ?r = ?n" by (rule grey_record_length)
  let ?z = "replicate (?n - (grey_hdr_len + ?f + ?t + ?h)) 0 @ put_end"
  have p: "?p = put_u16 TypeGrey_tlv @ put_u16 (of_nat ?n) @ put_u32 now @ ip4 (Addr4 w) @
     put_u16 (of_nat ?f) @ put_u16 (of_nat ?t) @ put_u16 (of_nat ?h) @ (bytes_of from @ [0]) @ (bytes_of to @ [0]) @ (bytes_of helo @ [0]) @ ?z"
    unfolding grey_record_def by simp
  have g: "get_u16 ?p = Some TypeGrey_tlv" "get_u16 (drop 2 ?p) = Some (of_nat ?n)" "get_u16 (drop 12 ?p) = Some (of_nat ?f)"
    "get_u16 (drop 14 ?p) = Some (of_nat ?t)" "get_u16 (drop 16 ?p) = Some (of_nat ?h)"
    unfolding p by (simp_all del: of_nat_add)
  have u: "unat (of_nat ?n :: u16) = ?n" "unat (of_nat ?f :: u16) = ?f" "unat (of_nat ?t :: u16) = ?t" "unat (of_nat ?h :: u16) = ?h"
    using n assms(4) by (intro unat_u16, linarith)+
  have s: "slice_at 18 (length ?p) ?p = Some ((bytes_of from @ [0]) @ (bytes_of to @ [0]) @ (bytes_of helo @ [0]) @ ?z)"
    "slice_at 8 12 ?p = Some (ip4 (Addr4 w))"
    unfolding slice_at_def slice_def p by simp_all
  have e: "decode_entry TypeGrey_tlv ?n ?p = Some (Inr (Some \<lparr>se_type = TypeGrey_tlv, se_ip = Addr4 w, se_helo = helo,
      se_from = from, se_to = to, se_expire = 0, se_delete = False\<rparr>))"
    unfolding decode_entry_def decode_grey_def using n l g(3-5) u(2-4) s assms(1-3)
    by (simp add: grey_hdr_len_def slice_at_def slice_def cstr_terminated del: of_nat_add)
  have "decode_tlvs ?p [] = decode_tlvs (drop ?n ?p) [\<lparr>se_type = TypeGrey_tlv, se_ip = Addr4 w, se_helo = helo,
      se_from = from, se_to = to, se_expire = 0, se_delete = False\<rparr>]"
    using decode_tlvs_step [OF g(1,2), of _ "[]"] n l u(1) e by simp
  also have "drop ?n ?p = put_end" using l by simp
  finally show ?thesis by (simp only: decode_end)
qed

definition addr_types :: "u16 list" where
  "addr_types = [TypeWhite_tlv, TypeTrapped_tlv, TypeDelWhite_tlv, TypeDelTrapped_tlv]"

definition addr_entry :: "u16 \<Rightarrow> u32 \<Rightarrow> u32 \<Rightarrow> sync_entry" where
  "addr_entry ty w expire = \<lparr>se_type = ty, se_ip = Addr4 w, se_helo = [], se_from = [], se_to = [], se_expire = expire,
     se_delete = (ty \<in> {TypeDelWhite_tlv, TypeDelTrapped_tlv})\<rparr>"

definition grey_entry :: "u32 \<Rightarrow> string \<Rightarrow> string \<Rightarrow> string \<Rightarrow> sync_entry" where
  "grey_entry w helo from to = \<lparr>se_type = TypeGrey_tlv, se_ip = Addr4 w, se_helo = helo, se_from = from, se_to = to,
     se_expire = 0, se_delete = False\<rparr>"

lemma decode_addr_record:
  assumes "ty \<in> set addr_types"
  shows "decode_tlvs (put_u16 ty @ put_u16 16 @ put_u32 now @ put_u32 expire @ ip4 (Addr4 w) @ put_end) [] =
     Some (Inr [addr_entry ty w expire])"
proof -
  let ?p = "put_u16 ty @ put_u16 16 @ put_u32 now @ put_u32 expire @ ip4 (Addr4 w) @ put_end"
  have g: "get_u16 ?p = Some ty" "get_u16 (drop 2 ?p) = Some 16" "get_u32 (drop 8 ?p) = Some expire" by simp_all
  have s: "slice_at 12 16 ?p = Some (ip4 (Addr4 w))" by (simp add: slice_at_def slice_def)
  have "decode_addr ty 16 ?p = Some (Inr (Some (addr_entry ty w expire)))"
    unfolding decode_addr_def addr_entry_def using g(3) s by (simp add: addr_len_def)
  then have e: "decode_entry ty (unat (16 :: u16)) ?p = Some (Inr (Some (addr_entry ty w expire)))"
    using assms by (auto simp: decode_entry_def addr_types_def sync_consts)
  have "decode_tlvs ?p [] = decode_tlvs (drop (unat (16 :: u16)) ?p) [addr_entry ty w expire]"
    using decode_tlvs_step [OF g(1,2) _ _ e, of "[]"] by simp
  also have "drop (unat (16 :: u16)) ?p = put_end" by simp
  finally show ?thesis by (simp only: decode_end)
qed

lemma decode_encoded:
  "CHR 0x00 \<notin> set (helo @ from @ to) \<Longrightarrow> hdr_len + grey_length helo from to + end_len < 65536 \<Longrightarrow>
    sync_decode k (encode_grey k counter (Addr4 w) helo from to now) =
      Some (Inr \<lparr>pk_counter = counter, pk_entries = [grey_entry w helo from to]\<rparr>)"
  "ty \<in> set addr_types \<Longrightarrow> sync_decode k (encode_addr k counter ty (Addr4 w) now expire) =
      Some (Inr \<lparr>pk_counter = counter, pk_entries = [addr_entry ty w expire]\<rparr>)"
proof -
  assume n: "CHR 0x00 \<notin> set (helo @ from @ to)" and l: "hdr_len + grey_length helo from to + end_len < 65536"
  have "hdr_len + grey_length helo from to + end_len = hdr_len + length (grey_record (Addr4 w) helo from to now @ put_end)"
    by (simp add: grey_record_length) (simp add: put_end_def end_len_def)
  from decode_signed [OF this l] show "sync_decode k (encode_grey k counter (Addr4 w) helo from to now) =
      Some (Inr \<lparr>pk_counter = counter, pk_entries = [grey_entry w helo from to]\<rparr>)"
    unfolding encode_grey_record using decode_grey_record [of helo "from" to w now] n l by (simp add: grey_entry_def)
next
  assume ty: "ty \<in> set addr_types"
  let ?b = "put_u16 ty @ put_u16 16 @ put_u32 now @ put_u32 expire @ ip4 (Addr4 w) @ put_end"
  have "hdr_len + addr_len + end_len = hdr_len + length ?b" "hdr_len + addr_len + end_len < 65536"
    by (simp_all add: put_end_def hdr_len_def addr_len_def end_len_def)
  from decode_signed [OF this] show "sync_decode k (encode_addr k counter ty (Addr4 w) now expire) =
      Some (Inr \<lparr>pk_counter = counter, pk_entries = [addr_entry ty w expire]\<rparr>)"
    unfolding encode_addr_def using decode_addr_record [OF ty, of now expire w] by (simp add: addr_len_def)
qed



end
