(* ===== verification/IP_Ranges.thy ===== *)
theory IP_Ranges
  imports Go_Netip
begin

text \<open>
  The package \<open>internal/ip\<close>: IPv4 networks in host byte order, the decomposition of an
  address range into networks, and the parser of network text. \<open>maxDiff\<close> and \<open>maxBlock\<close> are
  loops over a prefix length; \<open>RangeToCIDRs\<close> is the greedy loop over the start of the range.
\<close>

subsection \<open>Networks\<close>

record cidr =
  c_addr :: u32
  c_bits :: u8

definition uint32_to_addr :: "u32 \<Rightarrow> addr" where
  "uint32_to_addr a =
     addr_from4 [ucast (drop_bit 24 a), ucast (drop_bit 16 a), ucast (drop_bit 8 a), ucast a]"

definition addr_to_uint32 :: "addr \<Rightarrow> u32" where
  "addr_to_uint32 a0 =
     (let a = unmap a0
      in if \<not> is4 a then 0
         else case as_slice a of
             [b0, b1, b2, b3] \<Rightarrow>
               push_bit 24 (ucast b0) OR push_bit 16 (ucast b1) OR push_bit 8 (ucast b2) OR ucast b3
           | _ \<Rightarrow> 0)"

definition cidr_string :: "cidr \<Rightarrow> string" where
  "cidr_string c = addr_string (uint32_to_addr (c_addr c)) @ ''/'' @ itoa (unat (c_bits c))"

definition cidr_to_range :: "cidr \<Rightarrow> u32 \<times> u32" where
  "cidr_to_range c = (c_addr c, c_addr c + push_bit (unat (32 - c_bits c)) 1 - 1)"

subsection \<open>Range decomposition\<close>

definition imask :: "u8 \<Rightarrow> u32" where
  "imask b = (if b = 0 then 0 else push_bit (unat (32 - b)) 0xffffffff)"

function max_diff_from :: "u32 \<Rightarrow> u32 \<Rightarrow> u8 \<Rightarrow> u8" where
  "max_diff_from a b bits =
     (if bits < 32 then
        (if a AND imask bits \<noteq> b AND imask bits then bits else max_diff_from a b (bits + 1))
      else 32)"
  by pat_completeness auto
termination
proof (relation "measure (\<lambda>(a, b, bits). 32 - unat bits)", goal_cases)
  case (2 a b bits)
  then have "unat (bits + 1) = unat bits + 1"
    by (auto simp: word_less_nat_alt unat_word_ariths)
  with 2 show ?case by (auto simp: word_less_nat_alt)
qed simp

definition max_diff :: "u32 \<Rightarrow> u32 \<Rightarrow> u8" where
  "max_diff a b = max_diff_from a (b + 1) 0"

function max_block :: "u32 \<Rightarrow> u8 \<Rightarrow> u8" where
  "max_block addr bits =
     (if bits > 0 then
        (if addr AND imask (bits - 1) \<noteq> addr then bits else max_block addr (bits - 1))
      else bits)"
  by pat_completeness auto
termination
proof (relation "measure (\<lambda>(addr, bits). unat bits)", goal_cases)
  case (2 addr bits)
  then show ?case by (simp add: measure_unat word_gt_0)
qed simp

declare max_diff_from.simps [simp del] max_block.simps [simp del]

definition block_bits :: "u32 \<Rightarrow> u32 \<Rightarrow> u8" where
  "block_bits start end =
     (let maxsize = max_block start 32; diff = max_diff start end
      in if diff > maxsize then diff else maxsize)"

subsection \<open>Addresses and prefixes as text\<close>

definition family_of :: "addr \<Rightarrow> int" where
  "family_of a = (if is4 (unmap a) then 4 else 6)"

definition check_addr :: "string \<Rightarrow> int" where
  "check_addr s = (case parse_addr s of None \<Rightarrow> -1 | Some a \<Rightarrow> family_of a)"

datatype prefix_error = InvalidAddress string | InvalidPrefixLength string

fun last_index :: "string \<Rightarrow> char \<Rightarrow> nat option" where
  "last_index [] c = None"
| "last_index (d # s) c =
     (case last_index s c of
        Some i \<Rightarrow> Some (Suc i)
      | None \<Rightarrow> if d = c then Some 0 else None)"

definition parse_prefix :: "string \<Rightarrow> prefix_error + prefix" where
  "parse_prefix s0 =
     (let s = trim_space s0
      in case last_index s (CHR ''/'') of
          None \<Rightarrow>
            (case parse_addr s of
               None \<Rightarrow> Inl (InvalidAddress s)
             | Some a0 \<Rightarrow>
                 (let a = unmap a0 in Inr (prefix_from a (int (bit_len a)))))
        | Some i \<Rightarrow>
            (case parse_addr (take i s) of
               None \<Rightarrow> Inl (InvalidAddress s)
             | Some a0 \<Rightarrow>
                 (let a = unmap a0
                  in case parse_int (drop (Suc i) s) of
                       None \<Rightarrow> Inl (InvalidPrefixLength s)
                     | Some bits \<Rightarrow>
                         if bits \<le> 0 \<or> int (bit_len a) < bits then Inl (InvalidPrefixLength s)
                         else Inr (masked (prefix_from a bits)))))"

subsection \<open>Masks and alignment\<close>

text \<open>The set of addresses of a network whose prefix length is at most 32.\<close>

definition cidr_size :: "cidr \<Rightarrow> nat" where
  "cidr_size c = 2 ^ (32 - unat (c_bits c))"

definition cidr_set :: "cidr \<Rightarrow> u32 set" where
  "cidr_set c = {x. unat (c_addr c) \<le> unat x \<and> unat x < unat (c_addr c) + cidr_size c}"

text \<open>A network is well formed when its prefix length is at most 32 and it is aligned.\<close>

definition cidr_wf :: "cidr \<Rightarrow> bool" where
  "cidr_wf c \<longleftrightarrow> unat (c_bits c) \<le> 32 \<and> cidr_size c dvd unat (c_addr c)"

lemma unat_32_minus: "b \<le> 32 \<Longrightarrow> unat (32 - b :: u8) = 32 - unat b"
  by (simp add: unat_sub)

lemma imask_and:
  assumes "b \<le> 32"
  shows "unat (a AND imask b) = 2 ^ (32 - unat b) * (unat a div 2 ^ (32 - unat b))"
proof -
  let ?n = "32 - unat b"
  have "a AND imask b = push_bit ?n (drop_bit ?n a)"
  proof (cases "b = 0")
    case True
    then show ?thesis by (simp add: imask_def)
  next
    case False
    have ones: "(0xffffffff :: u32) = - 1" by simp
    have "imask b = push_bit ?n (- 1)"
      using False assms unfolding imask_def ones by (simp add: unat_32_minus)
    then show ?thesis by (intro bit_word_eqI) (auto simp: bit_simps)
  qed
  moreover have "unat (push_bit ?n (drop_bit ?n a)) = 2 ^ ?n * (unat a div 2 ^ ?n)"
  proof -
    have "2 ^ ?n * (unat a div 2 ^ ?n) \<le> unat a" by simp
    also have "\<dots> < 2 ^ 32" using unat_less_2p [of a] by simp
    finally have "take_bit 32 (2 ^ ?n * (unat a div 2 ^ ?n)) = 2 ^ ?n * (unat a div 2 ^ ?n)"
      by (simp add: take_bit_nat_eq_self)
    moreover have "unat (push_bit ?n (drop_bit ?n a)) = take_bit 32 (push_bit ?n (drop_bit ?n (unat a)))"
      by (simp add: unsigned_push_bit_eq unat_drop_bit_eq)
    moreover have "push_bit ?n (drop_bit ?n (unat a)) = 2 ^ ?n * (unat a div 2 ^ ?n)"
      by (simp add: push_bit_eq_mult drop_bit_eq_div mult.commute)
    ultimately show ?thesis by simp
  qed
  ultimately show ?thesis by simp
qed

lemma imask_eq_iff:
  "b \<le> 32 \<Longrightarrow> a AND imask b = c AND imask b \<longleftrightarrow>
     unat a div 2 ^ (32 - unat b) = unat c div 2 ^ (32 - unat b)"
  by (simp add: imask_and word_unat_eq_iff)

lemma imask_self_iff:
  "b \<le> 32 \<Longrightarrow> a AND imask b = a \<longleftrightarrow> 2 ^ (32 - unat b) dvd unat a"
  by (simp add: imask_and word_unat_eq_iff dvd_eq_mod_eq_0)
     (metis mod_mult_self1_is_0 mult_div_mod_eq add.right_neutral)

subsection \<open>The two search loops\<close>

lemma max_diff_from_bounds:
  "bits \<le> 32 \<Longrightarrow> bits \<le> max_diff_from a b bits \<and> max_diff_from a b bits \<le> 32"
proof (induction a b bits rule: max_diff_from.induct)
  case (1 a b bits)
  show ?case
  proof (cases "bits < 32 \<and> a AND imask bits = b AND imask bits")
    case True
    then have u: "unat (bits + 1) = unat bits + 1"
      by (auto simp: word_less_nat_alt unat_word_ariths)
    with True have "bits + 1 \<le> 32" "bits \<le> bits + 1"
      by (auto simp: word_less_nat_alt word_le_nat_alt)
    with "1.IH" True have "bits + 1 \<le> max_diff_from a b (bits + 1) \<and> max_diff_from a b (bits + 1) \<le> 32"
      by simp
    with True \<open>bits \<le> bits + 1\<close> show ?thesis
      by (simp add: max_diff_from.simps [of a b bits]) (blast intro: order_trans)
  next
    case False
    with "1.prems" show ?thesis by (auto simp: max_diff_from.simps [of a b bits])
  qed
qed

text \<open>The result of the loop is the first prefix length at which the two addresses differ.\<close>

lemma max_diff_from_spec:
  assumes "bits \<le> 32"
  shows "(\<forall>j. unat bits \<le> j \<and> j < unat (max_diff_from a b bits) \<longrightarrow>
            unat a div 2 ^ (32 - j) = unat b div 2 ^ (32 - j)) \<and>
         (unat (max_diff_from a b bits) < 32 \<longrightarrow>
            unat a div 2 ^ (32 - unat (max_diff_from a b bits)) \<noteq>
            unat b div 2 ^ (32 - unat (max_diff_from a b bits)))"
  using assms
proof (induction a b bits rule: max_diff_from.induct)
  case (1 a b bits)
  consider (stop) "\<not> bits < 32" | (diff) "bits < 32" "a AND imask bits \<noteq> b AND imask bits"
    | (next_) "bits < 32" "a AND imask bits = b AND imask bits" by blast
  then show ?case
  proof cases
    case stop
    then have "max_diff_from a b bits = 32" by (simp add: max_diff_from.simps [of a b bits])
    moreover have "32 \<le> unat bits" using stop by (simp add: word_less_nat_alt)
    ultimately show ?thesis by simp
  next
    case diff
    then show ?thesis
      by (simp add: max_diff_from.simps [of a b bits] imask_eq_iff less_imp_le)
  next
    case next_
    then have u: "unat (bits + 1) = unat bits + 1"
      by (auto simp: word_less_nat_alt unat_word_ariths)
    with next_ have "bits + 1 \<le> 32"
      by (auto simp: word_less_nat_alt word_le_nat_alt)
    note IH = "1.IH" [OF next_(1) _ this]
    have eq: "unat a div 2 ^ (32 - unat bits) = unat b div 2 ^ (32 - unat bits)"
      using next_ by (simp add: imask_eq_iff less_imp_le)
    show ?thesis using IH next_ eq u
      by (auto simp: max_diff_from.simps [of a b bits]) (metis le_neq_implies_less Suc_leI)+
  qed
qed

lemma max_diff_bounds: "1 \<le> unat (max_diff a b)" "unat (max_diff a b) \<le> 32"
proof -
  have "max_diff_from a (b + 1) 0 = max_diff_from a (b + 1) 1"
    by (simp add: max_diff_from.simps [of a "b + 1" 0] imask_def)
  then show "1 \<le> unat (max_diff a b)" "unat (max_diff a b) \<le> 32"
    using max_diff_from_bounds [of 1 a "b + 1"]
    by (simp_all add: max_diff_def word_le_nat_alt)
qed

lemma max_diff_eq:
  "j < unat (max_diff a b) \<Longrightarrow> unat a div 2 ^ (32 - j) = unat (b + 1) div 2 ^ (32 - j)"
  using max_diff_from_spec [of 0 a "b + 1"] by (simp add: max_diff_def)

lemma max_diff_neq:
  "unat (max_diff a b) < 32 \<Longrightarrow>
     unat a div 2 ^ (32 - unat (max_diff a b)) \<noteq> unat (b + 1) div 2 ^ (32 - unat (max_diff a b))"
  using max_diff_from_spec [of 0 a "b + 1"] by (simp add: max_diff_def)

lemma max_block_spec:
  assumes "bits \<le> 32" and "2 ^ (32 - unat bits) dvd unat addr"
  shows "max_block addr bits \<le> bits \<and> 2 ^ (32 - unat (max_block addr bits)) dvd unat addr \<and>
         (max_block addr bits \<noteq> 0 \<longrightarrow> \<not> 2 ^ (33 - unat (max_block addr bits)) dvd unat addr)"
  using assms
proof (induction addr bits rule: max_block.induct)
  case (1 addr bits)
  show ?case
  proof (cases "bits = 0")
    case True
    then have "max_block addr bits = bits" using max_block.simps [of addr bits] by simp
    with True "1.prems" show ?thesis by simp
  next
    case False
    then have u: "unat (bits - 1) = unat bits - 1" "unat bits \<noteq> 0"
      by (simp_all add: unat_minus_one unat_eq_0)
    with "1.prems" have le: "bits - 1 \<le> 32" "bits - 1 \<le> bits"
      by (simp_all add: word_le_nat_alt)
    have e: "32 - (unat bits - 1) = 33 - unat bits" using u "1.prems" by simp
    show ?thesis
    proof (cases "addr AND imask (bits - 1) = addr")
      case True
      with le u have "2 ^ (32 - unat (bits - 1)) dvd unat addr" by (simp add: imask_self_iff)
      with "1.IH" False True le show ?thesis
        by (simp add: max_block.simps [of addr bits] word_gt_0) (meson order_trans)
    next
      case neq: False
      with le u e have "\<not> 2 ^ (33 - unat bits) dvd unat addr" by (simp add: imask_self_iff)
      with neq False "1.prems" show ?thesis
        by (simp add: max_block.simps [of addr bits] word_gt_0)
    qed
  qed
qed

subsection \<open>One round of the decomposition\<close>

text \<open>
  The block chosen at \<open>start\<close> is aligned and ends at \<open>end\<close> at the latest. It is the largest
  such block, except for the whole address space, where \<open>end + 1\<close> wraps to 0.
\<close>

lemma block_bits_max: "unat (block_bits s e) = max (unat (max_block s 32)) (unat (max_diff s e))"
  by (auto simp: block_bits_def Let_def word_less_nat_alt)

lemma max_block_32:
  "unat (max_block s 32) \<le> 32" "2 ^ (32 - unat (max_block s 32)) dvd unat s"
  "max_block s 32 \<noteq> 0 \<Longrightarrow> \<not> 2 ^ (33 - unat (max_block s 32)) dvd unat s"
  using max_block_spec [of 32 s] by (simp_all add: word_le_nat_alt)

lemma block_bits_range: "1 \<le> unat (block_bits s e)" "unat (block_bits s e) \<le> 32"
  using max_diff_bounds [of s e] max_block_32 [of s] by (simp_all add: block_bits_max)

lemma block_aligned: "2 ^ (32 - unat (block_bits s e)) dvd unat s"
proof -
  have "(2::nat) ^ (32 - unat (block_bits s e)) dvd 2 ^ (32 - unat (max_block s 32))"
    by (rule le_imp_power_dvd) (simp add: block_bits_max)
  then show ?thesis using max_block_32(2) dvd_trans by blast
qed

lemma aligned_next:
  fixes A B s :: nat
  assumes "s dvd A" "s dvd B" "A < B"
  shows "A + s \<le> B"
proof -
  obtain k l where "A = s * k" "B = s * l" using assms(1,2) by (auto elim!: dvdE)
  with assms(3) have "k < l" by simp
  then have "s * (k + 1) \<le> s * l" by (intro mult_le_mono) auto
  with \<open>A = s * k\<close> \<open>B = s * l\<close> show ?thesis by simp
qed

lemma block_fits:
  assumes "s \<le> e"
  shows "unat s + 2 ^ (32 - unat (block_bits s e)) \<le> unat e + 1"
proof (cases "e = -1")
  case True
  have e: "unat e + 1 = 2 ^ 32" using True by (simp add: unsigned_minus_1_eq_mask mask_eq_exp_minus_1)
  moreover have "(2::nat) ^ (32 - unat (block_bits s e)) dvd 2 ^ 32"
    by (rule le_imp_power_dvd) simp
  moreover have "unat s < 2 ^ 32" using unat_less_2p [of s] by simp
  ultimately show ?thesis using aligned_next [OF block_aligned] by metis
next
  case False
  then have e1: "unat (e + 1) = unat e + 1" by (metis add.commute add_eq_0_iff2 unatSuc Suc_eq_plus1)
  let ?d = "unat (max_diff s e)" and ?S = "2 ^ (32 - unat (block_bits s e)) :: nat"
  have lt: "unat s < unat e + 1" using assms by (simp add: word_le_nat_alt)
  show ?thesis
  proof (cases "?d < 32")
    case True
    let ?D = "2 ^ (32 - ?d) :: nat"
    have "unat s div ?D \<noteq> (unat e + 1) div ?D" using max_diff_neq [OF True] e1 by simp
    moreover have "unat s div ?D \<le> (unat e + 1) div ?D" using lt by (intro div_le_mono) simp
    ultimately have "unat s div ?D + 1 \<le> (unat e + 1) div ?D" by simp
    then have up: "(unat s div ?D + 1) * ?D \<le> unat e + 1"
      by (meson div_times_less_eq_dividend mult_le_mono1 order_trans)
    have "?S dvd ?D" by (rule le_imp_power_dvd) (simp add: block_bits_max)
    then have "?S dvd (unat s div ?D + 1) * ?D" by simp
    moreover have "unat s < (unat s div ?D + 1) * ?D"
      using dividend_less_div_times [of ?D "unat s"] by (simp add: algebra_simps)
    ultimately have "unat s + ?S \<le> (unat s div ?D + 1) * ?D"
      using aligned_next [OF block_aligned] by blast
    with up show ?thesis by simp
  next
    case False
    then have "unat (block_bits s e) = 32"
      using max_diff_bounds(2) [of s e] max_block_32(1) [of s] by (simp add: block_bits_max)
    with lt show ?thesis by simp
  qed
qed

lemma block_largest:
  assumes "m \<le> 32" and al: "2 ^ (32 - m) dvd unat s" and fit: "unat s + 2 ^ (32 - m) \<le> unat e + 1"
    and not_all: "s \<noteq> 0 \<or> e \<noteq> -1"
  shows "unat (block_bits s e) \<le> m"
proof -
  have "unat (max_block s 32) \<le> m"
  proof (rule ccontr)
    assume c: "\<not> ?thesis"
    then have "max_block s 32 \<noteq> 0" by auto
    moreover have "(2::nat) ^ (33 - unat (max_block s 32)) dvd 2 ^ (32 - m)"
      using c max_block_32(1) [of s] by (intro le_imp_power_dvd) simp
    ultimately show False using max_block_32(3) [of s] al dvd_trans by blast
  qed
  moreover have "unat (max_diff s e) \<le> m"
  proof (rule ccontr)
    assume "\<not> ?thesis"
    then have eq: "unat s div 2 ^ (32 - m) = unat (e + 1) div 2 ^ (32 - m)"
      by (intro max_diff_eq) simp
    show False
    proof (cases "e = -1")
      case True
      with eq have "unat s div 2 ^ (32 - m) = 0" by simp
      with al have "unat s = 0" by (metis dvd_div_eq_0_iff)
      with True not_all show False by (simp add: unat_eq_0)
    next
      case False
      then have "unat (e + 1) = unat e + 1" by (metis add.commute add_eq_0_iff2 unatSuc Suc_eq_plus1)
      with eq fit have "(unat s + 2 ^ (32 - m)) div 2 ^ (32 - m) \<le> unat s div 2 ^ (32 - m)"
        by (metis div_le_mono)
      moreover have "(unat s + 2 ^ (32 - m)) div 2 ^ (32 - m) = unat s div 2 ^ (32 - m) + 1"
        by (rule div_add_self2) simp
      ultimately show False by simp
    qed
  qed
  ultimately show ?thesis by (simp add: block_bits_max)
qed

lemma block_step:
  fixes s e :: u32
  defines "st \<equiv> push_bit (unat (32 - block_bits s e)) (1 :: u32)"
  shows "unat st = 2 ^ (32 - unat (block_bits s e))"
    and "\<not> s + st < s \<Longrightarrow> unat (s + st) = unat s + 2 ^ (32 - unat (block_bits s e))"
    and "s + st < s \<Longrightarrow> unat s + 2 ^ (32 - unat (block_bits s e)) \<ge> 2 ^ 32"
proof -
  let ?n = "32 - unat (block_bits s e)"
  have n: "?n < 32" using block_bits_range(1) [of s e] by simp
  have "block_bits s e \<le> 32" using block_bits_range(2) [of s e] by (simp add: word_le_nat_alt)
  then have "st = 2 ^ ?n" by (simp add: st_def unat_32_minus push_bit_eq_mult)
  then show st: "unat st = 2 ^ ?n" using n by (simp add: unat_power_lower_u32)
  show "\<not> s + st < s \<Longrightarrow> unat (s + st) = unat s + 2 ^ ?n"
    using st by (metis no_olen_add_nat not_less unat_plus_simple unat_less_2p)
  show "s + st < s \<Longrightarrow> unat s + 2 ^ ?n \<ge> 2 ^ 32"
    using st no_olen_add_nat [of s st] by (auto simp: not_le)
qed

function range_blocks :: "u32 \<Rightarrow> u32 \<Rightarrow> cidr list" where
  "range_blocks start end =
     (if end \<ge> start then
        (let maxsize = block_bits start end;
             step = push_bit (unat (32 - maxsize)) 1
         in \<lparr>c_addr = start, c_bits = maxsize\<rparr> #
              (if start + step < start then [] else range_blocks (start + step) end))
      else [])"
  by pat_completeness auto
termination
proof (relation "measure (\<lambda>(s, e). unat e + 1 - unat s)", goal_cases)
  case (2 s e m st)
  then have "unat (s + st) = unat s + 2 ^ (32 - unat (block_bits s e))"
    using block_step(2) [of s e] by simp
  moreover have "unat s \<le> unat e" using 2(1) by (simp add: word_le_nat_alt)
  moreover have "(0::nat) < 2 ^ (32 - unat (block_bits s e))" by simp
  ultimately show ?case unfolding in_measure prod.case by linarith
qed simp

declare range_blocks.simps [simp del]

definition range_to_cidrs :: "u32 \<Rightarrow> u32 \<Rightarrow> string list" where
  "range_to_cidrs start end = map cidr_string (range_blocks start end)"

lemma range_blocks_unfold:
  assumes "s \<le> e"
  obtains (last) "range_blocks s e = [\<lparr>c_addr = s, c_bits = block_bits s e\<rparr>]"
      "unat s + 2 ^ (32 - unat (block_bits s e)) = unat e + 1"
    | (more) s' where
      "range_blocks s e = \<lparr>c_addr = s, c_bits = block_bits s e\<rparr> # range_blocks s' e"
      "unat s' = unat s + 2 ^ (32 - unat (block_bits s e))" "s' \<le> e"
      "unat e + 1 - unat s' < unat e + 1 - unat s"
proof -
  let ?st = "push_bit (unat (32 - block_bits s e)) (1 :: u32)"
  let ?S = "2 ^ (32 - unat (block_bits s e)) :: nat"
  let ?c = "\<lparr>c_addr = s, c_bits = block_bits s e\<rparr>"
  have fit: "unat s + ?S \<le> unat e + 1" by (rule block_fits [OF assms])
  have le: "unat s \<le> unat e" using assms by (simp add: word_le_nat_alt)
  have eq: "range_blocks s e = ?c # (if s + ?st < s then [] else range_blocks (s + ?st) e)"
    using assms by (simp add: range_blocks.simps [of s e] Let_def)
  have e32: "unat e < 2 ^ 32" using unat_less_2p [of e] by simp
  consider (wrap) "s + ?st < s" | (over) "\<not> s + ?st < s" "\<not> s + ?st \<le> e"
    | (go) "\<not> s + ?st < s" "s + ?st \<le> e" by blast
  then show thesis
  proof cases
    case wrap
    with block_step(3) [OF this] fit e32 have "unat s + ?S = unat e + 1" by linarith
    with wrap eq show thesis by (intro last) simp_all
  next
    case over
    then have "unat (s + ?st) = unat s + ?S" by (intro block_step(2))
    with over(2) fit have "unat s + ?S = unat e + 1" by (simp add: word_le_nat_alt)
    moreover have "range_blocks (s + ?st) e = []" using over by (simp add: range_blocks.simps)
    ultimately show thesis using eq over by (intro last) simp_all
  next
    case go
    then have u: "unat (s + ?st) = unat s + ?S" by (intro block_step(2))
    moreover have "(0::nat) < ?S" by simp
    then have "unat e + 1 - unat (s + ?st) < unat e + 1 - unat s" unfolding u using le by linarith
    ultimately show thesis using eq go by (intro more [of "s + ?st"]) simp_all
  qed
qed

lemma range_blocks_empty: "e < s \<Longrightarrow> range_blocks s e = []"
  by (simp add: range_blocks.simps [of s e])

subsection \<open>Correctness of the decomposition\<close>

lemma cidr_set_block:
  "cidr_set \<lparr>c_addr = s, c_bits = block_bits s e\<rparr> =
     {x. unat s \<le> unat x \<and> unat x < unat s + 2 ^ (32 - unat (block_bits s e))}"
  by (simp add: cidr_set_def cidr_size_def)

lemma range_blocks_induct [consumes 1, case_names last more]:
  assumes "s \<le> e"
    and last: "\<And>s. s \<le> e \<Longrightarrow> range_blocks s e = [\<lparr>c_addr = s, c_bits = block_bits s e\<rparr>] \<Longrightarrow>
      unat s + 2 ^ (32 - unat (block_bits s e)) = unat e + 1 \<Longrightarrow> P s"
    and more: "\<And>s s'. s \<le> e \<Longrightarrow> range_blocks s e = \<lparr>c_addr = s, c_bits = block_bits s e\<rparr> # range_blocks s' e \<Longrightarrow>
      unat s' = unat s + 2 ^ (32 - unat (block_bits s e)) \<Longrightarrow> s' \<le> e \<Longrightarrow> P s' \<Longrightarrow> P s"
  shows "P s"
  using assms(1)
proof (induction "unat e + 1 - unat s" arbitrary: s rule: less_induct)
  case less
  from less.prems show ?case
  proof (cases rule: range_blocks_unfold)
    case last
    then show ?thesis using assms(2) less.prems by blast
  next
    case (more s')
    then have "P s'" using less.hyps by blast
    with more show ?thesis using assms(3) less.prems by blast
  qed
qed

lemma range_blocks_cover:
  "s \<le> e \<Longrightarrow> (\<Union>c \<in> set (range_blocks s e). cidr_set c) = {s..e}"
proof (induction s rule: range_blocks_induct)
  case (last s)
  then show ?case by (auto simp: cidr_set_block word_le_nat_alt)
next
  case (more s s')
  have "{s..e} = cidr_set \<lparr>c_addr = s, c_bits = block_bits s e\<rparr> \<union> {s'..e}"
    using more(1,3,4) by (auto simp: cidr_set_block word_le_nat_alt)
  with more show ?case by simp
qed

lemma range_blocks_wf: "c \<in> set (range_blocks s e) \<Longrightarrow> cidr_wf c \<and> 1 \<le> unat (c_bits c)"
proof (cases "s \<le> e")
  case True
  then show "c \<in> set (range_blocks s e) \<Longrightarrow> ?thesis"
    by (induction s rule: range_blocks_induct)
       (auto simp: cidr_wf_def cidr_size_def block_bits_range [simplified] block_aligned)
qed (simp add: range_blocks_empty)

lemma range_blocks_disjoint:
  "s \<le> e \<Longrightarrow> sorted_wrt (\<lambda>c d. \<forall>x \<in> cidr_set c. \<forall>y \<in> cidr_set d. x < y) (range_blocks s e)"
proof (induction s rule: range_blocks_induct)
  case (last s)
  then show ?case by simp
next
  case (more s s')
  have "x < y" if x: "x \<in> cidr_set \<lparr>c_addr = s, c_bits = block_bits s e\<rparr>"
    and d: "d \<in> set (range_blocks s' e)" and y: "y \<in> cidr_set d" for x y d
  proof -
    have "y \<in> {s'..e}" using range_blocks_cover [OF more(4)] d y by blast
    with x more(3) show ?thesis by (simp add: cidr_set_block word_le_nat_alt word_less_nat_alt)
  qed
  with more show ?case by simp
qed

subsection \<open>Minimality of the decomposition\<close>

lemma aligned_nested:
  fixes A B C S x :: nat
  assumes "S dvd B" "C dvd A" "C dvd S" "B \<le> x" "x < B + S" "A \<le> x" "x < A + C"
  shows "B \<le> A \<and> A + C \<le> B + S"
proof
  have CB: "C dvd B" using assms(1,3) dvd_trans by blast
  have "B + C \<le> A + C" using aligned_next [OF CB, of "A + C"] assms(2,4,7) by simp
  then show "B \<le> A" by simp
  show "A + C \<le> B + S" using aligned_next [OF assms(2), of "B + S"] CB assms(3,5,6) by simp
qed

lemma cidr_size_dvd: "cidr_size c dvd cidr_size d \<or> cidr_size d dvd cidr_size c"
  unfolding cidr_size_def by (metis le_imp_power_dvd linear)

lemma cidr_end: "cidr_wf c \<Longrightarrow> unat (c_addr c) + cidr_size c \<le> 2 ^ 32"
proof (rule aligned_next)
  assume "cidr_wf c"
  then show "cidr_size c dvd unat (c_addr c)" by (simp add: cidr_wf_def)
  show "cidr_size c dvd 2 ^ 32" unfolding cidr_size_def by (rule le_imp_power_dvd) simp
  show "unat (c_addr c) < 2 ^ 32" using unat_less_2p [of "c_addr c"] by simp
qed

lemma cidr_set_within:
  assumes "cidr_wf c" "cidr_set c \<subseteq> {s..e}"
  shows "unat s \<le> unat (c_addr c)" "unat (c_addr c) + cidr_size c \<le> unat e + 1"
proof -
  let ?a = "unat (c_addr c)"
  have pos: "0 < cidr_size c" by (simp add: cidr_size_def)
  have "c_addr c \<in> cidr_set c" by (simp add: cidr_set_def cidr_size_def)
  with assms(2) show "unat s \<le> ?a" by (auto simp: word_le_nat_alt)
  let ?z = "of_nat (?a + cidr_size c - 1) :: u32"
  have "?a + cidr_size c - 1 < 2 ^ 32" using cidr_end [OF assms(1)] pos by linarith
  then have z: "unat ?z = ?a + cidr_size c - 1" by (simp add: unat_of_nat)
  then have "?z \<in> cidr_set c" unfolding cidr_set_def using pos by simp
  with assms(2) have "?z \<le> e" by auto
  with z pos show "?a + cidr_size c \<le> unat e + 1" unfolding word_le_nat_alt by linarith
qed

text \<open>
  A network of any other decomposition that meets the block chosen at \<open>s\<close> lies inside it.
\<close>

lemma block_absorbs:
  fixes s e :: u32
  defines "G \<equiv> \<lparr>c_addr = s, c_bits = block_bits s e\<rparr>"
  assumes c: "cidr_wf c" "cidr_set c \<subseteq> {s..e}" and meet: "cidr_set c \<inter> cidr_set G \<noteq> {}"
    and not_all: "s \<noteq> 0 \<or> e \<noteq> -1"
  shows "cidr_set c \<subseteq> cidr_set G"
proof -
  have G: "cidr_size G dvd unat s" by (simp add: G_def cidr_size_def block_aligned)
  have cs: "cidr_size c dvd unat (c_addr c)" using c(1) by (simp add: cidr_wf_def)
  from meet obtain x :: u32 where x: "unat (c_addr c) \<le> unat x" "unat x < unat (c_addr c) + cidr_size c"
      "unat s \<le> unat x" "unat x < unat s + cidr_size G"
    by (auto simp: cidr_set_def G_def)
  have "cidr_size c dvd cidr_size G"
  proof (rule ccontr)
    assume nd: "\<not> ?thesis"
    then have d: "cidr_size G dvd cidr_size c" using cidr_size_dvd by blast
    then have "unat (c_addr c) \<le> unat s \<and> unat s + cidr_size G \<le> unat (c_addr c) + cidr_size c"
      by (rule aligned_nested [OF cs G]) (use x in auto)
    with cidr_set_within(1) [OF c] have a: "unat (c_addr c) = unat s" by simp
    have "unat (block_bits s e) \<le> unat (c_bits c)"
    proof (rule block_largest)
      show "unat (c_bits c) \<le> 32" using c(1) by (simp add: cidr_wf_def)
      show "2 ^ (32 - unat (c_bits c)) dvd unat s" using cs a by (simp add: cidr_size_def)
      show "unat s + 2 ^ (32 - unat (c_bits c)) \<le> unat e + 1"
        using cidr_set_within(2) [OF c] a by (simp add: cidr_size_def)
    qed (rule not_all)
    then have "cidr_size c dvd cidr_size G"
      unfolding cidr_size_def G_def by (simp add: le_imp_power_dvd)
    with nd show False by simp
  qed
  then have "unat s \<le> unat (c_addr c) \<and> unat (c_addr c) + cidr_size c \<le> unat s + cidr_size G"
    by (rule aligned_nested [OF G cs]) (use x in auto)
  then show ?thesis by (auto simp: cidr_set_def G_def)
qed

lemma length_filter_drop1: "x \<in> set xs \<Longrightarrow> \<not> P x \<Longrightarrow> length (filter P xs) + 1 \<le> length xs"
  by (induction xs) (auto simp: Suc_leI le_imp_less_Suc)

lemma range_blocks_minimal:
  assumes "s \<le> e" "s \<noteq> 0 \<or> e \<noteq> -1"
    and "\<forall>c \<in> set cs. cidr_wf c" "(\<Union>c \<in> set cs. cidr_set c) = {s..e}"
  shows "length (range_blocks s e) \<le> length cs"
  using assms
proof (induction s arbitrary: cs rule: range_blocks_induct)
  case (last s)
  then have "cs \<noteq> []" by auto
  with last(2) show ?case by (cases cs) auto
next
  case (more s s')
  let ?G = "\<lparr>c_addr = s, c_bits = block_bits s e\<rparr>"
  let ?cs = "filter (\<lambda>c. cidr_set c \<inter> cidr_set ?G = {}) cs"
  have split: "{s..e} = cidr_set ?G \<union> {s'..e}" "cidr_set ?G \<inter> {s'..e} = {}"
    using more(1,3,4) by (auto simp: cidr_set_block word_le_nat_alt)
  have absorb: "cidr_set c \<subseteq> cidr_set ?G" if "c \<in> set cs" "cidr_set c \<inter> cidr_set ?G \<noteq> {}" for c
    using that more.prems by (intro block_absorbs) auto
  have "(\<Union>c \<in> set ?cs. cidr_set c) = {s'..e}"
  proof (intro equalityI subsetI)
    fix x assume "x \<in> (\<Union>c \<in> set ?cs. cidr_set c)"
    then obtain c where c: "c \<in> set cs" "x \<in> cidr_set c" "cidr_set c \<inter> cidr_set ?G = {}" by auto
    then have "x \<in> {s..e}" using more.prems(3) by blast
    with c split(1) show "x \<in> {s'..e}" by blast
  next
    fix x assume x: "x \<in> {s'..e}"
    then have "x \<in> {s..e}" using split(1) by blast
    then obtain c where c: "c \<in> set cs" "x \<in> cidr_set c" using more.prems(3) by blast
    with x split(2) absorb [OF c(1)] have "cidr_set c \<inter> cidr_set ?G = {}" by blast
    with c show "x \<in> (\<Union>c \<in> set ?cs. cidr_set c)" by auto
  qed
  moreover have "s' \<noteq> 0" using more(3) by (auto simp: unat_eq_zero)
  ultimately have "length (range_blocks s' e) \<le> length ?cs"
    using more.IH [of ?cs] more.prems(2) by auto
  moreover have "length ?cs + 1 \<le> length cs"
  proof -
    have "s \<in> cidr_set ?G" by (simp add: cidr_set_block)
    moreover have "s \<in> {s..e}" using more(1) by simp
    then obtain c where "c \<in> set cs" "s \<in> cidr_set c" using more.prems(3) by blast
    ultimately show ?thesis by (intro length_filter_drop1 [of c]) auto
  qed
  ultimately show ?case using more(2) by simp
qed

subsection \<open>The text form\<close>

lemma uint32_to_addr_eq [simp]: "uint32_to_addr a = Addr4 a"
  using u32_of_bytes [of a] by (simp add: uint32_to_addr_def addr_from4_def)

lemma addr_to_uint32_Addr4 [simp]: "addr_to_uint32 (Addr4 a) = a"
proof -
  have "get_u32 (put_u32 a @ []) = Some a" by (rule get_put_u32)
  then show ?thesis by (simp add: addr_to_uint32_def put_u32_def)
qed

lemma trim_left_ascii: "s \<noteq> [] \<Longrightarrow> \<not> ascii_space (hd s) \<Longrightarrow> byte_at (hd s) < 128 \<Longrightarrow> trim_left s = s"
  by (cases s) (simp_all add: trim_left.simps)

lemma trim_right_ascii: "s \<noteq> [] \<Longrightarrow> \<not> ascii_space (last s) \<Longrightarrow> byte_at (last s) < 128 \<Longrightarrow> trim_right s = s"
  by (subst trim_right.simps) (simp add: space_suffix_len_def)

lemma is_digit_ascii: "is_digit c \<Longrightarrow> \<not> ascii_space c \<and> byte_at c < 128"
  by (auto simp: is_digit_def ascii_space_def)

lemma last_index_append: "c \<notin> set t \<Longrightarrow> last_index (s @ c # t) c = Some (length s)"
proof -
  have *: "c \<notin> set t \<Longrightarrow> last_index t c = None" for t
    by (induction t) auto
  show "c \<notin> set t \<Longrightarrow> ?thesis" by (induction s) (auto simp: *)
qed

lemma network_text_trim:
  "trim_space (dotted_quad a @ CHR ''/'' # itoa k) = dotted_quad a @ CHR ''/'' # itoa k" (is "_ = ?t")
proof -
  have "hd ?t \<in> set (itoa (unat (drop_bit 24 a)))"
    by (simp add: dotted_quad_def)
  then have h: "is_digit (hd ?t)" by (rule itoa_set)
  have "last ?t \<in> set (itoa k)" by simp
  then have l: "is_digit (last ?t)" by (rule itoa_set)
  have "trim_left ?t = ?t" using is_digit_ascii [OF h] by (intro trim_left_ascii) auto
  moreover have "trim_right ?t = ?t" using is_digit_ascii [OF l] by (intro trim_right_ascii) auto
  ultimately show ?thesis by (simp only: trim_space_def)
qed

lemma parse_prefix_network:
  assumes "1 \<le> k" "k \<le> 32"
  shows "parse_prefix (dotted_quad a @ CHR ''/'' # itoa k) = Inr (masked (prefix_from (Addr4 a) (int k)))"
proof -
  have "CHR ''/'' \<notin> set (itoa k)" using itoa_set by fastforce
  then have "last_index (dotted_quad a @ CHR ''/'' # itoa k) (CHR ''/'') = Some (length (dotted_quad a))"
    by (rule last_index_append)
  moreover have "parse_int (itoa k) = Some (int k)"
  proof (rule parse_int_itoa)
    have "int k \<le> 32" using assms(2) by linarith
    also have "(32 :: int) < 2 ^ 63" by simp
    finally show "int k < 2 ^ 63" .
  qed
  ultimately show ?thesis
    using assms by (simp add: parse_prefix_def network_text_trim Let_def)
qed

lemma cidr_string_text:
  "cidr_string c = dotted_quad (c_addr c) @ CHR ''/'' # itoa (unat (c_bits c))"
  by (simp add: cidr_string_def)

lemma masked_contains:
  assumes "k \<le> 32"
  shows "prefix_contains (masked (prefix_from (Addr4 a) (int k))) (Addr4 x) \<longleftrightarrow>
           unat x div 2 ^ (32 - k) = unat a div 2 ^ (32 - k)"
proof -
  have "drop_bit (32 - k) (x XOR (a AND high_mask k)) = drop_bit (32 - k) x XOR drop_bit (32 - k) a"
    using assms by (intro bit_word_eqI) (auto simp: bit_simps high_mask_def dest: bit_imp_le_length)
  then have "drop_bit (32 - k) (x XOR (a AND high_mask k)) = 0 \<longleftrightarrow> drop_bit (32 - k) x = drop_bit (32 - k) a"
    by (simp only: word_xor_eq_0)
  also have "\<dots> \<longleftrightarrow> unat (drop_bit (32 - k) x) = unat (drop_bit (32 - k) a)"
    by (simp only: word_unat_eq_iff)
  also have "\<dots> \<longleftrightarrow> unat x div 2 ^ (32 - k) = unat a div 2 ^ (32 - k)"
    unfolding unat_drop_bit_eq by (simp only: drop_bit_eq_div)
  finally show ?thesis
    using assms by (simp add: prefix_contains_def masked_def prefix_from_def prefix_valid_def)
qed

lemma aligned_div_iff:
  fixes A X S :: nat
  assumes "S dvd A" "0 < S"
  shows "X div S = A div S \<longleftrightarrow> A \<le> X \<and> X < A + S"
proof -
  obtain q where A: "A = S * q" using assms(1) by (rule dvdE)
  have "X div S = q \<longleftrightarrow> q * S \<le> X \<and> X < Suc q * S"
    using assms(2) by (metis div_nat_eqI div_times_less_eq_dividend dividend_less_times_div mult.commute mult_Suc add.commute)
  with A assms(2) show ?thesis by (simp add: mult.commute add.commute)
qed

lemma cidr_prefix_contains:
  assumes "cidr_wf c"
  shows "prefix_contains (masked (prefix_from (Addr4 (c_addr c)) (int (unat (c_bits c))))) (Addr4 x)
           \<longleftrightarrow> x \<in> cidr_set c"
proof -
  have "(2::nat) ^ (32 - unat (c_bits c)) dvd unat (c_addr c)" "unat (c_bits c) \<le> 32"
    using assms by (simp_all add: cidr_wf_def cidr_size_def)
  then show ?thesis
    using aligned_div_iff [of "2 ^ (32 - unat (c_bits c))" "unat (c_addr c)" "unat x"]
      masked_contains [of "unat (c_bits c)" "c_addr c" x]
    by (simp only: cidr_set_def cidr_size_def mem_Collect_eq) simp
qed

text \<open>Read back as network text, the strings of \<open>RangeToCIDRs\<close> denote exactly the range.\<close>

lemma range_to_cidrs_parse:
  assumes "t \<in> set (range_to_cidrs s e)"
  obtains c where "c \<in> set (range_blocks s e)" "t = cidr_string c"
    "parse_prefix t = Inr (masked (prefix_from (Addr4 (c_addr c)) (int (unat (c_bits c)))))"
proof -
  from assms obtain c where c: "c \<in> set (range_blocks s e)" "t = cidr_string c"
    by (auto simp: range_to_cidrs_def)
  then have "1 \<le> unat (c_bits c)" "unat (c_bits c) \<le> 32"
    using range_blocks_wf [OF c(1)] by (simp_all add: cidr_wf_def)
  with c show thesis by (intro that) (auto simp: cidr_string_text parse_prefix_network)
qed

subsection \<open>Properties of the range decomposition\<close>

text \<open>
  C25: The networks of \<open>RangeToCIDRs\<close> partition the range: each has a prefix length between 1 and
  32 and is aligned to it, together they hold exactly the addresses from the first to the last,
  and each lies below the next one, so that no two overlap.
\<close>

theorem range_to_cidrs_partition:
  assumes "s \<le> e"
  shows "(\<Union>c \<in> set (range_blocks s e). cidr_set c) = {s..e} \<and>
     sorted_wrt (\<lambda>c d. \<forall>x \<in> cidr_set c. \<forall>y \<in> cidr_set d. x < y) (range_blocks s e) \<and>
     (\<forall>c \<in> set (range_blocks s e). cidr_wf c \<and> 1 \<le> unat (c_bits c)) \<and>
     range_to_cidrs s e = map cidr_string (range_blocks s e)"
  using range_blocks_cover [OF assms] range_blocks_disjoint [OF assms] range_blocks_wf
  by (auto simp: range_to_cidrs_def)

theorem range_to_cidrs_partition_witness:
  "(10 :: u32) \<le> 19 \<and> (\<Union>c \<in> set (range_blocks 10 19). cidr_set c) = {10..19} \<and>
   range_to_cidrs 10 19 = map cidr_string (range_blocks 10 19)"
  using range_to_cidrs_partition [of 10 19] by simp

text \<open>
  C26: The decomposition is minimal: no list of aligned networks that covers exactly the range is
  shorter than the one of \<open>RangeToCIDRs\<close>. The range of all addresses is excluded: the address
  after its last one wraps to 0, and the code emits 33 networks for it.
\<close>

theorem range_to_cidrs_minimal:
  assumes "s \<le> e" "s \<noteq> 0 \<or> e \<noteq> -1"
    and "\<forall>c \<in> set cs. cidr_wf c" "(\<Union>c \<in> set cs. cidr_set c) = {s..e}"
  shows "length (range_to_cidrs s e) \<le> length cs"
  using range_blocks_minimal [OF assms] by (simp add: range_to_cidrs_def)

theorem range_to_cidrs_minimal_witness:
  "length (range_to_cidrs 4 7) \<le> length [\<lparr>c_addr = 4, c_bits = 31\<rparr>, \<lparr>c_addr = 6, c_bits = 31\<rparr>]"
proof (rule range_to_cidrs_minimal)
  show "(\<Union>c \<in> set [\<lparr>c_addr = 4, c_bits = 31\<rparr>, \<lparr>c_addr = 6, c_bits = 31\<rparr>]. cidr_set c) = {4..7}"
    by (auto simp: cidr_set_def cidr_size_def word_le_nat_alt)
qed (simp_all add: cidr_wf_def cidr_size_def)

text \<open>
  Printing an aligned network and parsing the text gives the network back: the prefix read by
  \<open>ParsePrefix\<close> holds exactly the addresses of the network.
\<close>

theorem parse_prefix_cidr_string:
  assumes "cidr_wf c" "c_bits c \<noteq> 0"
  shows "\<exists>p. parse_prefix (cidr_string c) = Inr p \<and> p_bits p = int (unat (c_bits c)) \<and>
             (\<forall>x. prefix_contains p (Addr4 x) \<longleftrightarrow> x \<in> cidr_set c)"
proof -
  define k where "k = unat (c_bits c)"
  have k: "1 \<le> k" "k \<le> 32"
    using assms by (simp_all add: k_def cidr_wf_def Suc_le_eq unat_gt_0)
  have "parse_prefix (cidr_string c) = Inr (masked (prefix_from (Addr4 (c_addr c)) (int k)))"
    unfolding cidr_string_text k_def [symmetric] by (rule parse_prefix_network [OF k])
  moreover have "p_bits (masked (prefix_from (Addr4 (c_addr c)) (int k))) = int k"
    using k by (simp add: masked_def prefix_from_def)
  ultimately show ?thesis using cidr_prefix_contains [OF assms(1)] unfolding k_def by blast
qed

theorem parse_prefix_cidr_string_witness:
  "\<exists>p. parse_prefix (cidr_string \<lparr>c_addr = 0x0a000000, c_bits = 8\<rparr>) = Inr p \<and> p_bits p = 8 \<and>
       (\<forall>x. prefix_contains p (Addr4 x) \<longleftrightarrow> x \<in> cidr_set \<lparr>c_addr = 0x0a000000, c_bits = 8\<rparr>)"
  using parse_prefix_cidr_string [of "\<lparr>c_addr = 0x0a000000, c_bits = 8\<rparr>"]
  by (simp add: cidr_wf_def cidr_size_def)

end
