(* ===== verification/Core_Model.thy ===== *)
theory Core_Model
  imports Go_Netip IP_Ranges
begin

text \<open>
  The package \<open>internal/core\<close>: greylist tuples, database keys and entries, the normal form of
  mail addresses, and the port through which the engine reaches a database. A key type is an
  integer in the code, since keys are also decoded from bytes; it is kept as one here. Entry
  fields are 64-bit integers. The port is a record of the operations of a driver over a store
  state and a transaction state; \<open>View\<close> and \<open>Update\<close> are written once over it.
\<close>

subsection \<open>Tuples and addresses\<close>

definition max_mail :: nat where
  "max_mail = 1024"

record tuple =
  t_ip :: string
  t_helo :: string
  t_from :: string
  t_to :: string

abbreviation address_noise :: "char \<Rightarrow> bool" where
  "address_noise c \<equiv> c \<in> {CHR 0x5C, CHR 0x22, CHR ''<'', CHR ''>''}"

text \<open>The loop of \<open>NormalizeEmail\<close>; the number counts the bytes written so far.\<close>

fun normalize_loop :: "string \<Rightarrow> nat \<Rightarrow> string" where
  "normalize_loop [] n = []"
| "normalize_loop (c # cs) n =
     (if n < max_mail - 1 then
        (if address_noise c then normalize_loop cs n
         else lower_char c # normalize_loop cs (Suc n))
      else [])"

definition normalize_email :: "string \<Rightarrow> string" where
  "normalize_email addr = normalize_loop addr 0"

lemma normalize_loop_take:
  "normalize_loop s n = take (max_mail - 1 - n) (map lower_char (filter (\<lambda>c. \<not> address_noise c) s))"
proof (induction s n rule: normalize_loop.induct)
  case (2 c cs n)
  show ?case
  proof (cases "n < max_mail - 1")
    case True
    then have "max_mail - 1 - n = Suc (max_mail - 1 - Suc n)" by simp
    with 2 True show ?thesis by auto
  qed simp
qed simp

lemma noise_byte: "address_noise c \<longleftrightarrow> byte_at c \<in> {92, 34, 60, 62}"
proof -
  have "c = d \<longleftrightarrow> byte_at c = byte_at d" for d by simp
  from this [of "CHR 0x5C"] this [of "CHR 0x22"] this [of "CHR ''<''"] this [of "CHR ''>''"]
  show ?thesis by (simp del: of_char_eq_iff)
qed

lemma byte_lower:
  "byte_at (lower_char c) = (if 65 \<le> byte_at c \<and> byte_at c \<le> 90 then byte_at c + 32 else byte_at c)"
  by (simp add: lower_char_def take_bit_nat_eq_self)

lemma lower_noise: "address_noise (lower_char c) \<longleftrightarrow> address_noise c"
  unfolding noise_byte byte_lower by auto

lemma normalize_email_eq:
  "normalize_email s = take (max_mail - 1) (map lower_char (filter (\<lambda>c. \<not> address_noise c) s))"
  by (simp add: normalize_email_def normalize_loop_take)

subsection \<open>Keys and entries\<close>

abbreviation (input) KeyIP :: int where "KeyIP \<equiv> 1"
abbreviation (input) KeyMail :: int where "KeyMail \<equiv> 2"
abbreviation (input) KeyTuple :: int where "KeyTuple \<equiv> 3"
abbreviation (input) KeyDomain :: int where "KeyDomain \<equiv> 4"
abbreviation (input) KeyDomainPart :: int where "KeyDomainPart \<equiv> 5"

record key =
  k_type :: int
  k_str :: string
  k_tuple :: tuple

abbreviation no_tuple :: tuple where
  "no_tuple \<equiv> \<lparr>t_ip = [], t_helo = [], t_from = [], t_to = []\<rparr>"

definition ip_key :: "string \<Rightarrow> key" where
  "ip_key ip = \<lparr>k_type = KeyIP, k_str = ip, k_tuple = no_tuple\<rparr>"

definition mail_key :: "string \<Rightarrow> key" where
  "mail_key addr = \<lparr>k_type = KeyMail, k_str = addr, k_tuple = no_tuple\<rparr>"

definition domain_key :: "string \<Rightarrow> key" where
  "domain_key d = \<lparr>k_type = KeyDomain, k_str = d, k_tuple = no_tuple\<rparr>"

definition domain_part_key :: "string \<Rightarrow> key" where
  "domain_part_key addr = \<lparr>k_type = KeyDomainPart, k_str = addr, k_tuple = no_tuple\<rparr>"

definition tuple_key :: "tuple \<Rightarrow> key" where
  "tuple_key t = \<lparr>k_type = KeyTuple, k_str = [], k_tuple = t\<rparr>"

record data =
  d_first :: int
  d_pass :: int
  d_expire :: int
  d_bcount :: int
  d_pcount :: int

abbreviation zero_data :: data where
  "zero_data \<equiv> \<lparr>d_first = 0, d_pass = 0, d_expire = 0, d_bcount = 0, d_pcount = 0\<rparr>"

definition data_ok :: "data \<Rightarrow> bool" where
  "data_ok d \<longleftrightarrow> is_i64 (d_first d) \<and> is_i64 (d_pass d) \<and> is_i64 (d_expire d) \<and> is_i64 (d_bcount d) \<and> is_i64 (d_pcount d)"

abbreviation (input) PCountTrapped :: int where "PCountTrapped \<equiv> -1"
abbreviation (input) PCountSpamtrap :: int where "PCountSpamtrap \<equiv> -2"
abbreviation (input) PCountDomain :: int where "PCountDomain \<equiv> -3"

record scan_result =
  sr_whitelist :: "string list"
  sr_whitelist_v6 :: "string list"
  sr_traplist :: "string list"

subsection \<open>The database port\<close>

datatype db_error =
    ErrReadOnly | ErrNotOpen | ErrContext | ErrEmptyKey | ErrTupleKey | ErrData nat | ErrNoCurrent | ErrOther string

text \<open>A context is either live or carries the error of its cancellation.\<close>

type_synonym context_state = "db_error option"

record ('s, 't) store_ops =
  op_view :: "context_state \<Rightarrow> 's \<Rightarrow> db_error + 't"
  op_update :: "context_state \<Rightarrow> 's \<Rightarrow> db_error + 't"
  op_commit :: "'s \<Rightarrow> 't \<Rightarrow> 's"
  op_get :: "'t \<Rightarrow> key \<Rightarrow> db_error + data \<times> bool"
  op_put :: "'t \<Rightarrow> key \<Rightarrow> data \<Rightarrow> db_error + 't"
  op_del :: "'t \<Rightarrow> key \<Rightarrow> db_error + bool \<times> 't"
  op_scan :: "'t \<Rightarrow> int \<Rightarrow> int \<Rightarrow> db_error + scan_result \<times> 't"
  op_entries :: "'t \<Rightarrow> int \<Rightarrow> db_error + (key \<times> data) list"

text \<open>
  The last operation is what the iterator over the given kinds of entries returns, from its first
  call to its end, when the transaction is not changed meanwhile. Kinds are bits: 1 for address
  and tuple entries, 2 for spamtraps and 4 for domains.

  A read-only transaction passes a transaction to the body and keeps nothing of it; an update
  commits the transaction of a body that succeeds and drops that of one that fails.
\<close>

definition view :: "('s, 't) store_ops \<Rightarrow> context_state \<Rightarrow> 's \<Rightarrow> ('t \<Rightarrow> db_error + 'a) \<Rightarrow> db_error + 'a" where
  "view ops ctx s f = (case op_view ops ctx s of Inl e \<Rightarrow> Inl e | Inr t \<Rightarrow> f t)"

definition update ::
  "('s, 't) store_ops \<Rightarrow> context_state \<Rightarrow> 's \<Rightarrow> ('t \<Rightarrow> db_error + 'a \<times> 't) \<Rightarrow> (db_error + 'a) \<times> 's" where
  "update ops ctx s f =
     (case op_update ops ctx s of
        Inl e \<Rightarrow> (Inl e, s)
      | Inr t \<Rightarrow> (case f t of Inl e \<Rightarrow> (Inl e, s) | Inr (x, t') \<Rightarrow> (Inr x, op_commit ops s t')))"

definition addr_state :: "(key \<Rightarrow> db_error + data \<times> bool) \<Rightarrow> string \<Rightarrow> db_error + int" where
  "addr_state get ip =
     (case get (ip_key ip) of
        Inl e \<Rightarrow> Inl e
      | Inr (d, found) \<Rightarrow>
          if \<not> found then Inr 0 else if d_pcount d = PCountTrapped then Inr 1 else Inr 2)"

definition core_get :: "('s, 't) store_ops \<Rightarrow> context_state \<Rightarrow> 's \<Rightarrow> key \<Rightarrow> db_error + data \<times> bool" where
  "core_get ops ctx s k = view ops ctx s (\<lambda>t. op_get ops t k)"

definition core_put :: "('s, 't) store_ops \<Rightarrow> context_state \<Rightarrow> 's \<Rightarrow> key \<Rightarrow> data \<Rightarrow> (db_error + unit) \<times> 's" where
  "core_put ops ctx s k d =
     update ops ctx s (\<lambda>t. case op_put ops t k d of Inl e \<Rightarrow> Inl e | Inr t' \<Rightarrow> Inr ((), t'))"

definition core_del :: "('s, 't) store_ops \<Rightarrow> context_state \<Rightarrow> 's \<Rightarrow> key \<Rightarrow> (db_error + bool) \<times> 's" where
  "core_del ops ctx s k = update ops ctx s (\<lambda>t. op_del ops t k)"

subsection \<open>Properties of mail addresses\<close>

text \<open>
  \<open>NormalizeEmail\<close> is idempotent, and its result is shorter than the mail limit and free of
  brackets, quotes, backslashes and upper-case letters.
\<close>

theorem normalize_email_normal:
  "normalize_email (normalize_email s) = normalize_email s \<and> length (normalize_email s) < max_mail \<and>
   set (normalize_email s) \<inter> {CHR 0x5C, CHR 0x22, CHR ''<'', CHR ''>''} = {} \<and>
   to_lower (normalize_email s) = normalize_email s"
proof -
  let ?f = "map lower_char (filter (\<lambda>c. \<not> address_noise c) s)"
  have clean: "\<not> address_noise c" "lower_char c = c" if "c \<in> set (normalize_email s)" for c
  proof -
    from that obtain x where "c = lower_char x" "\<not> address_noise x"
      using in_set_takeD [of c "max_mail - 1" ?f] by (auto simp: normalize_email_eq)
    then show "\<not> address_noise c" "lower_char c = c" using lower_noise [of x] by simp_all
  qed
  then have id: "map lower_char (filter (\<lambda>c. \<not> address_noise c) (normalize_email s)) = normalize_email s"
    by (metis (no_types, lifting) filter_True map_idI)
  have len: "length (normalize_email s) < max_mail" by (simp add: normalize_email_eq max_mail_def)
  then have "normalize_email (normalize_email s) = normalize_email s"
    unfolding normalize_email_eq [of "normalize_email s"] id by simp
  moreover have "to_lower (normalize_email s) = normalize_email s"
    unfolding to_lower_def using clean(2) by (simp add: map_idI)
  ultimately show ?thesis using len clean(1) by blast
qed

end
