(* ===== verification/KV_Codec.thy ===== *)
theory KV_Codec
  imports Core_Model
begin

text \<open>
  The encodings of \<open>adapters/db/kv\<close>: a key is a type byte followed by fields separated by NUL,
  an entry is five big-endian 64-bit integers. Both are interpreted as encoder/decoder pairs.
\<close>

datatype bucket = BucketEntries | BucketSpamtraps | BucketDomains

definition bucket_for :: "int \<Rightarrow> bucket" where
  "bucket_for t =
     (if t = KeyMail then BucketSpamtraps
      else if t = KeyDomain \<or> t = KeyDomainPart then BucketDomains
      else BucketEntries)"

abbreviation nul :: char where
  "nul \<equiv> CHR 0x00"

text \<open>The conversion \<open>byte(k.Type)\<close> keeps the low eight bits.\<close>

definition encode_key :: "key \<Rightarrow> string" where
  "encode_key k =
     char_of (nat (k_type k mod 256)) #
     (if k_type k = KeyTuple
      then t_ip (k_tuple k) @ nul # t_helo (k_tuple k) @ nul # t_from (k_tuple k) @ nul # t_to (k_tuple k)
      else k_str k)"

definition decode_key :: "string \<Rightarrow> db_error + key" where
  "decode_key b =
     (case b of
        [] \<Rightarrow> Inl ErrEmptyKey
      | c # rest \<Rightarrow>
          (let t = int (byte_at c)
           in if t = KeyTuple then
                (case split_n 4 nul rest of
                   [ip, helo, from, to] \<Rightarrow>
                     Inr \<lparr>k_type = t, k_str = [],
                          k_tuple = \<lparr>t_ip = ip, t_helo = helo, t_from = from, t_to = to\<rparr>\<rparr>
                 | _ \<Rightarrow> Inl ErrTupleKey)
              else Inr \<lparr>k_type = t, k_str = rest, k_tuple = no_tuple\<rparr>))"

definition put_i64 :: "int \<Rightarrow> bytes" where
  "put_i64 x = put_u64 (word_of_int x)"

definition get_i64 :: "bytes \<Rightarrow> int" where
  "get_i64 b = (case get_u64 b of None \<Rightarrow> 0 | Some w \<Rightarrow> sint w)"

definition encode_data :: "data \<Rightarrow> bytes" where
  "encode_data d =
     put_i64 (d_first d) @ put_i64 (d_pass d) @ put_i64 (d_expire d) @ put_i64 (d_bcount d) @ put_i64 (d_pcount d)"

definition decode_data :: "bytes \<Rightarrow> db_error + data" where
  "decode_data b =
     (if length b \<noteq> 40 then Inl (ErrData (length b))
      else Inr \<lparr>d_first = get_i64 b, d_pass = get_i64 (drop 8 b), d_expire = get_i64 (drop 16 b),
                d_bcount = get_i64 (drop 24 b), d_pcount = get_i64 (drop 32 b)\<rparr>)"

definition domain_matches :: "string \<Rightarrow> string \<Rightarrow> bool" where
  "domain_matches domain addr = has_suffix (to_lower addr) (to_lower domain)"

subsection \<open>Round trips\<close>

definition tuple_ok :: "tuple \<Rightarrow> bool" where
  "tuple_ok t \<longleftrightarrow> nul \<notin> set (t_ip t) \<and> nul \<notin> set (t_helo t) \<and> nul \<notin> set (t_from t)"

text \<open>
  The keys the constructors of the package build: a type of one byte, and either the string or
  the tuple unused. The fields before the last one must be free of the separator.
\<close>

definition key_ok :: "key \<Rightarrow> bool" where
  "key_ok k \<longleftrightarrow> 0 \<le> k_type k \<and> k_type k < 256 \<and>
     (if k_type k = KeyTuple then k_str k = [] \<and> tuple_ok (k_tuple k) else k_tuple k = no_tuple)"

lemma key_ok_simps [simp]:
  "key_ok (ip_key ip)" "key_ok (mail_key ip)" "key_ok (domain_key ip)"
  "key_ok (tuple_key t) \<longleftrightarrow> tuple_ok t"
  by (simp_all add: key_ok_def ip_key_def mail_key_def domain_key_def tuple_key_def)

lemma split_n_append: "c \<notin> set s \<Longrightarrow> split_n (Suc (Suc n)) c (s @ c # t) = s # split_n (Suc n) c t"
  by simp

lemma split_n_4:
  assumes "nul \<notin> set a" "nul \<notin> set b" "nul \<notin> set c"
  shows "split_n 4 nul (a @ nul # b @ nul # c @ nul # d) = [a, b, c, d]"
proof -
  have "(4 :: nat) = Suc (Suc (Suc (Suc 0)))" by simp
  then show ?thesis using assms by (simp only: split_n_append split_n.simps(2) simp_thms)
qed

lemma decode_encode_key: "key_ok k \<Longrightarrow> decode_key (encode_key k) = Inr k"
proof -
  assume k: "key_ok k"
  then have t: "int (byte_at (char_of (nat (k_type k mod 256)))) = k_type k"
    by (simp add: key_ok_def take_bit_nat_eq_self nat_less_iff)
  show ?thesis
  proof (cases "k_type k = KeyTuple")
    case True
    with k have "tuple_ok (k_tuple k)" "k_str k = []" by (simp_all add: key_ok_def)
    then show ?thesis
      by (simp add: decode_key_def encode_key_def True tuple_ok_def split_n_4 Let_def)
  next
    case False
    with k t show ?thesis by (simp add: decode_key_def encode_key_def key_ok_def Let_def)
  qed
qed

lemma put_i64_length [simp]: "length (put_i64 x) = 8"
  by (simp add: put_i64_def)

lemma get_put_i64 [simp]: "get_i64 (put_i64 x @ t) = i64 x"
  by (simp add: get_i64_def put_i64_def i64_def)

lemma get_put_i64_end [simp]: "get_i64 (put_i64 x) = i64 x"
  using get_put_i64 [of x "[]"] by simp

lemma decode_encode_data: "data_ok d \<Longrightarrow> decode_data (encode_data d) = Inr d"
  by (simp add: decode_data_def encode_data_def data_ok_def)

interpretation key_codec: codec encode_key decode_key key_ok
  by unfold_locales (rule decode_encode_key)

interpretation data_codec: codec encode_data decode_data data_ok
  by unfold_locales (rule decode_encode_data)

subsection \<open>Properties of the encodings\<close>

text \<open>
  C40: \<open>DecodeKey\<close> reverses \<open>EncodeKey\<close>, so distinct keys never share an encoding and never
  overwrite each other. The keys are those of the constructors, with the address, the HELO name
  and the sender of a tuple free of NUL bytes.
\<close>

theorem key_round_trip:
  assumes "key_ok k" "key_ok k'"
  shows "decode_key (encode_key k) = Inr k \<and> (encode_key k = encode_key k' \<longleftrightarrow> k = k')"
  using assms decode_encode_key key_codec.enc_injective by blast

theorem key_round_trip_witness:
  "decode_key (encode_key (tuple_key \<lparr>t_ip = ''1.2.3.4'', t_helo = ''h'', t_from = ''a@b'', t_to = ''c@d''\<rparr>)) =
     Inr (tuple_key \<lparr>t_ip = ''1.2.3.4'', t_helo = ''h'', t_from = ''a@b'', t_to = ''c@d''\<rparr>) \<and>
   encode_key (tuple_key \<lparr>t_ip = ''1.2.3.4'', t_helo = ''h'', t_from = ''a@b'', t_to = ''c@d''\<rparr>) \<noteq> encode_key (ip_key ''1.2.3.4'')"
  using key_round_trip [of "tuple_key \<lparr>t_ip = ''1.2.3.4'', t_helo = ''h'', t_from = ''a@b'', t_to = ''c@d''\<rparr>" "ip_key ''1.2.3.4''"]
  by (simp add: tuple_ok_def) (simp add: tuple_key_def ip_key_def)

text \<open>
  C39: An entry is encoded in 40 bytes and \<open>DecodeData\<close> gives back its five fields for all values
  of the 64-bit fields, the negative sentinels included; other lengths are rejected.
\<close>

theorem data_round_trip:
  "length (encode_data d) = 40 \<and>
   decode_data (encode_data d) =
     Inr \<lparr>d_first = i64 (d_first d), d_pass = i64 (d_pass d), d_expire = i64 (d_expire d),
          d_bcount = i64 (d_bcount d), d_pcount = i64 (d_pcount d)\<rparr> \<and>
   (\<forall>b. (\<exists>d'. decode_data b = Inr d') \<longleftrightarrow> length b = 40)"
  by (simp add: decode_data_def encode_data_def)

end
