(* ===== verification/Store_Contract.thy ===== *)
theory Store_Contract
  imports KV_Codec
begin

text \<open>
  The contract of a database driver, as the comments of the port in \<open>internal/core/store.go\<close> and
  of \<open>Scan\<close> in \<open>adapters/db/kv/kv.go\<close> state it. The contents of a transaction are a map from keys
  to entries; the locale lists what the engine may rely on.
\<close>

type_synonym contents = "key \<rightharpoonup> data"

definition entry_key :: "key \<Rightarrow> bool" where
  "entry_key k \<longleftrightarrow> key_ok k \<and> k_type k \<in> {KeyIP, KeyMail, KeyTuple, KeyDomain}"

lemma entry_key_simps [simp]:
  "entry_key (ip_key ip)" "entry_key (mail_key ip)" "entry_key (domain_key ip)"
  "entry_key (tuple_key t) \<longleftrightarrow> tuple_ok t"
  by (simp_all add: entry_key_def key_ok_def ip_key_def mail_key_def domain_key_def tuple_key_def)

lemma key_inject [simp]:
  "ip_key a = ip_key b \<longleftrightarrow> a = b" "tuple_key t = tuple_key u \<longleftrightarrow> t = u"
  "mail_key a = mail_key b \<longleftrightarrow> a = b" "domain_key a = domain_key b \<longleftrightarrow> a = b"
  "ip_key a \<noteq> tuple_key t" "tuple_key t \<noteq> ip_key a" "ip_key a \<noteq> mail_key b" "mail_key b \<noteq> ip_key a"
  "tuple_key t \<noteq> mail_key b" "mail_key b \<noteq> tuple_key t" "ip_key a \<noteq> domain_key b" "domain_key b \<noteq> ip_key a"
  "tuple_key t \<noteq> domain_key b" "domain_key b \<noteq> tuple_key t"
  "mail_key a \<noteq> domain_key b" "domain_key b \<noteq> mail_key a"
  by (auto simp: ip_key_def tuple_key_def mail_key_def domain_key_def)

lemma key_fields [simp]:
  "k_type (ip_key a) = KeyIP" "k_str (ip_key a) = a" "k_type (tuple_key t) = KeyTuple" "k_tuple (tuple_key t) = t"
  "k_type (mail_key a) = KeyMail" "k_type (domain_key a) = KeyDomain" "k_str (domain_key a) = a"
  "k_type (domain_part_key a) = KeyDomainPart" "k_str (domain_part_key a) = a"
  by (simp_all add: ip_key_def tuple_key_def mail_key_def domain_key_def domain_part_key_def)

subsection \<open>What a scan does\<close>

definition expired :: "int \<Rightarrow> data \<Rightarrow> bool" where
  "expired now d \<longleftrightarrow> d_expire d \<le> now \<and> d_pcount d > PCountSpamtrap"

definition live :: "int \<Rightarrow> contents \<Rightarrow> contents" where
  "live now m k = (case m k of None \<Rightarrow> None | Some d \<Rightarrow> if expired now d then None else Some d)"

text \<open>A tuple is ready when it has not expired, is not trapped, and its pass time has come.\<close>

definition ready :: "int \<Rightarrow> contents \<Rightarrow> tuple \<Rightarrow> data \<Rightarrow> bool" where
  "ready now m t d \<longleftrightarrow> m (tuple_key t) = Some d \<and> \<not> expired now d \<and> d_pcount d \<ge> 0 \<and> d_pass d \<le> now"

definition promoted :: "int \<Rightarrow> int \<Rightarrow> contents \<Rightarrow> contents \<Rightarrow> tuple \<Rightarrow> data \<Rightarrow> bool" where
  "promoted now we m m' t d \<longleftrightarrow> ready now m t d \<and> m' (tuple_key t) = None \<and>
     m' (ip_key (t_ip t)) = Some (d\<lparr>d_expire := i64 (now + we)\<rparr>)"

definition white_in :: "int \<Rightarrow> contents \<Rightarrow> string \<Rightarrow> bool" where
  "white_in now m ip \<longleftrightarrow> (\<exists>d. m (ip_key ip) = Some d \<and> d_pcount d \<ge> 0 \<and> d_pass d \<le> now)"

definition trapped_in :: "contents \<Rightarrow> string \<Rightarrow> bool" where
  "trapped_in m ip \<longleftrightarrow> (\<exists>d. m (ip_key ip) = Some d \<and> d_pcount d = PCountTrapped)"

definition lists_of :: "int \<Rightarrow> contents \<Rightarrow> scan_result \<Rightarrow> bool" where
  "lists_of now m r \<longleftrightarrow>
     distinct (sr_whitelist r) \<and> distinct (sr_whitelist_v6 r) \<and> distinct (sr_traplist r) \<and>
     set (sr_whitelist r) = {ip. white_in now m ip \<and> check_addr ip \<noteq> 6} \<and>
     set (sr_whitelist_v6 r) = {ip. white_in now m ip \<and> check_addr ip = 6} \<and>
     set (sr_traplist r) = {ip. trapped_in m ip}"

text \<open>
  Expired entries are removed; of the addresses without an entry that have ready tuples, each is
  whitelisted from one of them, which is removed; everything else stays, and the lists are those
  of the new contents.
\<close>

definition scan_spec :: "int \<Rightarrow> int \<Rightarrow> contents \<Rightarrow> scan_result \<Rightarrow> contents \<Rightarrow> bool" where
  "scan_spec now we m r m' \<longleftrightarrow>
     (\<forall>k. k_type k \<noteq> KeyIP \<and> k_type k \<noteq> KeyTuple \<longrightarrow> m' k = m k) \<and>
     (\<forall>ip. m' (ip_key ip) = live now m (ip_key ip) \<or>
        live now m (ip_key ip) = None \<and> (\<exists>t d. t_ip t = ip \<and> promoted now we m m' t d)) \<and>
     (\<forall>t d. ready now m t d \<longrightarrow> m' (ip_key (t_ip t)) \<noteq> None) \<and>
     (\<forall>t. m' (tuple_key t) = live now m (tuple_key t) \<or>
        live now m (ip_key (t_ip t)) = None \<and> (\<exists>d. promoted now we m m' t d)) \<and>
     lists_of now m' r"

text \<open>The kinds of entries an iterator was asked for.\<close>

definition kind_bit :: "bucket \<Rightarrow> int" where
  "kind_bit b = (case b of BucketEntries \<Rightarrow> 1 | BucketSpamtraps \<Rightarrow> 2 | BucketDomains \<Rightarrow> 4)"

definition selected :: "int \<Rightarrow> key \<Rightarrow> bool" where
  "selected types k \<longleftrightarrow> types AND kind_bit (bucket_for (k_type k)) \<noteq> 0"

locale store_contract =
  fixes ops :: "('s, 't) store_ops"
    and state :: "'s \<Rightarrow> 't" and rw :: "'s \<Rightarrow> bool"
    and inv :: "'t \<Rightarrow> bool" and writable :: "'t \<Rightarrow> bool" and look :: "'t \<Rightarrow> contents"
  assumes look_keys: "inv t \<Longrightarrow> look t k = Some d \<Longrightarrow> entry_key k \<and> data_ok d"
    and view_ok: "inv (state s) \<Longrightarrow> \<exists>t. op_view ops None s = Inr t \<and> inv t \<and> look t = look (state s)"
    and update_ok: "inv (state s) \<Longrightarrow> rw s \<Longrightarrow>
          \<exists>t. op_update ops None s = Inr t \<and> inv t \<and> writable t \<and> look t = look (state s)"
    and commit_ok: "inv t \<Longrightarrow> rw s \<Longrightarrow>
          inv (state (op_commit ops s t)) \<and> rw (op_commit ops s t) \<and> look (state (op_commit ops s t)) = look t"
    and get_ok: "inv t \<Longrightarrow> entry_key k \<Longrightarrow>
          op_get ops t k = Inr (case look t k of None \<Rightarrow> (zero_data, False) | Some d \<Rightarrow> (d, True))"
    and get_domain: "inv t \<Longrightarrow>
          \<exists>d. op_get ops t (domain_part_key a) =
                Inr (d, \<exists>dom. look t (domain_key dom) \<noteq> None \<and> domain_matches dom a)"
    and put_ok: "inv t \<Longrightarrow> writable t \<Longrightarrow> entry_key k \<Longrightarrow> data_ok d \<Longrightarrow>
          \<exists>t'. op_put ops t k d = Inr t' \<and> inv t' \<and> writable t' \<and> look t' = (look t)(k \<mapsto> d)"
    and del_ok: "inv t \<Longrightarrow> writable t \<Longrightarrow> entry_key k \<Longrightarrow>
          \<exists>t'. op_del ops t k = Inr (look t k \<noteq> None, t') \<and> inv t' \<and> writable t' \<and> look t' = (look t)(k := None)"
    and scan_ok: "inv t \<Longrightarrow> writable t \<Longrightarrow>
          \<exists>r t'. op_scan ops t now we = Inr (r, t') \<and> inv t' \<and> writable t' \<and> scan_spec now we (look t) r (look t')"
    and entries_ok: "inv t \<Longrightarrow>
          \<exists>es. op_entries ops t types = Inr es \<and> distinct (map fst es) \<and>
               (\<forall>k d. (k, d) \<in> set es \<longleftrightarrow> look t k = Some d \<and> selected types k)"

end
