(* ===== verification/KV_Scan.thy ===== *)
theory KV_Scan
  imports Store_Contract
begin

text \<open>
  The scan of \<open>adapters/db/kv/kv.go\<close>: the body of its loop, written over the operations of a
  transaction, and the loop over the entries of a map. The loop is shown to do what the contract
  of a store asks of a scan, when it visits the addresses before the tuples.
\<close>

subsection \<open>One entry\<close>

record scan_acc =
  sa_res :: scan_result
  sa_seen :: "string list"

abbreviation empty_acc :: scan_acc where
  "empty_acc \<equiv> \<lparr>sa_res = \<lparr>sr_whitelist = [], sr_whitelist_v6 = [], sr_traplist = []\<rparr>, sa_seen = []\<rparr>"

definition add_white :: "string \<Rightarrow> scan_acc \<Rightarrow> scan_acc" where
  "add_white addr a =
     (if addr \<in> set (sa_seen a) then a
      else let r = sa_res a
           in \<lparr>sa_res = (if check_addr addr = 6 then r\<lparr>sr_whitelist_v6 := sr_whitelist_v6 r @ [addr]\<rparr>
                         else r\<lparr>sr_whitelist := sr_whitelist r @ [addr]\<rparr>),
               sa_seen = addr # sa_seen a\<rparr>)"

definition add_trap :: "string \<Rightarrow> scan_acc \<Rightarrow> scan_acc" where
  "add_trap addr a = a\<lparr>sa_res := (sa_res a)\<lparr>sr_traplist := sr_traplist (sa_res a) @ [addr]\<rparr>\<rparr>"

text \<open>
  The body of the loop of \<open>Scan\<close>, over the operations it is given: the lookup and the write of
  the transaction and the removal of the current entry of the iterator.
\<close>

definition scan_entry ::
  "('t \<Rightarrow> key \<Rightarrow> db_error + data \<times> bool) \<Rightarrow> ('t \<Rightarrow> key \<Rightarrow> data \<Rightarrow> db_error + 't) \<Rightarrow> ('t \<Rightarrow> db_error + 't) \<Rightarrow>
   int \<Rightarrow> int \<Rightarrow> key \<Rightarrow> data \<Rightarrow> 't \<Rightarrow> scan_acc \<Rightarrow> db_error + 't \<times> scan_acc" where
  "scan_entry get put delete_current now white_exp k d t a =
     (if d_expire d \<le> now \<and> d_pcount d > PCountSpamtrap then
        (case delete_current t of Inl e \<Rightarrow> Inl e | Inr t' \<Rightarrow> Inr (t', a))
      else if d_pcount d = PCountTrapped \<and> k_type k = KeyIP then Inr (t, add_trap (k_str k) a)
      else if d_pcount d \<ge> 0 \<and> d_pass d \<le> now then
        (if k_type k = KeyTuple then
           (case addr_state (get t) (t_ip (k_tuple k)) of
              Inl e \<Rightarrow> Inl e
            | Inr state \<Rightarrow>
                if state \<noteq> 0 then Inr (t, a)
                else (case put t (ip_key (t_ip (k_tuple k))) (d\<lparr>d_expire := i64 (now + white_exp)\<rparr>) of
                        Inl e \<Rightarrow> Inl e
                      | Inr t1 \<Rightarrow>
                          (case delete_current t1 of
                             Inl e \<Rightarrow> Inl e
                           | Inr t2 \<Rightarrow> Inr (t2, add_white (t_ip (k_tuple k)) a))))
         else if k_type k = KeyIP then Inr (t, add_white (k_str k) a)
         else Inr (t, a))
      else Inr (t, a))"

subsection \<open>The loop over a map\<close>

definition map_entry :: "int \<Rightarrow> int \<Rightarrow> key \<Rightarrow> data \<Rightarrow> contents \<Rightarrow> scan_acc \<Rightarrow> contents \<times> scan_acc" where
  "map_entry now we k d m a =
     (if expired now d then (m(k := None), a)
      else if d_pcount d = PCountTrapped \<and> k_type k = KeyIP then (m, add_trap (k_str k) a)
      else if d_pcount d \<ge> 0 \<and> d_pass d \<le> now then
        (if k_type k = KeyTuple then
           (if m (ip_key (t_ip (k_tuple k))) \<noteq> None then (m, a)
            else (m(ip_key (t_ip (k_tuple k)) \<mapsto> d\<lparr>d_expire := i64 (now + we)\<rparr>, k := None),
                  add_white (t_ip (k_tuple k)) a))
         else if k_type k = KeyIP then (m, add_white (k_str k) a)
         else (m, a))
      else (m, a))"

fun map_scan :: "int \<Rightarrow> int \<Rightarrow> key list \<Rightarrow> contents \<Rightarrow> scan_acc \<Rightarrow> contents \<times> scan_acc" where
  "map_scan now we [] m a = (m, a)"
| "map_scan now we (k # ks) m a =
     (case m k of
        None \<Rightarrow> map_scan now we ks m a
      | Some d \<Rightarrow> (let (m', a') = map_entry now we k d m a in map_scan now we ks m' a'))"

lemma map_scan_append:
  "map_scan now we (ks @ ls) m a = (let (m', a') = map_scan now we ks m a in map_scan now we ls m' a')"
  by (induction ks arbitrary: m a) (auto simp: case_prod_beta Let_def split: option.splits)

text \<open>The accumulated lists describe the entries of a set of addresses.\<close>

definition acc_ok :: "int \<Rightarrow> string set \<Rightarrow> contents \<Rightarrow> scan_acc \<Rightarrow> bool" where
  "acc_ok now ips m a \<longleftrightarrow>
     distinct (sr_whitelist (sa_res a)) \<and> distinct (sr_whitelist_v6 (sa_res a)) \<and> distinct (sr_traplist (sa_res a)) \<and>
     set (sr_whitelist (sa_res a)) = {ip \<in> ips. white_in now m ip \<and> check_addr ip \<noteq> 6} \<and>
     set (sr_whitelist_v6 (sa_res a)) = {ip \<in> ips. white_in now m ip \<and> check_addr ip = 6} \<and>
     set (sr_traplist (sa_res a)) = {ip \<in> ips. trapped_in m ip} \<and>
     set (sa_seen a) = {ip \<in> ips. white_in now m ip}"

lemma acc_ok_empty: "acc_ok now {} m empty_acc"
  by (simp add: acc_ok_def)

lemma acc_ok_cong:
  "acc_ok now ips m a \<Longrightarrow> (\<And>ip. ip \<in> ips \<Longrightarrow> m' (ip_key ip) = m (ip_key ip)) \<Longrightarrow> acc_ok now ips m' a"
  unfolding acc_ok_def white_in_def trapped_in_def by (auto cong: conj_cong)

lemma acc_ok_white:
  assumes "acc_ok now ips m a" "ip \<notin> ips" "white_in now m ip" "\<not> trapped_in m ip"
  shows "acc_ok now (insert ip ips) m (add_white ip a)"
  using assms by (auto simp: acc_ok_def add_white_def Let_def)

lemma acc_ok_trap:
  assumes "acc_ok now ips m a" "ip \<notin> ips" "\<not> white_in now m ip" "trapped_in m ip"
  shows "acc_ok now (insert ip ips) m (add_trap ip a)"
  using assms by (auto simp: acc_ok_def add_trap_def)

lemma acc_ok_neither:
  assumes "acc_ok now ips m a" "ip \<notin> ips" "\<not> white_in now m ip" "\<not> trapped_in m ip"
  shows "acc_ok now (insert ip ips) m a"
  using assms by (auto simp: acc_ok_def)

lemma scan_ips:
  assumes "distinct ips" "set ips \<inter> done = {}" "acc_ok now done m a"
    and "map_scan now we (map ip_key ips) m a = (m', a')"
  shows "m' k = (if k \<in> ip_key ` set ips then live now m k else m k) \<and> acc_ok now (done \<union> set ips) m' a'"
  using assms
proof (induction ips arbitrary: m a "done" k)
  case (Cons ip ips)
  obtain m1 a1 where m1: "map_scan now we (map ip_key ips) m1 a1 = (m', a')"
    "m1 = m(ip_key ip := live now m (ip_key ip))" "acc_ok now (insert ip done) m1 a1"
  proof (cases "m (ip_key ip)")
    case None
    then have "acc_ok now (insert ip done) m a"
      using Cons.prems by (intro acc_ok_neither) (auto simp: white_in_def trapped_in_def)
    moreover have "m = m(ip_key ip := live now m (ip_key ip))" using None by (auto simp: live_def)
    ultimately show thesis using that [of m a] None Cons.prems(4) by simp
  next
    case (Some d)
    show thesis
    proof (cases "expired now d")
      case True
      have "acc_ok now done (m(ip_key ip := None)) a"
        using Cons.prems by (intro acc_ok_cong [OF Cons.prems(3)]) auto
      then have "acc_ok now (insert ip done) (m(ip_key ip := None)) a"
        using Cons.prems by (intro acc_ok_neither) (auto simp: white_in_def trapped_in_def)
      with True Some Cons.prems(4) show thesis by (intro that) (auto simp: map_entry_def live_def)
    next
      case False
      let ?a = "snd (map_entry now we (ip_key ip) d m a)"
      have "acc_ok now (insert ip done) m ?a"
      proof (cases "d_pcount d = PCountTrapped")
        case True
        with False Some Cons.prems show ?thesis
          by (auto simp: map_entry_def white_in_def trapped_in_def intro: acc_ok_trap)
      next
        case untrapped: False
        show ?thesis
        proof (cases "d_pcount d \<ge> 0 \<and> d_pass d \<le> now")
          case True
          with False Some Cons.prems untrapped show ?thesis
            by (auto simp: map_entry_def white_in_def trapped_in_def intro!: acc_ok_white)
        next
          case rest: False
          with False Some Cons.prems untrapped show ?thesis
            by (auto simp: map_entry_def white_in_def trapped_in_def intro!: acc_ok_neither)
        qed
      qed
      moreover have "fst (map_entry now we (ip_key ip) d m a) = m"
        using False by (simp add: map_entry_def)
      moreover have "m = m(ip_key ip := live now m (ip_key ip))" using Some False by (auto simp: live_def)
      ultimately show thesis using that [of m ?a] Some Cons.prems(4) by (simp add: case_prod_beta)
    qed
  qed
  have "m' k = (if k \<in> ip_key ` set ips then live now m1 k else m1 k) \<and> acc_ok now (insert ip done \<union> set ips) m' a'"
    by (rule Cons.IH [OF _ _ m1(3,1)]) (use Cons.prems in auto)
  with Cons.prems(1) show ?case by (auto simp: m1(2) live_def)
qed simp

definition tuples_scanned :: "int \<Rightarrow> int \<Rightarrow> tuple list \<Rightarrow> contents \<Rightarrow> contents \<Rightarrow> bool" where
  "tuples_scanned now we ts m m' \<longleftrightarrow>
     (\<forall>k. k_type k \<noteq> KeyIP \<and> k \<notin> tuple_key ` set ts \<longrightarrow> m' k = m k) \<and>
     (\<forall>ip. m' (ip_key ip) = m (ip_key ip) \<or>
        m (ip_key ip) = None \<and> (\<exists>t \<in> set ts. \<exists>d. t_ip t = ip \<and> promoted now we m m' t d)) \<and>
     (\<forall>t \<in> set ts. \<forall>d. ready now m t d \<longrightarrow> m' (ip_key (t_ip t)) \<noteq> None) \<and>
     (\<forall>t \<in> set ts. m' (tuple_key t) = live now m (tuple_key t) \<or>
        m (ip_key (t_ip t)) = None \<and> (\<exists>d. promoted now we m m' t d))"

text \<open>One tuple: it stays, or it is removed as expired, or its address is whitelisted from it.\<close>

definition tuple_step :: "int \<Rightarrow> int \<Rightarrow> tuple \<Rightarrow> contents \<Rightarrow> contents \<Rightarrow> bool" where
  "tuple_step now we t m m1 \<longleftrightarrow>
     m1 = m(tuple_key t := live now m (tuple_key t)) \<and>
       (\<forall>d. ready now m t d \<longrightarrow> m (ip_key (t_ip t)) \<noteq> None) \<or>
     (\<exists>d. m (ip_key (t_ip t)) = None \<and> ready now m t d \<and>
        m1 = m(ip_key (t_ip t) \<mapsto> d\<lparr>d_expire := i64 (now + we)\<rparr>, tuple_key t := None))"

lemma tuple_step:
  assumes "m (tuple_key t) = Some d" "acc_ok now UNIV m a" "map_entry now we (tuple_key t) d m a = (m1, a1)"
  shows "tuple_step now we t m m1 \<and> acc_ok now UNIV m1 a1"
proof -
  have upd: "acc_ok now UNIV (m(tuple_key t := x)) a" for x
    by (rule acc_ok_cong [OF assms(2)]) simp
  have idle: "m(tuple_key t := Some d) = m" using assms(1) by auto
  consider (expired) "expired now d" | (new) "ready now m t d" "m (ip_key (t_ip t)) = None"
    | (keep) "\<not> expired now d" "\<not> (ready now m t d \<and> m (ip_key (t_ip t)) = None)"
    using assms(1) by (auto simp: ready_def)
  then show ?thesis
  proof cases
    case expired
    then show ?thesis using assms upd by (auto simp: map_entry_def tuple_step_def live_def ready_def)
  next
    case new
    let ?ip = "t_ip t" and ?d = "d\<lparr>d_expire := i64 (now + we)\<rparr>"
    let ?m = "m(ip_key ?ip \<mapsto> ?d, tuple_key t := None)"
    have acc: "acc_ok now (UNIV - {?ip}) m a" using assms(2) new(2)
      by (auto simp: acc_ok_def white_in_def trapped_in_def)
    have "acc_ok now (UNIV - {?ip}) ?m a"
      by (rule acc_ok_cong [OF acc]) auto
    then have "acc_ok now (insert ?ip (UNIV - {?ip})) ?m (add_white ?ip a)"
      using new(1) by (intro acc_ok_white) (auto simp: white_in_def trapped_in_def ready_def)
    then have "acc_ok now UNIV ?m (add_white ?ip a)" by (simp add: insert_UNIV)
    moreover have "m1 = ?m" "a1 = add_white ?ip a"
      using new assms(3) by (auto simp: map_entry_def ready_def)
    ultimately show ?thesis using new by (auto simp: tuple_step_def)
  next
    case keep
    then have "m1 = m" "a1 = a" using assms by (auto simp: map_entry_def ready_def split: if_splits)
    moreover have "x = d" if "ready now m t x" for x using that assms(1) by (simp add: ready_def)
    ultimately show ?thesis using keep assms(1,2) idle by (auto simp: tuple_step_def live_def)
  qed
qed

lemma tuples_scanned_Cons:
  assumes step: "tuple_step now we t m m1" and rest: "tuples_scanned now we ts m1 m'" and t: "t \<notin> set ts"
  shows "tuples_scanned now we (t # ts) m m'"
proof -
  have other: "m1 (tuple_key u) = m (tuple_key u)" if "u \<in> set ts" for u
    using step t that by (auto simp: tuple_step_def)
  then have ready: "ready now m1 u d = ready now m u d" "promoted now we m1 m' u d = promoted now we m m' u d"
    "live now m1 (tuple_key u) = live now m (tuple_key u)" if "u \<in> set ts" for u d
    using that by (simp_all add: ready_def promoted_def live_def)
  have tk: "m' (tuple_key t) = m1 (tuple_key t)"
  proof -
    have "tuple_key t \<notin> tuple_key ` set ts" using t by auto
    with rest show ?thesis by (simp add: tuples_scanned_def del: image_iff)
  qed
  have frame: "m' k = m k" if "k_type k \<noteq> KeyIP" "k \<notin> tuple_key ` set (t # ts)" for k
    using step rest that by (auto simp: tuples_scanned_def tuple_step_def)
  have ip: "m' (ip_key i) = m1 (ip_key i) \<or>
      m1 (ip_key i) = None \<and> (\<exists>u \<in> set ts. \<exists>d. t_ip u = i \<and> promoted now we m m' u d)" for i
    using rest ready(2) unfolding tuples_scanned_def by blast
  have rdy: "m' (ip_key (t_ip u)) \<noteq> None" if "u \<in> set ts" "ready now m u d" for u d
    using rest ready(1) that unfolding tuples_scanned_def by blast
  have tup: "m' (tuple_key u) = live now m (tuple_key u) \<or>
      m1 (ip_key (t_ip u)) = None \<and> (\<exists>d. promoted now we m m' u d)" if "u \<in> set ts" for u
    using rest ready(2,3) [OF that] that unfolding tuples_scanned_def by metis
  from step [unfolded tuple_step_def] show ?thesis
  proof (elim disjE exE conjE)
    assume m1: "m1 = m(tuple_key t := live now m (tuple_key t))"
      and nr: "\<forall>d. ready now m t d \<longrightarrow> m (ip_key (t_ip t)) \<noteq> None"
    have same: "m1 (ip_key i) = m (ip_key i)" for i by (simp add: m1)
    then have "m' (ip_key (t_ip t)) \<noteq> None" if "ready now m t d" for d using nr that ip [of "t_ip t"] by auto
    moreover have "m' (tuple_key t) = live now m (tuple_key t)" using tk by (simp add: m1)
    ultimately show ?thesis
      unfolding tuples_scanned_def using frame ip rdy tup same by (auto simp del: fun_upd_apply)
  next
    fix d assume none: "m (ip_key (t_ip t)) = None" and r: "ready now m t d"
      and m1: "m1 = m(ip_key (t_ip t) \<mapsto> d\<lparr>d_expire := i64 (now + we)\<rparr>, tuple_key t := None)"
    have "m' (ip_key (t_ip t)) = Some (d\<lparr>d_expire := i64 (now + we)\<rparr>)" using ip [of "t_ip t"] by (simp add: m1)
    with r tk have p: "promoted now we m m' t d" by (simp add: promoted_def m1)
    have same: "m1 (ip_key i) = m (ip_key i)" if "i \<noteq> t_ip t" for i using that by (simp add: m1)
    have keep: "m1 (ip_key (t_ip u)) = None \<Longrightarrow> m (ip_key (t_ip u)) = None" for u
      using same [of "t_ip u"] none by (cases "t_ip u = t_ip t") auto
    have "m' (ip_key i) = m (ip_key i) \<or>
        m (ip_key i) = None \<and> (\<exists>u \<in> set (t # ts). \<exists>d. t_ip u = i \<and> promoted now we m m' u d)" for i
      using p none same [of i] ip [of i] by (cases "i = t_ip t") auto
    moreover have "m' (ip_key (t_ip u)) \<noteq> None" if "u \<in> set (t # ts)" "ready now m u e" for u e
      using p rdy that by (auto simp: promoted_def)
    moreover have "m' (tuple_key u) = live now m (tuple_key u) \<or>
        m (ip_key (t_ip u)) = None \<and> (\<exists>d. promoted now we m m' u d)" if "u \<in> set (t # ts)" for u
      using p none tup keep that by auto
    ultimately show ?thesis unfolding tuples_scanned_def using frame by blast
  qed
qed

lemma scan_tuples:
  assumes "distinct ts" "acc_ok now UNIV m a" "map_scan now we (map tuple_key ts) m a = (m', a')"
  shows "tuples_scanned now we ts m m' \<and> acc_ok now UNIV m' a'"
  using assms
proof (induction ts arbitrary: m a)
  case Nil
  then show ?case by (simp add: tuples_scanned_def)
next
  case (Cons t ts)
  obtain m1 a1 where m1: "map_scan now we (map tuple_key ts) m1 a1 = (m', a')"
    "tuple_step now we t m m1" "acc_ok now UNIV m1 a1"
  proof (cases "m (tuple_key t)")
    case None
    then have "m = m(tuple_key t := live now m (tuple_key t))" by (auto simp: live_def)
    then have "tuple_step now we t m m" using None by (auto simp: tuple_step_def ready_def)
    with None Cons.prems show thesis by (intro that [of m a]) auto
  next
    case (Some d)
    obtain m1 a1 where e: "map_entry now we (tuple_key t) d m a = (m1, a1)" by fastforce
    with tuple_step [OF Some Cons.prems(2) e] Some Cons.prems(3) show thesis by (intro that [of m1 a1]) auto
  qed
  with Cons show ?case by (auto intro: tuples_scanned_Cons)
qed

lemma map_scan_spec:
  assumes "distinct ips" "distinct ts"
    and ips: "\<And>ip. ip \<in> set ips \<longleftrightarrow> m (ip_key ip) \<noteq> None" and ts: "\<And>t. t \<in> set ts \<longleftrightarrow> m (tuple_key t) \<noteq> None"
    and scan: "map_scan now we (map ip_key ips @ map tuple_key ts) m empty_acc = (m', a')"
  shows "scan_spec now we m (sa_res a') m'"
proof -
  obtain m1 a1 where 1: "map_scan now we (map ip_key ips) m empty_acc = (m1, a1)" by fastforce
  with scan have 2: "map_scan now we (map tuple_key ts) m1 a1 = (m', a')" by (simp add: map_scan_append)
  have m1: "m1 k = (if k \<in> ip_key ` set ips then live now m k else m k)" for k
    using scan_ips [OF assms(1) _ acc_ok_empty 1] by simp
  have acc1: "acc_ok now (set ips) m1 a1"
    using scan_ips [OF assms(1) _ acc_ok_empty 1] by simp
  have ip1: "m1 (ip_key ip) = live now m (ip_key ip)" for ip
    using ips [of ip] by (auto simp: m1 live_def)
  have tk1: "m1 k = m k" if "k_type k \<noteq> KeyIP" for k using that by (auto simp: m1)
  have "acc_ok now UNIV m1 a1"
  proof -
    have "ip \<in> set ips" if "white_in now m1 ip \<or> trapped_in m1 ip" for ip
      using that ips [of ip] by (auto simp: white_in_def trapped_in_def ip1 live_def)
    with acc1 show ?thesis by (auto simp: acc_ok_def)
  qed
  from scan_tuples [OF assms(2) this 2]
  have sc: "tuples_scanned now we ts m1 m'" and acc: "acc_ok now UNIV m' a'" by simp_all
  have rp: "ready now m1 t d = ready now m t d" "promoted now we m1 m' t d = promoted now we m m' t d"
    "live now m1 (tuple_key t) = live now m (tuple_key t)" for t d
    by (simp_all add: ready_def promoted_def live_def tk1)
  have in_ts: "t \<in> set ts" if "ready now m t d" for t d using that ts by (simp add: ready_def)
  have "m' (tuple_key t) = live now m (tuple_key t)" if "t \<notin> set ts" for t
  proof -
    have "tuple_key t \<notin> tuple_key ` set ts" using that by auto
    with sc have "m' (tuple_key t) = m1 (tuple_key t)" by (simp add: tuples_scanned_def del: image_iff)
    then show ?thesis using that ts [of t] by (simp add: tk1 live_def)
  qed
  then have tup: "m' (tuple_key t) = live now m (tuple_key t) \<or>
      live now m (ip_key (t_ip t)) = None \<and> (\<exists>d. promoted now we m m' t d)" for t
    using sc unfolding tuples_scanned_def rp ip1 by blast
  have "m' k = m k" if "k_type k \<noteq> KeyIP" "k_type k \<noteq> KeyTuple" for k
  proof -
    have "k \<notin> tuple_key ` set ts" using that by auto
    with sc that show ?thesis by (simp add: tuples_scanned_def tk1 del: image_iff)
  qed
  moreover have "lists_of now m' (sa_res a')" using acc by (simp add: acc_ok_def lists_of_def)
  ultimately show ?thesis
    using sc tup in_ts unfolding scan_spec_def tuples_scanned_def rp ip1 by blast
qed

end
