(* ===== verification/Memory_Store.thy ===== *)
theory Memory_Store
  imports KV_Scan "HOL-Library.AList"
begin

text \<open>
  The in-process driver \<open>adapters/db/memory\<close>. A bucket is a list of pairs with distinct keys;
  the copy that an update works on is the value itself. The iterator holds the keys of its
  snapshot that are still to come. The driver is shown to satisfy the contract of a store.
\<close>

subsection \<open>Transactions\<close>

type_synonym table = "(string \<times> bytes) list"
type_synonym buckets = "bucket \<Rightarrow> table"

record mem_store =
  ms_data :: buckets
  ms_read_only :: bool

record mem_tx =
  tx_data :: buckets
  tx_read_only :: bool

definition new_database :: buckets where
  "new_database = (\<lambda>b. [])"

definition mem_new :: mem_store where
  "mem_new = \<lparr>ms_data = new_database, ms_read_only = False\<rparr>"

definition mem_open :: "bool \<Rightarrow> mem_store \<Rightarrow> mem_store" where
  "mem_open ro s = s\<lparr>ms_read_only := ro\<rparr>"

definition mem_view :: "context_state \<Rightarrow> mem_store \<Rightarrow> db_error + mem_tx" where
  "mem_view ctx s =
     (case ctx of Some e \<Rightarrow> Inl e | None \<Rightarrow> Inr \<lparr>tx_data = ms_data s, tx_read_only = True\<rparr>)"

definition mem_update :: "context_state \<Rightarrow> mem_store \<Rightarrow> db_error + mem_tx" where
  "mem_update ctx s =
     (case ctx of
        Some e \<Rightarrow> Inl e
      | None \<Rightarrow>
          if ms_read_only s then Inl ErrReadOnly
          else Inr \<lparr>tx_data = ms_data s, tx_read_only = False\<rparr>)"

definition mem_commit :: "mem_store \<Rightarrow> mem_tx \<Rightarrow> mem_store" where
  "mem_commit s t = s\<lparr>ms_data := tx_data t\<rparr>"

definition mem_put :: "mem_tx \<Rightarrow> key \<Rightarrow> data \<Rightarrow> db_error + mem_tx" where
  "mem_put t k d =
     (if tx_read_only t then Inl ErrReadOnly
      else let b = bucket_for (k_type k)
           in Inr (t\<lparr>tx_data := (tx_data t)(b := AList.update (encode_key k) (encode_data d) (tx_data t b))\<rparr>))"

fun find_domain :: "string list \<Rightarrow> string \<Rightarrow> db_error + data \<times> bool" where
  "find_domain [] addr = Inr (zero_data, False)"
| "find_domain (raw # raws) addr =
     (case decode_key raw of
        Inl e \<Rightarrow> Inl e
      | Inr dk \<Rightarrow>
          if domain_matches (k_str dk) addr then Inr (zero_data\<lparr>d_pcount := PCountDomain\<rparr>, True)
          else find_domain raws addr)"

definition mem_get :: "mem_tx \<Rightarrow> key \<Rightarrow> db_error + data \<times> bool" where
  "mem_get t k =
     (if k_type k = KeyDomainPart then find_domain (map fst (tx_data t BucketDomains)) (k_str k)
      else case map_of (tx_data t (bucket_for (k_type k))) (encode_key k) of
          None \<Rightarrow> Inr (zero_data, False)
        | Some v \<Rightarrow> (case decode_data v of Inl e \<Rightarrow> Inl e | Inr d \<Rightarrow> Inr (d, True)))"

definition mem_del :: "mem_tx \<Rightarrow> key \<Rightarrow> db_error + bool \<times> mem_tx" where
  "mem_del t k =
     (if tx_read_only t then Inl ErrReadOnly
      else let b = bucket_for (k_type k); ek = encode_key k
           in case map_of (tx_data t b) ek of
                None \<Rightarrow> Inr (False, t)
              | Some _ \<Rightarrow> Inr (True, t\<lparr>tx_data := (tx_data t)(b := AList.delete ek (tx_data t b))\<rparr>))"

subsection \<open>Iteration\<close>

record iterator =
  it_keys :: "string list"
  it_curr :: key
  it_has :: bool

definition mem_iter :: "mem_tx \<Rightarrow> int \<Rightarrow> iterator" where
  "mem_iter t types =
     (let keys = (\<lambda>bit b. if types AND bit = 0 then [] else sort (map fst (tx_data t b)))
      in \<lparr>it_keys = keys 1 BucketEntries @ keys 2 BucketSpamtraps @ keys 4 BucketDomains,
          it_curr = \<lparr>k_type = 0, k_str = [], k_tuple = no_tuple\<rparr>, it_has = False\<rparr>)"

text \<open>The loop of \<open>Next\<close>: keys deleted since the snapshot was taken are skipped.\<close>

fun next_key :: "mem_tx \<Rightarrow> string list \<Rightarrow> db_error + (key \<times> data \<times> string list) option" where
  "next_key t [] = Inr None"
| "next_key t (ek # eks) =
     (case decode_key ek of
        Inl e \<Rightarrow> Inl e
      | Inr k \<Rightarrow>
          (case map_of (tx_data t (bucket_for (k_type k))) ek of
             None \<Rightarrow> next_key t eks
           | Some v \<Rightarrow> (case decode_data v of Inl e \<Rightarrow> Inl e | Inr d \<Rightarrow> Inr (Some (k, d, eks)))))"

definition mem_next :: "mem_tx \<Rightarrow> iterator \<Rightarrow> db_error + (key \<times> data) option \<times> iterator" where
  "mem_next t it =
     (case next_key t (it_keys it) of
        Inl e \<Rightarrow> Inl e
      | Inr None \<Rightarrow> Inr (None, it\<lparr>it_keys := [], it_has := False\<rparr>)
      | Inr (Some (k, d, eks)) \<Rightarrow> Inr (Some (k, d), it\<lparr>it_keys := eks, it_curr := k, it_has := True\<rparr>))"

definition mem_replace_current :: "mem_tx \<Rightarrow> iterator \<Rightarrow> data \<Rightarrow> db_error + mem_tx" where
  "mem_replace_current t it d = (if \<not> it_has it then Inl ErrNoCurrent else mem_put t (it_curr it) d)"

definition mem_delete_current :: "mem_tx \<Rightarrow> iterator \<Rightarrow> db_error + mem_tx" where
  "mem_delete_current t it =
     (if \<not> it_has it then Inl ErrNoCurrent
      else case mem_del t (it_curr it) of Inl e \<Rightarrow> Inl e | Inr (_, t') \<Rightarrow> Inr t')"

subsection \<open>Scan\<close>

lemma next_key_length: "next_key t eks = Inr (Some (k, d, eks')) \<Longrightarrow> length eks' < length eks"
  by (induction eks) (auto split: sum.splits option.splits)

function scan_loop :: "int \<Rightarrow> int \<Rightarrow> mem_tx \<Rightarrow> iterator \<Rightarrow> scan_acc \<Rightarrow> db_error + scan_result \<times> mem_tx" where
  "scan_loop now white_exp t it a =
     (case mem_next t it of
        Inl e \<Rightarrow> Inl e
      | Inr (None, it') \<Rightarrow> Inr (sa_res a, t)
      | Inr (Some (k, d), it') \<Rightarrow>
          (case scan_entry mem_get mem_put (\<lambda>t. mem_delete_current t it') now white_exp k d t a of
             Inl e \<Rightarrow> Inl e
           | Inr (t', a') \<Rightarrow> scan_loop now white_exp t' it' a'))"
  by pat_completeness auto
termination
  by (relation "measure (\<lambda>(now, we, t, it, a). length (it_keys it))")
     (auto simp: mem_next_def next_key_length split: sum.splits option.splits)

declare scan_loop.simps [simp del]

definition kv_scan :: "mem_tx \<Rightarrow> int \<Rightarrow> int \<Rightarrow> db_error + scan_result \<times> mem_tx" where
  "kv_scan t now white_exp = scan_loop now white_exp t (mem_iter t 1) empty_acc"

definition mem_scan :: "mem_tx \<Rightarrow> int \<Rightarrow> int \<Rightarrow> db_error + scan_result \<times> mem_tx" where
  "mem_scan t now white_exp = (if tx_read_only t then Inl ErrReadOnly else kv_scan t now white_exp)"

text \<open>All that \<open>Next\<close> returns when the transaction is only read.\<close>

function mem_collect :: "mem_tx \<Rightarrow> iterator \<Rightarrow> db_error + (key \<times> data) list" where
  "mem_collect t it =
     (case mem_next t it of
        Inl e \<Rightarrow> Inl e
      | Inr (None, it') \<Rightarrow> Inr []
      | Inr (Some (k, d), it') \<Rightarrow>
          (case mem_collect t it' of Inl e \<Rightarrow> Inl e | Inr es \<Rightarrow> Inr ((k, d) # es)))"
  by pat_completeness auto
termination
  by (relation "measure (\<lambda>(t, it). length (it_keys it))")
     (auto simp: mem_next_def next_key_length split: sum.splits option.splits)

declare mem_collect.simps [simp del]

definition mem_entries :: "mem_tx \<Rightarrow> int \<Rightarrow> db_error + (key \<times> data) list" where
  "mem_entries t types = mem_collect t (mem_iter t types)"

text \<open>Databases are shared by name; a name seen for the first time gets an empty one.\<close>

definition lookup_db :: "string \<Rightarrow> (string \<rightharpoonup> buckets) \<Rightarrow> buckets \<times> (string \<rightharpoonup> buckets)" where
  "lookup_db name dbs =
     (case dbs name of Some db \<Rightarrow> (db, dbs) | None \<Rightarrow> (new_database, dbs(name \<mapsto> new_database)))"

definition reset_db :: "string \<Rightarrow> (string \<rightharpoonup> buckets) \<Rightarrow> (string \<rightharpoonup> buckets)" where
  "reset_db name dbs = dbs(name := None)"

definition memory_ops :: "(mem_store, mem_tx) store_ops" where
  "memory_ops = \<lparr>op_view = mem_view, op_update = mem_update, op_commit = mem_commit, op_get = mem_get,
                 op_put = mem_put, op_del = mem_del, op_scan = mem_scan, op_entries = mem_entries\<rparr>"

subsection \<open>Contents and invariant\<close>

definition bucket_key :: "bucket \<Rightarrow> key \<Rightarrow> bool" where
  "bucket_key b k \<longleftrightarrow> entry_key k \<and> bucket_for (k_type k) = b"

definition mem_inv :: "mem_tx \<Rightarrow> bool" where
  "mem_inv t \<longleftrightarrow> (\<forall>b. distinct (map fst (tx_data t b)) \<and>
     (\<forall>(ek, v) \<in> set (tx_data t b). \<exists>k d. ek = encode_key k \<and> bucket_key b k \<and> v = encode_data d \<and> data_ok d))"

definition mem_look :: "mem_tx \<Rightarrow> contents" where
  "mem_look t k =
     (if \<not> entry_key k then None
      else case map_of (tx_data t (bucket_for (k_type k))) (encode_key k) of
          None \<Rightarrow> None
        | Some v \<Rightarrow> (case decode_data v of Inl _ \<Rightarrow> None | Inr d \<Rightarrow> Some d))"

abbreviation mem_writable :: "mem_tx \<Rightarrow> bool" where
  "mem_writable t \<equiv> \<not> tx_read_only t"

lemma entry_key_ok: "entry_key k \<Longrightarrow> key_ok k"
  by (simp add: entry_key_def)

lemma mem_inv_lookup:
  assumes "mem_inv t" "map_of (tx_data t b) ek = Some v"
  obtains k d where "ek = encode_key k" "bucket_key b k" "v = encode_data d" "data_ok d"
  using assms map_of_SomeD [OF assms(2)] by (fastforce simp: mem_inv_def)

lemma mem_look_some:
  assumes "mem_inv t" "entry_key k"
  shows "mem_look t k = Some d \<longleftrightarrow>
    data_ok d \<and> map_of (tx_data t (bucket_for (k_type k))) (encode_key k) = Some (encode_data d)"
proof (cases "map_of (tx_data t (bucket_for (k_type k))) (encode_key k)")
  case None
  then show ?thesis by (simp add: mem_look_def)
next
  case (Some v)
  with assms(1) obtain d' where "v = encode_data d'" "data_ok d'" by (rule mem_inv_lookup)
  with Some assms(2) show ?thesis using data_codec.enc_injective [of d d']
    by (auto simp: mem_look_def decode_encode_data)
qed

lemma mem_look_none:
  assumes "mem_inv t" "entry_key k"
  shows "mem_look t k = None \<longleftrightarrow> map_of (tx_data t (bucket_for (k_type k))) (encode_key k) = None"
proof (cases "map_of (tx_data t (bucket_for (k_type k))) (encode_key k)")
  case (Some v)
  with assms(1) obtain d' where "v = encode_data d'" "data_ok d'" by (rule mem_inv_lookup)
  with Some assms(2) show ?thesis by (simp add: mem_look_def decode_encode_data)
qed (simp add: mem_look_def)

lemma mem_get_ok:
  assumes "mem_inv t" "entry_key k"
  shows "mem_get t k = Inr (case mem_look t k of None \<Rightarrow> (zero_data, False) | Some d \<Rightarrow> (d, True))"
proof -
  have "k_type k \<noteq> KeyDomainPart" using assms(2) by (auto simp: entry_key_def)
  then show ?thesis
  proof (cases "mem_look t k")
    case (Some d)
    then have "map_of (tx_data t (bucket_for (k_type k))) (encode_key k) = Some (encode_data d)" "data_ok d"
      using mem_look_some [OF assms, of d] by simp_all
    with Some \<open>k_type k \<noteq> KeyDomainPart\<close> show ?thesis by (simp add: mem_get_def decode_encode_data)
  qed (use mem_look_none [OF assms] in \<open>simp add: mem_get_def\<close>)
qed

lemma other_key:
  assumes "entry_key k" "entry_key k'" "k \<noteq> k'"
  shows "encode_key k \<noteq> encode_key k'"
  using assms key_codec.enc_injective entry_key_ok by blast

lemma mem_put_ok:
  assumes inv: "mem_inv t" and w: "mem_writable t" and k: "entry_key k" and d: "data_ok d"
  shows "\<exists>t'. mem_put t k d = Inr t' \<and> mem_inv t' \<and> mem_writable t' \<and> mem_look t' = (mem_look t)(k \<mapsto> d)"
proof -
  let ?b = "bucket_for (k_type k)"
  let ?t = "t\<lparr>tx_data := (tx_data t)(?b := AList.update (encode_key k) (encode_data d) (tx_data t ?b))\<rparr>"
  have "distinct (map fst (tx_data t b))" for b using inv by (simp add: mem_inv_def)
  moreover have "\<exists>k d. ek = encode_key k \<and> bucket_key ?b k \<and> v = encode_data d \<and> data_ok d"
    if "(ek, v) \<in> set (AList.update (encode_key k) (encode_data d) (tx_data t ?b))" for ek v
  proof -
    have "map_of (AList.update (encode_key k) (encode_data d) (tx_data t ?b)) ek = Some v"
      using that calculation [of ?b] by (simp add: distinct_update)
    then have "((map_of (tx_data t ?b))(encode_key k \<mapsto> encode_data d)) ek = Some v"
      by (simp only: update_conv')
    then have "ek = encode_key k \<and> v = encode_data d \<or> map_of (tx_data t ?b) ek = Some v"
      by (cases "ek = encode_key k") simp_all
    then show ?thesis
    proof
      assume "ek = encode_key k \<and> v = encode_data d"
      with k d have "ek = encode_key k \<and> bucket_key ?b k \<and> v = encode_data d \<and> data_ok d"
        by (simp add: bucket_key_def)
      then show ?thesis by blast
    next
      assume "map_of (tx_data t ?b) ek = Some v"
      with inv show ?thesis by (rule mem_inv_lookup) blast
    qed
  qed
  ultimately have inv': "mem_inv ?t" using inv by (auto simp: mem_inv_def distinct_update)
  have "mem_look ?t = (mem_look t)(k \<mapsto> d)"
  proof
    fix k'
    show "mem_look ?t k' = ((mem_look t)(k \<mapsto> d)) k'"
      using k d other_key [of k k']
      by (cases "k' = k"; cases "entry_key k'") (auto simp: mem_look_def update_conv' decode_encode_data)
  qed
  with inv' w show ?thesis by (auto simp: mem_put_def Let_def)
qed

lemma mem_del_ok:
  assumes inv: "mem_inv t" and w: "mem_writable t" and k: "entry_key k"
  shows "\<exists>t'. mem_del t k = Inr (mem_look t k \<noteq> None, t') \<and> mem_inv t' \<and> mem_writable t' \<and> mem_look t' = (mem_look t)(k := None)"
proof (cases "mem_look t k")
  case None
  then have "map_of (tx_data t (bucket_for (k_type k))) (encode_key k) = None"
    using mem_look_none [OF inv k] by simp
  moreover have "mem_look t = (mem_look t)(k := None)" using None by auto
  ultimately show ?thesis using inv w None by (simp add: mem_del_def Let_def)
next
  case (Some d)
  let ?b = "bucket_for (k_type k)"
  let ?t = "t\<lparr>tx_data := (tx_data t)(?b := AList.delete (encode_key k) (tx_data t ?b))\<rparr>"
  have "distinct (map fst (AList.delete (encode_key k) (tx_data t ?b)))"
    using inv by (simp add: mem_inv_def distinct_delete)
  moreover have "set (AList.delete (encode_key k) (tx_data t ?b)) \<subseteq> set (tx_data t ?b)"
    by (auto simp: AList.delete_eq)
  ultimately have inv': "mem_inv ?t" using inv by (fastforce simp: mem_inv_def)
  have "mem_look ?t = (mem_look t)(k := None)"
  proof
    fix k'
    show "mem_look ?t k' = ((mem_look t)(k := None)) k'"
      using k other_key [of k k']
      by (cases "k' = k"; cases "entry_key k'") (auto simp: mem_look_def delete_conv')
  qed
  moreover have "map_of (tx_data t ?b) (encode_key k) = Some (encode_data d)"
    using Some mem_look_some [OF inv k] by simp
  ultimately show ?thesis using inv' w Some by (simp add: mem_del_def Let_def)
qed

subsection \<open>The scan of the driver\<close>

lemma addr_state_ok:
  assumes "mem_inv t"
  shows "addr_state (mem_get t) ip =
     Inr (case mem_look t (ip_key ip) of None \<Rightarrow> 0 | Some d \<Rightarrow> if d_pcount d = PCountTrapped then 1 else 2)"
  using mem_get_ok [OF assms, of "ip_key ip"] by (cases "mem_look t (ip_key ip)") (auto simp: addr_state_def)

lemma delete_current_ok:
  assumes "mem_inv t" "mem_writable t" "entry_key (it_curr it)" "it_has it"
  shows "\<exists>t'. mem_delete_current t it = Inr t' \<and> mem_inv t' \<and> mem_writable t' \<and>
     mem_look t' = (mem_look t)(it_curr it := None)"
  using mem_del_ok [OF assms(1-3)] assms(4) by (auto simp: mem_delete_current_def)

lemma scan_entry_ok:
  assumes inv: "mem_inv t" "mem_writable t" and k: "entry_key k" "it_curr it = k" "it_has it" and d: "data_ok d"
  shows "\<exists>t' a'. scan_entry mem_get mem_put (\<lambda>t. mem_delete_current t it) now we k d t a = Inr (t', a') \<and>
     mem_inv t' \<and> mem_writable t' \<and> map_entry now we k d (mem_look t) a = (mem_look t', a')"
proof -
  let ?ip = "ip_key (t_ip (k_tuple k))" and ?d = "d\<lparr>d_expire := i64 (now + we)\<rparr>"
  obtain t1 where t1: "mem_delete_current t it = Inr t1" "mem_inv t1" "mem_writable t1"
    "mem_look t1 = (mem_look t)(k := None)" using delete_current_ok [OF inv, of it] k by auto
  have "data_ok ?d" using d by (simp add: data_ok_def i64_range)
  then obtain t2 where t2: "mem_put t ?ip ?d = Inr t2" "mem_inv t2" "mem_writable t2"
    "mem_look t2 = (mem_look t)(?ip \<mapsto> ?d)" using mem_put_ok [OF inv, of ?ip ?d] by auto
  obtain t3 where t3: "mem_delete_current t2 it = Inr t3" "mem_inv t3" "mem_writable t3"
    "mem_look t3 = (mem_look t2)(k := None)" using delete_current_ok [OF t2(2,3), of it] k by auto
  show ?thesis
    using inv t1 t2 t3 addr_state_ok [OF inv(1), of "t_ip (k_tuple k)"]
    by (auto simp: scan_entry_def map_entry_def expired_def split: option.splits if_splits)
qed

lemma next_key_skip:
  "decode_key ek = Inr k \<Longrightarrow> map_of (tx_data t (bucket_for (k_type k))) ek = None \<Longrightarrow>
     next_key t (ek # eks) = next_key t eks"
  by simp

lemma scan_loop_ok:
  assumes "mem_inv t" "mem_writable t" "\<forall>k \<in> set ks. entry_key k" "it_keys it = map encode_key ks"
  shows "\<exists>t' a'. scan_loop now we t it a = Inr (sa_res a', t') \<and> mem_inv t' \<and> mem_writable t' \<and>
     map_scan now we ks (mem_look t) a = (mem_look t', a')"
  using assms
proof (induction ks arbitrary: t it a)
  case Nil
  then have "mem_next t it = Inr (None, it\<lparr>it_keys := [], it_has := False\<rparr>)" by (simp add: mem_next_def)
  with Nil show ?case by (simp add: scan_loop.simps [of now we t it a])
next
  case (Cons k ks)
  have k: "entry_key k" "decode_key (encode_key k) = Inr k"
    using Cons.prems(3) by (auto intro: decode_encode_key entry_key_ok)
  show ?case
  proof (cases "mem_look t k")
    case None
    let ?it = "it\<lparr>it_keys := map encode_key ks\<rparr>"
    have "map_of (tx_data t (bucket_for (k_type k))) (encode_key k) = None"
      using None mem_look_none [OF Cons.prems(1) k(1)] by simp
    then have "next_key t (it_keys it) = next_key t (it_keys ?it)"
      using Cons.prems(4) next_key_skip [OF k(2)] by simp
    then have "mem_next t it = mem_next t ?it"
      by (auto simp: mem_next_def split: sum.splits option.splits)
    then have "scan_loop now we t it a = scan_loop now we t ?it a"
      by (simp only: scan_loop.simps [of now we t it a] scan_loop.simps [of now we t ?it a])
    with Cons.IH [of t ?it a] Cons.prems None show ?thesis by simp
  next
    case (Some d)
    then have d: "data_ok d" "map_of (tx_data t (bucket_for (k_type k))) (encode_key k) = Some (encode_data d)"
      using mem_look_some [OF Cons.prems(1) k(1)] by simp_all
    let ?it = "it\<lparr>it_keys := map encode_key ks, it_curr := k, it_has := True\<rparr>"
    have nx: "mem_next t it = Inr (Some (k, d), ?it)"
      using Cons.prems(4) k(2) d decode_encode_data [OF d(1)] by (simp add: mem_next_def)
    obtain t1 a1 where t1: "scan_entry mem_get mem_put (\<lambda>t. mem_delete_current t ?it) now we k d t a = Inr (t1, a1)"
      "mem_inv t1" "mem_writable t1" "map_entry now we k d (mem_look t) a = (mem_look t1, a1)"
      using scan_entry_ok [OF Cons.prems(1,2) k(1), of ?it d now we a] d(1) by auto
    have "scan_loop now we t it a = scan_loop now we t1 ?it a1"
      by (simp add: scan_loop.simps [of now we t it a] nx t1(1))
    with Cons.IH [OF t1(2,3), of ?it a1] Cons.prems(3) Some t1(4) show ?thesis by simp
  qed
qed

text \<open>The snapshot lists the addresses before the tuples, because their type byte is smaller.\<close>

lemma sorted_filter_split:
  assumes "sorted xs" "\<forall>x \<in> set xs. \<forall>y \<in> set xs. x \<le> y \<longrightarrow> P y \<longrightarrow> P x"
  shows "filter P xs @ filter (\<lambda>x. \<not> P x) xs = xs"
  using assms
proof (induction xs)
  case (Cons x xs)
  show ?case
  proof (cases "P x")
    case True
    have "sorted xs" using Cons.prems(1) by simp
    moreover have "\<forall>x \<in> set xs. \<forall>y \<in> set xs. x \<le> y \<longrightarrow> P y \<longrightarrow> P x"
      using Cons.prems(2) by (meson list.set_intros(2))
    ultimately have "filter P xs @ filter (\<lambda>x. \<not> P x) xs = xs" by (rule Cons.IH)
    with True show ?thesis by simp
  next
    case False
    have "\<not> P y" if y: "y \<in> set xs" for y
    proof
      assume "P y"
      moreover have "x \<le> y" using Cons.prems(1) y by simp
      ultimately have "P x" using Cons.prems(2) y by (meson list.set_intros)
      with False show False by contradiction
    qed
    then have "filter P (x # xs) = []" "filter (\<lambda>x. \<not> P x) (x # xs) = x # xs"
      using False by (simp_all add: filter_empty_conv filter_id_conv)
    then show ?thesis by simp
  qed
qed simp

lemma entries_key:
  assumes "bucket_key BucketEntries k"
  obtains ip where "k = ip_key ip" | t where "k = tuple_key t" "tuple_ok t"
proof -
  have "k_type k = KeyIP \<or> k_type k = KeyTuple" "key_ok k"
    using assms by (auto simp: bucket_key_def entry_key_def bucket_for_def split: if_splits)
  then show thesis
  proof (elim disjE)
    assume "k_type k = KeyIP" "key_ok k"
    then have "k = ip_key (k_str k)" by (simp add: key_ok_def ip_key_def)
    then show thesis by (rule that(1))
  next
    assume "k_type k = KeyTuple" "key_ok k"
    then have "k = tuple_key (k_tuple k)" "tuple_ok (k_tuple k)" by (simp_all add: key_ok_def tuple_key_def)
    then show thesis by (rule that(2))
  qed
qed

lemma encode_hd [simp]:
  "hd (encode_key (ip_key ip)) = CHR 0x01" "hd (encode_key (tuple_key t)) = CHR 0x03"
  "encode_key k \<noteq> []"
  by (simp_all add: encode_key_def ip_key_def tuple_key_def char_of_eq_iff)

lemma map_preimage:
  "\<forall>x \<in> set xs. \<exists>u. x = f u \<and> Q u \<Longrightarrow> \<exists>us. xs = map f us \<and> (\<forall>u \<in> set us. Q u)"
proof (induction xs)
  case (Cons x xs)
  then obtain u us where "x = f u" "Q u" "xs = map f us" "\<forall>u \<in> set us. Q u" by auto
  then show ?case by (intro exI [of _ "u # us"]) simp
qed simp

lemma snapshot_split:
  assumes "mem_inv t"
  obtains ips ts where "sort (map fst (tx_data t BucketEntries)) = map encode_key (map ip_key ips @ map tuple_key ts)"
    "\<forall>u \<in> set ts. tuple_ok u" "distinct ips" "distinct ts"
proof -
  let ?xs = "sort (map fst (tx_data t BucketEntries))"
  let ?P = "\<lambda>ek :: string. hd ek = CHR 0x01"
  have el: "\<exists>k. ek = encode_key k \<and> bucket_key BucketEntries k" if "ek \<in> set ?xs" for ek
    using assms that by (fastforce simp: mem_inv_def)
  have tup: "\<exists>u. ek = encode_key (tuple_key u) \<and> tuple_ok u" if "ek \<in> set ?xs" "\<not> ?P ek" for ek
    using el [OF that(1)] that(2) by (auto elim!: entries_key)
  have ip: "\<exists>ip. ek = encode_key (ip_key ip)" if "ek \<in> set ?xs" "?P ek" for ek
    using el [OF that(1)] that(2) by (auto elim!: entries_key)
  have "?P x" if x: "x \<in> set ?xs" and y: "y \<in> set ?xs" and xy: "x \<le> y" and py: "?P y" for x y
  proof (rule ccontr)
    assume "\<not> ?P x"
    then obtain u where "x = encode_key (tuple_key u)" using tup x by blast
    moreover obtain i where "y = encode_key (ip_key i)" using ip y py by blast
    ultimately have "CHR 0x03 # tl x \<le> CHR 0x01 # tl y"
      using xy encode_hd(1) [of i] encode_hd(2) [of u] by (metis encode_hd(3) list.collapse)
    then show False by (simp add: less_char_def)
  qed
  then have split: "filter ?P ?xs @ filter (\<lambda>x. \<not> ?P x) ?xs = ?xs"
    using sorted_filter_split [OF sorted_sort, of "map fst (tx_data t BucketEntries)" ?P] by blast
  obtain ips where ips: "filter ?P ?xs = map (\<lambda>ip. encode_key (ip_key ip)) ips"
    using ip map_preimage [of "filter ?P ?xs" "\<lambda>ip. encode_key (ip_key ip)" "\<lambda>_. True"] by auto
  obtain ts where ts: "filter (\<lambda>x. \<not> ?P x) ?xs = map (\<lambda>u. encode_key (tuple_key u)) ts" "\<forall>u \<in> set ts. tuple_ok u"
    using tup map_preimage [of "filter (\<lambda>x. \<not> ?P x) ?xs" "\<lambda>u. encode_key (tuple_key u)" tuple_ok] by auto
  have "distinct ?xs" using assms by (simp add: mem_inv_def)
  then have "distinct (filter ?P ?xs)" "distinct (filter (\<lambda>x. \<not> ?P x) ?xs)" by (simp_all only: distinct_filter)
  then have "distinct ips" "distinct ts" unfolding ips ts(1) by (simp_all add: distinct_map)
  moreover have "?xs = map encode_key (map ip_key ips @ map tuple_key ts)"
    using split unfolding ips ts(1) by (simp add: comp_def)
  ultimately show thesis using that ts(2) by blast
qed

lemma mem_look_mem:
  assumes "mem_inv t" "bucket_key b k"
  shows "mem_look t k \<noteq> None \<longleftrightarrow> encode_key k \<in> fst ` set (tx_data t b)"
  using assms mem_look_none [OF assms(1), of k] by (simp add: bucket_key_def map_of_eq_None_iff)

lemma mem_scan_ok:
  assumes inv: "mem_inv t" and w: "mem_writable t"
  shows "\<exists>r t'. mem_scan t now we = Inr (r, t') \<and> mem_inv t' \<and> mem_writable t' \<and> scan_spec now we (mem_look t) r (mem_look t')"
proof -
  obtain ips ts where snap: "sort (map fst (tx_data t BucketEntries)) = map encode_key (map ip_key ips @ map tuple_key ts)"
    "\<forall>u \<in> set ts. tuple_ok u" "distinct ips" "distinct ts"
    using snapshot_split [OF inv] .
  let ?ks = "map ip_key ips @ map tuple_key ts"
  have ks: "\<forall>k \<in> set ?ks. bucket_key BucketEntries k"
    using snap(2) by (auto simp: bucket_key_def bucket_for_def)
  have mem: "mem_look t k \<noteq> None \<longleftrightarrow> k \<in> set ?ks" if "bucket_key BucketEntries k" for k
  proof -
    have "fst ` set (tx_data t BucketEntries) = encode_key ` set ?ks"
      using arg_cong [OF snap(1), of set] by (simp only: set_sort set_map)
    moreover have "encode_key k \<in> encode_key ` set ?ks \<longleftrightarrow> k \<in> set ?ks"
      using ks that other_key [of k] by (auto simp only: bucket_key_def image_iff)
    ultimately show ?thesis using mem_look_mem [OF inv that] by simp
  qed
  obtain t' a' where loop: "scan_loop now we t (mem_iter t 1) empty_acc = Inr (sa_res a', t')"
    "mem_inv t'" "mem_writable t'" "map_scan now we ?ks (mem_look t) empty_acc = (mem_look t', a')"
    using scan_loop_ok [OF inv w, of ?ks "mem_iter t 1" now we empty_acc] ks snap(1)
    by (auto simp: bucket_key_def mem_iter_def)
  have "ip \<in> set ips \<longleftrightarrow> mem_look t (ip_key ip) \<noteq> None" for ip
    using mem [of "ip_key ip"] by (auto simp: bucket_key_def bucket_for_def)
  moreover have "u \<in> set ts \<longleftrightarrow> mem_look t (tuple_key u) \<noteq> None" for u
  proof (cases "tuple_ok u")
    case True
    then show ?thesis using mem [of "tuple_key u"] by (auto simp: bucket_key_def bucket_for_def)
  next
    case False
    then show ?thesis using snap(2) by (auto simp: mem_look_def)
  qed
  ultimately have "scan_spec now we (mem_look t) (sa_res a') (mem_look t')"
    using map_scan_spec [OF snap(3,4)] loop(4) by blast
  with loop(1-3) w show ?thesis by (auto simp: mem_scan_def kv_scan_def)
qed

lemma find_domain_ok:
  assumes "\<forall>ek \<in> set eks. \<exists>dom. ek = encode_key (domain_key dom)"
  shows "\<exists>d found. find_domain eks a = Inr (d, found) \<and>
     (found \<longleftrightarrow> (\<exists>dom. encode_key (domain_key dom) \<in> set eks \<and> domain_matches dom a))"
  using assms
proof (induction eks)
  case (Cons ek eks)
  then obtain dom where dom: "ek = encode_key (domain_key dom)" by auto
  have dec: "decode_key ek = Inr (domain_key dom)" by (simp add: dom decode_encode_key)
  show ?case
  proof (cases "domain_matches dom a")
    case True
    then show ?thesis using dec dom by (simp del: not_ex) blast
  next
    case False
    have "dom' = dom" if "encode_key (domain_key dom') = ek" for dom'
      using that dom other_key [of "domain_key dom'" "domain_key dom"] by auto
    with False have "(\<exists>dom'. encode_key (domain_key dom') \<in> set (ek # eks) \<and> domain_matches dom' a) \<longleftrightarrow>
        (\<exists>dom'. encode_key (domain_key dom') \<in> set eks \<and> domain_matches dom' a)" by auto
    moreover have "find_domain (ek # eks) a = find_domain eks a" using False dec by simp
    ultimately show ?thesis using Cons by simp
  qed
qed auto

lemma mem_get_domain:
  assumes inv: "mem_inv t"
  shows "\<exists>d. mem_get t (domain_part_key a) = Inr (d, \<exists>dom. mem_look t (domain_key dom) \<noteq> None \<and> domain_matches dom a)"
proof -
  have "\<exists>dom. ek = encode_key (domain_key dom)" if "ek \<in> set (map fst (tx_data t BucketDomains))" for ek
  proof -
    from that inv obtain k where k: "ek = encode_key k" "bucket_key BucketDomains k"
      by (fastforce simp: mem_inv_def)
    then have "k = domain_key (k_str k)"
      by (auto simp: bucket_key_def entry_key_def key_ok_def bucket_for_def domain_key_def split: if_splits)
    with k(1) show ?thesis by metis
  qed
  moreover have "encode_key (domain_key dom) \<in> set (map fst (tx_data t BucketDomains)) \<longleftrightarrow> mem_look t (domain_key dom) \<noteq> None" for dom
    using mem_look_mem [OF inv, of BucketDomains "domain_key dom"] by (simp add: bucket_key_def bucket_for_def)
  ultimately have "\<exists>d found. find_domain (map fst (tx_data t BucketDomains)) a = Inr (d, found) \<and>
      (found \<longleftrightarrow> (\<exists>dom. mem_look t (domain_key dom) \<noteq> None \<and> domain_matches dom a))"
    using find_domain_ok [of "map fst (tx_data t BucketDomains)" a] by simp
  then show ?thesis by (auto simp: mem_get_def simp del: not_None_eq)
qed

lemma mem_collect_ok:
  assumes "mem_inv t" "\<forall>k \<in> set ks. entry_key k" "it_keys it = map encode_key ks"
  shows "mem_collect t it = Inr (map (\<lambda>k. (k, the (mem_look t k))) (filter (\<lambda>k. mem_look t k \<noteq> None) ks))"
  using assms
proof (induction ks arbitrary: it)
  case Nil
  then show ?case by (simp add: mem_collect.simps [of t it] mem_next_def)
next
  case (Cons k ks)
  have k: "entry_key k" "decode_key (encode_key k) = Inr k"
    using Cons.prems(2) by (auto intro: decode_encode_key entry_key_ok)
  show ?case
  proof (cases "mem_look t k")
    case None
    let ?it = "it\<lparr>it_keys := map encode_key ks\<rparr>"
    have "map_of (tx_data t (bucket_for (k_type k))) (encode_key k) = None"
      using None mem_look_none [OF Cons.prems(1) k(1)] by simp
    then have "next_key t (it_keys it) = next_key t (it_keys ?it)"
      using Cons.prems(3) next_key_skip [OF k(2)] by simp
    then have "mem_next t it = mem_next t ?it"
      by (auto simp: mem_next_def split: sum.splits option.splits)
    then have "mem_collect t it = mem_collect t ?it"
      by (simp only: mem_collect.simps [of t it] mem_collect.simps [of t ?it])
    with Cons.IH [of ?it] Cons.prems None show ?thesis by simp
  next
    case (Some d)
    then have d: "data_ok d" "map_of (tx_data t (bucket_for (k_type k))) (encode_key k) = Some (encode_data d)"
      using mem_look_some [OF Cons.prems(1) k(1)] by simp_all
    let ?it = "it\<lparr>it_keys := map encode_key ks, it_curr := k, it_has := True\<rparr>"
    have nx: "mem_next t it = Inr (Some (k, d), ?it)"
      using Cons.prems(3) k(2) d decode_encode_data [OF d(1)] by (simp add: mem_next_def)
    from Cons.IH [of ?it] Cons.prems Some show ?thesis
      by (simp add: mem_collect.simps [of t it] nx)
  qed
qed

lemma bucket_keys:
  assumes inv: "mem_inv t"
  obtains ks where "sort (map fst (tx_data t b)) = map encode_key ks" "distinct ks"
    "\<And>k. k \<in> set ks \<longleftrightarrow> bucket_key b k \<and> mem_look t k \<noteq> None"
proof -
  let ?xs = "sort (map fst (tx_data t b))"
  have "\<forall>x \<in> set ?xs. \<exists>k. x = encode_key k \<and> bucket_key b k"
    using inv by (fastforce simp: mem_inv_def)
  from map_preimage [OF this] obtain ks where ks: "?xs = map encode_key ks" "\<forall>k \<in> set ks. bucket_key b k" by blast
  have "distinct ?xs" using inv by (simp add: mem_inv_def)
  then have dist: "distinct ks" unfolding ks(1) by (simp add: distinct_map)
  have "k \<in> set ks \<longleftrightarrow> bucket_key b k \<and> mem_look t k \<noteq> None" for k
  proof (cases "bucket_key b k")
    case True
    have "fst ` set (tx_data t b) = encode_key ` set ks"
      using arg_cong [OF ks(1), of set] by (simp only: set_sort set_map)
    moreover have "encode_key k \<in> encode_key ` set ks \<longleftrightarrow> k \<in> set ks"
      using ks(2) True other_key [of k] by (auto simp only: bucket_key_def image_iff)
    ultimately show ?thesis using mem_look_mem [OF inv True] True by simp
  next
    case False
    then show ?thesis using ks(2) by blast
  qed
  with ks(1) dist show thesis by (rule that)
qed

lemma mem_entries_ok:
  assumes inv: "mem_inv t"
  shows "\<exists>es. mem_entries t types = Inr es \<and> distinct (map fst es) \<and>
     (\<forall>k d. (k, d) \<in> set es \<longleftrightarrow> mem_look t k = Some d \<and> selected types k)"
proof -
  obtain k1 where k1: "sort (map fst (tx_data t BucketEntries)) = map encode_key k1" "distinct k1"
    "\<And>k. k \<in> set k1 \<longleftrightarrow> bucket_key BucketEntries k \<and> mem_look t k \<noteq> None" by (rule bucket_keys [OF inv]) blast
  obtain k2 where k2: "sort (map fst (tx_data t BucketSpamtraps)) = map encode_key k2" "distinct k2"
    "\<And>k. k \<in> set k2 \<longleftrightarrow> bucket_key BucketSpamtraps k \<and> mem_look t k \<noteq> None" by (rule bucket_keys [OF inv]) blast
  obtain k4 where k4: "sort (map fst (tx_data t BucketDomains)) = map encode_key k4" "distinct k4"
    "\<And>k. k \<in> set k4 \<longleftrightarrow> bucket_key BucketDomains k \<and> mem_look t k \<noteq> None" by (rule bucket_keys [OF inv]) blast
  define ks where "ks = (if types AND 1 = 0 then [] else k1) @ (if types AND 2 = 0 then [] else k2) @ (if types AND 4 = 0 then [] else k4)"
  have dist: "distinct ks" unfolding ks_def using k1(2,3) k2(2,3) k4(2,3) by (auto simp: bucket_key_def)
  have mem: "k \<in> set ks \<longleftrightarrow> mem_look t k \<noteq> None \<and> selected types k" for k
  proof -
    have "entry_key k" if "mem_look t k \<noteq> None" using that by (auto simp: mem_look_def split: if_splits)
    then show ?thesis unfolding ks_def
      by (cases "bucket_for (k_type k)") (auto simp: k1(3) k2(3) k4(3) selected_def kind_bit_def bucket_key_def)
  qed
  have ek: "\<forall>k \<in> set ks. entry_key k" using mem by (auto simp: mem_look_def split: if_splits)
  have "it_keys (mem_iter t types) = map encode_key ks"
    unfolding mem_iter_def ks_def Let_def by (simp add: k1(1) k2(1) k4(1))
  from mem_collect_ok [OF inv ek this]
  have "mem_entries t types = Inr (map (\<lambda>k. (k, the (mem_look t k))) ks)"
    using mem by (simp add: mem_entries_def filter_id_conv)
  moreover have "distinct (map fst (map (\<lambda>k. (k, the (mem_look t k))) ks))" using dist by (simp add: comp_def)
  moreover have "(k, d) \<in> set (map (\<lambda>k. (k, the (mem_look t k))) ks) \<longleftrightarrow> mem_look t k = Some d \<and> selected types k" for k d
    using mem [of k] by auto
  ultimately show ?thesis by blast
qed

definition mem_state :: "mem_store \<Rightarrow> mem_tx" where
  "mem_state s = \<lparr>tx_data = ms_data s, tx_read_only = True\<rparr>"

lemma mem_inv_data: "tx_data t = tx_data t' \<Longrightarrow> mem_inv t = mem_inv t'"
  by (simp add: mem_inv_def)

lemma mem_look_data: "tx_data t = tx_data t' \<Longrightarrow> mem_look t = mem_look t'"
  by (auto simp: mem_look_def)

interpretation mem_db: store_contract memory_ops mem_state "\<lambda>s. \<not> ms_read_only s" mem_inv mem_writable mem_look
proof (unfold_locales, goal_cases)
  case (1 t k d)
  then show ?case by (metis mem_look_def mem_look_some option.distinct(1))
next
  case (2 s)
  then show ?case by (auto simp: memory_ops_def mem_view_def mem_state_def)
next
  case (3 s)
  then show ?case
    using mem_inv_data [of "\<lparr>tx_data = ms_data s, tx_read_only = False\<rparr>" "mem_state s"]
      mem_look_data [of "\<lparr>tx_data = ms_data s, tx_read_only = False\<rparr>" "mem_state s"]
    by (simp add: memory_ops_def mem_update_def mem_state_def)
next
  case (4 t s)
  then show ?case
    using mem_inv_data [of "mem_state (mem_commit s t)" t] mem_look_data [of "mem_state (mem_commit s t)" t]
    by (simp add: memory_ops_def mem_commit_def mem_state_def)
qed (simp_all add: memory_ops_def mem_get_ok mem_get_domain mem_put_ok mem_del_ok mem_scan_ok mem_entries_ok del: not_None_eq)

subsection \<open>Properties of the driver\<close>

text \<open>
  C23: The driver refines a map from keys to entries: a lookup returns what the map holds, a write
  and a removal change it at their key alone, and the state invariant is kept. The invariant says
  that every bucket holds valid encodings of its own keys, each once.
\<close>

theorem memory_refines_map:
  assumes "mem_inv t" "\<not> tx_read_only t" "entry_key k" "data_ok d"
  shows "mem_get t k = Inr (case mem_look t k of None \<Rightarrow> (zero_data, False) | Some d \<Rightarrow> (d, True)) \<and>
    (\<exists>t'. mem_put t k d = Inr t' \<and> mem_inv t' \<and> mem_look t' = (mem_look t)(k \<mapsto> d)) \<and>
    (\<exists>t'. mem_del t k = Inr (mem_look t k \<noteq> None, t') \<and> mem_inv t' \<and> mem_look t' = (mem_look t)(k := None))"
  using mem_get_ok [OF assms(1,3)] mem_put_ok [OF assms] mem_del_ok [OF assms(1-3)] by blast

definition empty_tx :: mem_tx where
  "empty_tx = \<lparr>tx_data = new_database, tx_read_only = False\<rparr>"

lemma empty_tx_facts [simp]: "mem_inv empty_tx" "\<not> tx_read_only empty_tx" "mem_look empty_tx = Map.empty"
  by (auto simp: empty_tx_def mem_inv_def new_database_def mem_look_def)

theorem memory_refines_map_witness:
  "\<exists>t'. mem_put empty_tx (ip_key ''1.2.3.4'') zero_data = Inr t' \<and> mem_look t' (ip_key ''1.2.3.4'') = Some zero_data"
proof -
  have "data_ok zero_data" by (simp add: data_ok_def is_i64_def)
  then show ?thesis using memory_refines_map [of empty_tx "ip_key ''1.2.3.4''" zero_data] by auto
qed

text \<open>
  C12: \<open>Scan\<close> meets its specification on every database of the driver. Expired entries go; each
  address without an entry of its own that has a ready tuple is whitelisted from one such tuple,
  which is removed; all else stays. The whitelists and the traplist returned are exactly the
  white and the trapped addresses of the new contents, without repetition and split by family.
\<close>

theorem memory_scan_spec:
  assumes "mem_inv t" "\<not> tx_read_only t"
  shows "\<exists>r t'. mem_scan t now we = Inr (r, t') \<and> mem_inv t' \<and> scan_spec now we (mem_look t) r (mem_look t')"
  using mem_scan_ok [OF assms] by blast

theorem memory_scan_spec_witness:
  "\<exists>r t'. mem_scan empty_tx 5 7 = Inr (r, t') \<and> scan_spec 5 7 Map.empty r (mem_look t')"
  using memory_scan_spec [of empty_tx 5 7] by auto

text \<open>
  C35: Iteration over the kinds asked for returns exactly the entries of those kinds, each key once.
\<close>

theorem memory_iteration:
  assumes "mem_inv t"
  shows "\<exists>es. mem_entries t types = Inr es \<and> distinct (map fst es) \<and>
     (\<forall>k d. (k, d) \<in> set es \<longleftrightarrow> mem_look t k = Some d \<and> selected types k)"
  using assms by (rule mem_entries_ok)

theorem memory_iteration_witness: "mem_entries empty_tx 7 = Inr []"
proof -
  from memory_iteration [of empty_tx 7] obtain es where es: "mem_entries empty_tx 7 = Inr es"
    "\<forall>k d. (k, d) \<in> set es \<longleftrightarrow> mem_look empty_tx k = Some d \<and> selected 7 k" by auto
  then have "es = []" by (cases es) auto
  with es(1) show ?thesis by simp
qed

end
