(* ===== verification/Ipc_Codec.thy ===== *)
theory Ipc_Codec
  imports Core_Model "HOL-Library.AList"
begin

text \<open>
  The package \<open>internal/ipc\<close>: the text of messages, its parser, and the framing of messages on a
  stream. A scanner is the rest of its source; the position of an error is the number of bytes
  consumed, so it follows from the rest at the error. The table of assignments is a list of
  pairs with distinct names. Sanitising follows the rune-wise mapping of the Go library: a byte
  that is not part of a valid encoding becomes the replacement character.
\<close>

subsection \<open>Messages\<close>

record scan_stats =
  ss_at :: int
  ss_grey :: int
  ss_white :: int
  ss_trapped :: int
  ss_spamtrap :: int
  ss_domain :: int

datatype message =
    GreyMessage (gm_tuple: tuple) (gm_dst_ip: string) (gm_sync: bool)
  | AddrMessage (am_type: int) (am_ip: string) (am_source: string) (am_expires: string) (am_sync: bool) (am_delete: bool)
  | BlacklistMessage (bm_name: string) (bm_message: string) (bm_ips: "string list")
  | ReplaceRequest (rr_set: string) (rr_af: int) (rr_ips: "string list")
  | NATRequest (nr_src: string) (nr_src_port: u16) (nr_proxy: string) (nr_proxy_port: u16)
  | DstReply (dr_dst: string)
  | StatsRequest
  | StatsReply (sr_counters: "(string \<times> int) list") (sr_blacklists: "string list")
  | ScanStatsMessage scan_stats

datatype syntax_error =
    ExpectedName | ExpectedEquals string | ExpectedValue | UnterminatedList | UnexpectedInList char
  | UnexpectedChar char | DanglingEscape | UnterminatedString

datatype ipc_error =
    SyntaxError nat syntax_error | IncompleteError string | ErrUnknownMessage | ErrFrameTooLarge | ErrEOF

abbreviation (input) MsgGrey :: int where "MsgGrey \<equiv> 1"
abbreviation (input) MsgTrap :: int where "MsgTrap \<equiv> 2"
abbreviation (input) MsgWhite :: int where "MsgWhite \<equiv> 3"

datatype field_value = VInt int | VStr string | VList "string list"

type_synonym field_table = "(string \<times> field_value) list"

definition field_str :: "field_table \<Rightarrow> string \<Rightarrow> string option" where
  "field_str f name =
     (case map_of f name of
        None \<Rightarrow> None
      | Some (VList _) \<Rightarrow> None
      | Some (VInt n) \<Rightarrow> Some (itoa_int n)
      | Some (VStr s) \<Rightarrow> Some s)"

definition field_int :: "field_table \<Rightarrow> string \<Rightarrow> int option" where
  "field_int f name = (case map_of f name of Some (VInt n) \<Rightarrow> Some n | _ \<Rightarrow> None)"

definition field_strings :: "field_table \<Rightarrow> string \<Rightarrow> string list option" where
  "field_strings f name =
     (case map_of f name of
        None \<Rightarrow> None
      | Some (VList l) \<Rightarrow> Some l
      | Some (VStr s) \<Rightarrow> Some [s]
      | Some (VInt _) \<Rightarrow> None)"

subsection \<open>The scanner\<close>

type_synonym scan_error = "syntax_error \<times> string"

abbreviation lf :: char where
  "lf \<equiv> CHR 0x0A"

abbreviation dquote :: char where
  "dquote \<equiv> CHR 0x22"

abbreviation backslash :: char where
  "backslash \<equiv> CHR 0x5C"

definition is_separator :: "char \<Rightarrow> bool" where
  "is_separator c \<longleftrightarrow> c \<in> {CHR '' '', CHR 0x09, CHR 0x0D, lf, CHR '';'', CHR '',''}"

function skip_space :: "string \<Rightarrow> string" where
  "skip_space [] = []"
| "skip_space (c # cs) =
     (if is_separator c then skip_space cs
      else if c = CHR ''#'' then skip_space (dropWhile (\<lambda>d. d \<noteq> lf) cs)
      else c # cs)"
  by pat_completeness auto
termination
  by (relation "measure length") (auto simp: le_imp_less_Suc length_dropWhile_le)

definition is_name_char :: "char \<Rightarrow> bool" where
  "is_name_char c \<longleftrightarrow> c = CHR ''_'' \<or> 97 \<le> byte_at c \<and> byte_at c \<le> 122 \<or>
     65 \<le> byte_at c \<and> byte_at c \<le> 90 \<or> is_digit c"

definition scan_name :: "string \<Rightarrow> scan_error + string \<times> string" where
  "scan_name cs =
     (let nm = takeWhile is_name_char cs
      in if nm = [] then Inl (ExpectedName, cs) else Inr (nm, dropWhile is_name_char cs))"

definition scan_number :: "string \<Rightarrow> (int \<times> string) option" where
  "scan_number cs =
     (let ds = takeWhile is_digit cs
      in if ds = [] then None
         else case parse_int ds of None \<Rightarrow> None | Some n \<Rightarrow> Some (n, dropWhile is_digit cs))"

text \<open>The text after an opening quote, with the bytes read so far in reverse.\<close>

fun scan_quoted :: "string \<Rightarrow> string \<Rightarrow> scan_error + string \<times> string" where
  "scan_quoted acc [] = Inl (UnterminatedString, [])"
| "scan_quoted acc (c # cs) =
     (if c = backslash then
        (case cs of [] \<Rightarrow> Inl (DanglingEscape, []) | d # ds \<Rightarrow> scan_quoted (d # acc) ds)
      else if c = dquote then Inr (rev acc, cs)
      else scan_quoted (c # acc) cs)"

lemma skip_space_length: "length (skip_space cs) \<le> length cs"
proof (induction cs rule: skip_space.induct)
  case (2 c cs)
  then show ?case using length_dropWhile_le [of "\<lambda>d. d \<noteq> lf" cs] by auto
qed simp

lemma scan_number_length: "scan_number cs = Some (n, cs') \<Longrightarrow> length cs' < length cs"
  by (cases cs) (auto simp: scan_number_def Let_def le_imp_less_Suc length_dropWhile_le split: option.splits if_splits)

lemma scan_quoted_length: "scan_quoted acc cs = Inr (s, cs') \<Longrightarrow> length cs' < length cs"
proof (induction acc cs rule: scan_quoted.induct)
  case (2 acc c cs)
  then show ?case by (fastforce split: if_splits list.splits)
qed simp

function scan_list :: "string list \<Rightarrow> string \<Rightarrow> scan_error + string list \<times> string" where
  "scan_list l cs =
     (case skip_space cs of
        [] \<Rightarrow> Inl (UnterminatedList, [])
      | c # r \<Rightarrow>
          if c = CHR '']'' then Inr (l, r)
          else if c = dquote then
            (case scan_quoted [] r of Inl e \<Rightarrow> Inl e | Inr (s, r') \<Rightarrow> scan_list (l @ [s]) r')
          else (case scan_number (c # r) of
                  None \<Rightarrow> Inl (UnexpectedInList c, c # r)
                | Some (n, r') \<Rightarrow> scan_list (l @ [itoa_int n]) r'))"
  by pat_completeness auto
termination
proof (relation "measure (\<lambda>(l, cs). length cs)", goal_cases)
  case (2 l cs c r x s r')
  then have "length r' < length (skip_space cs)" using scan_quoted_length [of "[]" r s r'] by simp
  then show ?case using skip_space_length [of cs] by simp
next
  case (3 l cs c r x n r')
  then have "length r' < length (skip_space cs)" using scan_number_length [of "c # r" n r'] by simp
  then show ?case using skip_space_length [of cs] by simp
qed simp

declare scan_list.simps [simp del]

definition scan_value :: "string \<Rightarrow> scan_error + field_value \<times> string" where
  "scan_value cs =
     (case cs of
        [] \<Rightarrow> Inl (ExpectedValue, [])
      | c # r \<Rightarrow>
          if c = dquote then (case scan_quoted [] r of Inl e \<Rightarrow> Inl e | Inr (s, r') \<Rightarrow> Inr (VStr s, r'))
          else if c = CHR ''['' then (case scan_list [] r of Inl e \<Rightarrow> Inl e | Inr (l, r') \<Rightarrow> Inr (VList l, r'))
          else (case scan_number cs of
                  None \<Rightarrow> Inl (UnexpectedChar c, cs)
                | Some (n, r') \<Rightarrow> Inr (VInt n, r')))"

text \<open>One assignment, and the loop over all of them.\<close>

definition scan_assignment :: "string \<Rightarrow> scan_error + (string \<times> field_value) \<times> string" where
  "scan_assignment cs =
     (case scan_name cs of
        Inl e \<Rightarrow> Inl e
      | Inr (name, r) \<Rightarrow>
          (case skip_space r of
             CHR ''='' # r' \<Rightarrow>
               (case scan_value (skip_space r') of
                  Inl e \<Rightarrow> Inl e
                | Inr (v, r'') \<Rightarrow> Inr ((to_lower name, v), r''))
           | r' \<Rightarrow> Inl (ExpectedEquals name, r')))"

lemma scan_list_length: "scan_list l cs = Inr (l', cs') \<Longrightarrow> length cs' < length cs"
proof (induction l cs rule: scan_list.induct)
  case (1 l cs)
  note IH = 1
  show ?case
  proof (cases "skip_space cs")
    case Nil
    with IH(3) show ?thesis by (simp add: scan_list.simps [of l cs])
  next
    case (Cons c r)
    then have len: "length r < length cs" using skip_space_length [of cs] by simp
    consider (close) "c = CHR '']''" | (str) "c \<noteq> CHR '']''" "c = dquote" | (num) "c \<noteq> CHR '']''" "c \<noteq> dquote" by blast
    then show ?thesis
    proof cases
      case close
      with IH(3) Cons len show ?thesis by (simp add: scan_list.simps [of l cs])
    next
      case str
      with IH(3) Cons obtain s r' where r': "scan_quoted [] r = Inr (s, r')" "scan_list (l @ [s]) r' = Inr (l', cs')"
        by (auto simp: scan_list.simps [of l cs] split: sum.splits)
      from IH(1) [OF Cons str r'(1) refl r'(2)] scan_quoted_length [OF r'(1)] len show ?thesis by simp
    next
      case num
      with IH(3) Cons obtain n r' where r': "scan_number (c # r) = Some (n, r')" "scan_list (l @ [itoa_int n]) r' = Inr (l', cs')"
        by (auto simp: scan_list.simps [of l cs] split: option.splits)
      from IH(2) [OF Cons num r'(1) refl r'(2)] scan_number_length [OF r'(1)] len show ?thesis by simp
    qed
  qed
qed

lemma scan_value_length: "scan_value cs = Inr (v, cs') \<Longrightarrow> length cs' < length cs"
  by (auto simp: scan_value_def le_imp_less_Suc dest!: scan_quoted_length scan_list_length scan_number_length
      split: list.splits if_splits sum.splits option.splits)

lemma scan_assignment_length: "scan_assignment cs = Inr (a, cs') \<Longrightarrow> length cs' < length cs"
proof -
  assume "scan_assignment cs = Inr (a, cs')"
  then obtain name r r' v where r: "scan_name cs = Inr (name, r)" "skip_space r = CHR ''='' # r'"
    "scan_value (skip_space r') = Inr (v, cs')"
    by (auto simp: scan_assignment_def split: sum.splits list.splits if_splits char.splits bool.splits)
  have "length r \<le> length cs"
    using r(1) by (auto simp: scan_name_def Let_def length_dropWhile_le split: if_splits)
  moreover have "length r' < length r" using r(2) skip_space_length [of r] by simp
  moreover have "length cs' < length r'" using scan_value_length [OF r(3)] skip_space_length [of r'] by simp
  ultimately show ?thesis by simp
qed

function parse_loop :: "field_table \<Rightarrow> string \<Rightarrow> scan_error + field_table" where
  "parse_loop f cs =
     (case skip_space cs of
        [] \<Rightarrow> Inr f
      | c # r \<Rightarrow>
          (case scan_assignment (c # r) of
             Inl e \<Rightarrow> Inl e
           | Inr ((name, v), r') \<Rightarrow> parse_loop (AList.update name v f) r'))"
  by pat_completeness auto
termination
proof (relation "measure (\<lambda>(f, cs). length cs)", goal_cases)
  case (2 f cs c r x y r' name v)
  then have "length r' < length (skip_space cs)" using scan_assignment_length [of "c # r" "(name, v)" r'] by simp
  then show ?case using skip_space_length [of cs] by simp
qed simp

declare parse_loop.simps [simp del]

definition parse_fields :: "string \<Rightarrow> ipc_error + field_table" where
  "parse_fields body =
     (case parse_loop [] body of
        Inl (e, r) \<Rightarrow> Inl (SyntaxError (length body - length r) e)
      | Inr f \<Rightarrow> Inr f)"

subsection \<open>Classification\<close>

definition need :: "field_table \<Rightarrow> string \<Rightarrow> (string \<Rightarrow> ipc_error + 'a) \<Rightarrow> ipc_error + 'a" where
  "need f name k = (case field_str f name of None \<Rightarrow> Inl (IncompleteError name) | Some s \<Rightarrow> k s)"

definition or_empty :: "string option \<Rightarrow> string" where
  "or_empty s = (case s of None \<Rightarrow> [] | Some s \<Rightarrow> s)"

definition or_zero :: "int option \<Rightarrow> int" where
  "or_zero n = (case n of None \<Rightarrow> 0 | Some n \<Rightarrow> n)"

definition or_nil :: "string list option \<Rightarrow> string list" where
  "or_nil l = (case l of None \<Rightarrow> [] | Some l \<Rightarrow> l)"

definition sync_flag :: "field_table \<Rightarrow> bool" where
  "sync_flag f = (case field_int f ''sync'' of None \<Rightarrow> True | Some n \<Rightarrow> n \<noteq> 0)"

definition port_field :: "field_table \<Rightarrow> string \<Rightarrow> u16" where
  "port_field f name =
     (case field_int f name of Some p \<Rightarrow> if 0 \<le> p \<and> p \<le> 65535 then word_of_int p else 0 | None \<Rightarrow> 0)"

definition classify_number :: "field_table \<Rightarrow> int \<Rightarrow> ipc_error + message" where
  "classify_number f n =
     (if n = MsgGrey then
        need f ''ip'' (\<lambda>ip. need f ''helo'' (\<lambda>helo. need f ''from'' (\<lambda>from. need f ''to'' (\<lambda>to.
          Inr (GreyMessage \<lparr>t_ip = ip, t_helo = helo, t_from = from, t_to = to\<rparr>
                 (or_empty (field_str f ''dst_ip'')) (sync_flag f))))))
      else if n = MsgTrap \<or> n = MsgWhite then
        need f ''ip'' (\<lambda>ip. need f ''source'' (\<lambda>source. need f ''expires'' (\<lambda>expires.
          Inr (AddrMessage n ip source expires (sync_flag f)
                 (case field_int f ''delete'' of None \<Rightarrow> False | Some d \<Rightarrow> d \<noteq> 0)))))
      else Inl ErrUnknownMessage)"

definition counters_of :: "field_table \<Rightarrow> (string \<times> int) list" where
  "counters_of f = concat (map (\<lambda>(name, v). case v of VInt n \<Rightarrow> if name \<noteq> ''type'' then [(name, n)] else [] | _ \<Rightarrow> []) f)"

definition classify_string :: "field_table \<Rightarrow> string \<Rightarrow> ipc_error + message" where
  "classify_string f typ =
     (if typ = ''stats'' then Inr StatsRequest
      else if typ = ''stats_reply'' then Inr (StatsReply (counters_of f) (or_nil (field_strings f ''blacklists'')))
      else if typ = ''scan_stats'' then
        Inr (ScanStatsMessage
          \<lparr>ss_at = or_zero (field_int f ''at''), ss_grey = or_zero (field_int f ''grey''),
           ss_white = or_zero (field_int f ''white''), ss_trapped = or_zero (field_int f ''trapped''),
           ss_spamtrap = or_zero (field_int f ''spamtrap''), ss_domain = or_zero (field_int f ''domain'')\<rparr>)
      else if typ = ''replace'' then
        Inr (ReplaceRequest (or_empty (field_str f ''name''))
               (case field_int f ''af'' of None \<Rightarrow> 4 | Some af \<Rightarrow> af) (or_nil (field_strings f ''ips'')))
      else if typ = ''nat'' then
        Inr (NATRequest (or_empty (field_str f ''src'')) (port_field f ''src_port'')
               (or_empty (field_str f ''proxy'')) (port_field f ''proxy_port''))
      else Inl ErrUnknownMessage)"

definition classify :: "field_table \<Rightarrow> ipc_error + message" where
  "classify f =
     (case field_int f ''type'' of
        Some n \<Rightarrow> classify_number f n
      | None \<Rightarrow>
          (case field_str f ''type'' of
             Some typ \<Rightarrow> classify_string f typ
           | None \<Rightarrow>
               if map_of f ''ips'' \<noteq> None then
                 need f ''name'' (\<lambda>name. need f ''message'' (\<lambda>msg.
                   case field_strings f ''ips'' of
                     None \<Rightarrow> Inl (IncompleteError ''ips'')
                   | Some ips \<Rightarrow> Inr (BlacklistMessage name msg ips)))
               else (case field_str f ''dst'' of Some dst \<Rightarrow> Inr (DstReply dst) | None \<Rightarrow> Inl ErrUnknownMessage)))"

definition decode :: "string \<Rightarrow> ipc_error + message" where
  "decode body = (case parse_fields body of Inl e \<Rightarrow> Inl e | Inr f \<Rightarrow> classify f)"

subsection \<open>Framing\<close>

definition default_max_frame :: nat where
  "default_max_frame = 64 * 2 ^ 20"

definition trim_crlf :: "string \<Rightarrow> string" where
  "trim_crlf s = rev (dropWhile (\<lambda>c. c = CHR 0x0D \<or> c = lf) (rev s))"

text \<open>A line up to and including its line feed; the rest has no line feed at the end of the stream.\<close>

definition read_line :: "string \<Rightarrow> string \<times> string" where
  "read_line cs =
     (let l = takeWhile (\<lambda>c. c \<noteq> lf) cs; r = dropWhile (\<lambda>c. c \<noteq> lf) cs
      in case r of [] \<Rightarrow> (l, []) | c # r' \<Rightarrow> (l @ [lf], r'))"

lemma read_line_length: "cs \<noteq> [] \<Longrightarrow> length (snd (read_line cs)) < length cs"
proof -
  assume "cs \<noteq> []"
  moreover have "length (dropWhile (\<lambda>c. c \<noteq> lf) cs) \<le> length cs" by (rule length_dropWhile_le)
  ultimately show ?thesis by (auto simp: read_line_def Let_def split: list.splits)
qed

function next_raw :: "nat \<Rightarrow> string \<Rightarrow> string \<Rightarrow> (ipc_error + string) \<times> string" where
  "next_raw max_frame sb cs =
     (if cs = [] then (if sb = [] then Inl ErrEOF else Inr sb, [])
      else let (line, r) = read_line cs
           in if trim_crlf line = ''%%'' then (Inr sb, r)
              else if length sb + length line > max_frame then (Inl ErrFrameTooLarge, r)
              else next_raw max_frame (sb @ line) r)"
  by pat_completeness auto
termination
proof (relation "measure (\<lambda>(m, sb, cs). length cs)", goal_cases)
  case (2 max_frame sb cs x line r)
  then show ?case using read_line_length [of cs] by (simp, metis snd_conv)
qed simp

declare next_raw.simps [simp del]

definition next_message :: "nat \<Rightarrow> string \<Rightarrow> (ipc_error + message) \<times> string" where
  "next_message max_frame cs =
     (case next_raw max_frame [] cs of
        (Inl e, r) \<Rightarrow> (Inl e, r)
      | (Inr body, r) \<Rightarrow> (decode body, r))"

end
