(* ===== verification/Ipc_Writer.thy ===== *)
theory Ipc_Writer
  imports Ipc_Codec
begin

text \<open>
  The writers of \<open>internal/ipc/writer.go\<close> as functions that return the bytes written, and the
  round trips: what the reader makes of a frame that a writer produced.
\<close>

subsection \<open>Sanitising\<close>

definition in_bytes :: "nat \<Rightarrow> nat \<Rightarrow> char \<Rightarrow> bool" where
  "in_bytes lo hi c \<longleftrightarrow> lo \<le> byte_at c \<and> byte_at c \<le> hi"

definition cont_at :: "string \<Rightarrow> nat \<Rightarrow> nat \<Rightarrow> nat \<Rightarrow> bool" where
  "cont_at cs i lo hi \<longleftrightarrow> i < length cs \<and> in_bytes lo hi (cs ! i)"

text \<open>The range of the second byte depends on the first one.\<close>

definition second_lo :: "char \<Rightarrow> nat" where
  "second_lo c = (if byte_at c = 0xE0 then 0xA0 else if byte_at c = 0xF0 then 0x90 else 0x80)"

definition second_hi :: "char \<Rightarrow> nat" where
  "second_hi c = (if byte_at c = 0xED then 0x9F else if byte_at c = 0xF4 then 0x8F else 0xBF)"

text \<open>The length of the valid encoding at the head of a text, 0 when there is none.\<close>

fun rune_len :: "string \<Rightarrow> nat" where
  "rune_len [] = 0"
| "rune_len (c # cs) =
     (if byte_at c < 0x80 then 1
      else if in_bytes 0xC2 0xDF c then (if cont_at cs 0 (second_lo c) (second_hi c) then 2 else 0)
      else if in_bytes 0xE0 0xEF c then
        (if cont_at cs 0 (second_lo c) (second_hi c) \<and> cont_at cs 1 0x80 0xBF then 3 else 0)
      else if in_bytes 0xF0 0xF4 c then
        (if cont_at cs 0 (second_lo c) (second_hi c) \<and> cont_at cs 1 0x80 0xBF \<and> cont_at cs 2 0x80 0xBF then 4 else 0)
      else 0)"

declare rune_len.simps [simp del]

definition replacement :: string where
  "replacement = [CHR 0xEF, CHR 0xBF, CHR 0xBD]"

function strip_runes :: "string \<Rightarrow> string" where
  "strip_runes [] = []"
| "strip_runes (c # cs) =
     (let n = rune_len (c # cs)
      in if c = dquote \<or> c = backslash then strip_runes cs
         else if n = 0 then replacement @ strip_runes cs
         else take n (c # cs) @ strip_runes (drop n (c # cs)))"
  by pat_completeness auto
termination
  by (relation "measure length") (auto simp: Let_def)

definition sanitize :: "string \<Rightarrow> string" where
  "sanitize v = (if dquote \<in> set v \<or> backslash \<in> set v then strip_runes v else v)"

subsection \<open>Writers\<close>

definition str_field :: "string \<Rightarrow> string \<Rightarrow> string" where
  "str_field name v = name @ '' = '' @ dquote # v @ [dquote, lf]"

definition safe_str :: "string \<Rightarrow> string \<Rightarrow> string" where
  "safe_str name v = str_field name (sanitize v)"

definition int_field :: "string \<Rightarrow> int \<Rightarrow> string" where
  "int_field name v = name @ '' = '' @ itoa_int v @ [lf]"

fun quoted_list :: "string list \<Rightarrow> string" where
  "quoted_list [] = []"
| "quoted_list [v] = dquote # v @ [dquote]"
| "quoted_list (v # vs) = dquote # v @ dquote # CHR '','' # quoted_list vs"

definition str_list :: "string \<Rightarrow> string list \<Rightarrow> string" where
  "str_list name vals = name @ ''=['' @ quoted_list vals @ CHR '']'' # [lf]"

definition frame :: "string \<Rightarrow> string" where
  "frame body = body @ ''%%'' @ [lf]"

definition blacklist_ip :: "string \<Rightarrow> string" where
  "blacklist_ip addr =
     (if CHR ''/'' \<in> set addr then addr
      else addr @ CHR ''/'' # itoa (if check_addr addr = 4 then 32 else 128))"

definition bare_str :: "string \<Rightarrow> string \<Rightarrow> string" where
  "bare_str name v = name @ CHR ''='' # dquote # v @ [dquote, lf]"

definition bare_int :: "string \<Rightarrow> int \<Rightarrow> string" where
  "bare_int name v = name @ CHR ''='' # itoa_int v @ [lf]"

definition write_blacklist :: "string \<Rightarrow> string \<Rightarrow> string list \<Rightarrow> string" where
  "write_blacklist name message ips =
     (if ips = [] then []
      else frame (bare_str ''name'' name @ bare_str ''message'' message @ str_list ''ips'' (map blacklist_ip ips)))"

definition write_grey :: "string \<Rightarrow> string \<Rightarrow> string \<Rightarrow> string \<Rightarrow> string \<Rightarrow> string" where
  "write_grey dst_ip ip helo from to =
     frame (int_field ''type'' MsgGrey @ safe_str ''dst_ip'' dst_ip @ safe_str ''ip'' ip @
            safe_str ''helo'' helo @ safe_str ''from'' from @ safe_str ''to'' to)"

definition write_grey_from_sync :: "string \<Rightarrow> string \<Rightarrow> string \<Rightarrow> string \<Rightarrow> string" where
  "write_grey_from_sync ip helo from to =
     frame (int_field ''type'' MsgGrey @ int_field ''sync'' 0 @ safe_str ''ip'' ip @
            safe_str ''helo'' helo @ safe_str ''from'' from @ safe_str ''to'' to)"

definition write_addr :: "int \<Rightarrow> string \<Rightarrow> string \<Rightarrow> u32 \<Rightarrow> bool \<Rightarrow> string" where
  "write_addr msg_type ip source expires del =
     frame (int_field ''type'' msg_type @ int_field ''sync'' 0 @ safe_str ''ip'' ip @ safe_str ''source'' source @
            str_field ''expires'' (itoa (unat expires)) @ int_field ''delete'' (if del then 1 else 0))"

definition write_replace :: "string \<Rightarrow> int \<Rightarrow> string list \<Rightarrow> string" where
  "write_replace set_name af ips =
     frame (bare_str ''type'' ''replace'' @ bare_str ''name'' (sanitize set_name) @ bare_int ''af'' af @
            str_list ''ips'' (map sanitize ips))"

definition write_nat :: "string \<Rightarrow> u16 \<Rightarrow> string \<Rightarrow> u16 \<Rightarrow> string" where
  "write_nat src src_port proxy proxy_port =
     frame (bare_str ''type'' ''nat'' @ bare_str ''src'' (sanitize src) @ bare_int ''src_port'' (uint src_port) @
            bare_str ''proxy'' (sanitize proxy) @ bare_int ''proxy_port'' (uint proxy_port))"

definition write_dst :: "string \<Rightarrow> string" where
  "write_dst dst = frame (bare_str ''dst'' (sanitize dst))"

definition write_stats_request :: string where
  "write_stats_request = frame (str_field ''type'' ''stats'')"

definition write_stats_reply :: "(string \<times> int) list \<Rightarrow> string list \<Rightarrow> string" where
  "write_stats_reply counters blacklists =
     frame (str_field ''type'' ''stats_reply'' @
            concat (map (\<lambda>n. int_field n (case map_of counters n of None \<Rightarrow> 0 | Some v \<Rightarrow> v)) (sort (map fst counters))) @
            (if blacklists = [] then [] else str_list ''blacklists'' blacklists))"

definition write_scan_stats :: "scan_stats \<Rightarrow> string" where
  "write_scan_stats s =
     frame (str_field ''type'' ''scan_stats'' @ int_field ''at'' (ss_at s) @ int_field ''grey'' (ss_grey s) @
            int_field ''white'' (ss_white s) @ int_field ''trapped'' (ss_trapped s) @
            int_field ''spamtrap'' (ss_spamtrap s) @ int_field ''domain'' (ss_domain s))"

subsection \<open>Reading what was written\<close>

text \<open>Text that a quoted string carries unchanged.\<close>

definition plain_text :: "string \<Rightarrow> bool" where
  "plain_text s \<longleftrightarrow> dquote \<notin> set s \<and> backslash \<notin> set s"

lemma plain_text_simps [simp]:
  "plain_text []" "plain_text (c # s) \<longleftrightarrow> c \<noteq> dquote \<and> c \<noteq> backslash \<and> plain_text s"
  "plain_text (s @ t) \<longleftrightarrow> plain_text s \<and> plain_text t"
  by (auto simp: plain_text_def)

lemma cont_at_high:
  "cont_at cs i (second_lo c) hi \<Longrightarrow> 0x80 \<le> byte_at (cs ! i)" "cont_at cs i 0x80 hi \<Longrightarrow> 0x80 \<le> byte_at (cs ! i)"
  by (auto simp: cont_at_def in_bytes_def second_lo_def split: if_splits)

lemma rune_len_cases:
  "rune_len (c # cs) \<le> 1 \<or>
   rune_len (c # cs) = 2 \<and> 0x80 \<le> byte_at (cs ! 0) \<or>
   rune_len (c # cs) = 3 \<and> 0x80 \<le> byte_at (cs ! 0) \<and> 0x80 \<le> byte_at (cs ! 1) \<or>
   rune_len (c # cs) = 4 \<and> 0x80 \<le> byte_at (cs ! 0) \<and> 0x80 \<le> byte_at (cs ! 1) \<and> 0x80 \<le> byte_at (cs ! 2)"
  unfolding rune_len.simps using cont_at_high(1) [of cs 0 c] cont_at_high(2) [of cs 1] cont_at_high(2) [of cs 2] by simp

lemma rune_len_tail: "x \<in> set (take (rune_len (c # cs) - 1) cs) \<Longrightarrow> 0x80 \<le> byte_at x"
proof -
  assume "x \<in> set (take (rune_len (c # cs) - 1) cs)"
  then obtain i where i: "i < rune_len (c # cs) - 1" "x = cs ! i"
    by (auto simp: in_set_conv_nth)
  have "i = 0 \<or> i = 1 \<or> i = 2" "rune_len (c # cs) = 2 \<Longrightarrow> i = 0" "rune_len (c # cs) = 3 \<Longrightarrow> i = 0 \<or> i = 1"
    using i(1) rune_len_cases [of c cs] by (linarith, linarith, linarith)
  then show ?thesis using rune_len_cases [of c cs] i by (auto)
qed

lemma rune_tail_char: "0x80 \<le> byte_at x \<Longrightarrow> x \<noteq> dquote \<and> x \<noteq> backslash \<and> x \<noteq> lf"
  by auto

lemma take_rune: "0 < rune_len (c # cs) \<Longrightarrow> x \<in> set (take (rune_len (c # cs)) (c # cs)) \<Longrightarrow>
    x = c \<or> x \<noteq> dquote \<and> x \<noteq> backslash \<and> x \<noteq> lf"
  using rune_len_tail [of x c cs] rune_tail_char [of x] by (cases "rune_len (c # cs)") (auto)

lemma strip_runes_plain: "plain_text (strip_runes v)"
proof (induction v rule: strip_runes.induct)
  case (2 c cs)
  have "plain_text (take (rune_len (c # cs)) (c # cs))"
    if "c \<noteq> dquote" "c \<noteq> backslash" "rune_len (c # cs) \<noteq> 0"
    unfolding plain_text_def using take_rune [of c cs] that by blast
  with 2 show ?case by (auto simp: Let_def replacement_def)
qed simp

lemma strip_runes_line: "lf \<notin> set v \<Longrightarrow> lf \<notin> set (strip_runes v)"
proof (induction v rule: strip_runes.induct)
  case (2 c cs)
  have "lf \<notin> set (take (rune_len (c # cs)) (c # cs))" "lf \<notin> set (drop (rune_len (c # cs)) (c # cs))"
    using "2.prems" by (meson in_set_takeD in_set_dropD)+
  with 2 show ?case by (auto simp: Let_def replacement_def)
qed simp

lemma sanitize_plain [simp]: "plain_text (sanitize v)"
  by (simp add: sanitize_def strip_runes_plain) (simp add: plain_text_def)

lemma sanitize_line [simp]: "lf \<notin> set v \<Longrightarrow> lf \<notin> set (sanitize v)"
  by (simp add: sanitize_def strip_runes_line)

lemma sanitize_id [simp]: "plain_text v \<Longrightarrow> sanitize v = v"
  by (simp add: sanitize_def plain_text_def)

lemma scan_quoted_plain: "plain_text s \<Longrightarrow> scan_quoted acc (s @ dquote # r) = Inr (rev acc @ s, r)"
  by (induction s arbitrary: acc) auto

lemma skip_space_fixed: "cs = [] \<or> \<not> is_separator (hd cs) \<and> hd cs \<noteq> CHR ''#'' \<Longrightarrow> skip_space cs = cs"
  by (cases cs) auto

lemma is_separator_simps [simp]:
  "is_separator (CHR '' '')" "is_separator lf" "is_separator (CHR '','')"
  "\<not> is_separator dquote" "\<not> is_separator (CHR ''='')" "\<not> is_separator (CHR ''['')" "\<not> is_separator (CHR '']'')"
  by (simp_all add: is_separator_def)

lemma name_char_not_separator: "is_name_char c \<Longrightarrow> \<not> is_separator c \<and> c \<noteq> CHR ''#'' \<and> c \<noteq> CHR ''=''"
  by (auto simp: is_name_char_def is_separator_def is_digit_def)

definition name_ok :: "string \<Rightarrow> bool" where
  "name_ok name \<longleftrightarrow> name \<noteq> [] \<and> list_all is_name_char name \<and> to_lower name = name"

lemma scan_name_ok:
  assumes "name_ok name" "\<not> is_name_char c"
  shows "scan_name (name @ c # r) = Inr (name, c # r)"
proof -
  have "takeWhile is_name_char (name @ c # r) = name" "dropWhile is_name_char (name @ c # r) = c # r"
    using assms by (auto simp: name_ok_def list_all_iff intro: takeWhile_append_stop dropWhile_append_stop)
  then show ?thesis using assms by (simp add: scan_name_def name_ok_def)
qed

lemma not_name_char [simp]: "\<not> is_name_char (CHR '' '')" "\<not> is_name_char (CHR ''='')"
  by (simp_all add: is_name_char_def is_digit_def)

lemma scan_assignment_spaced:
  assumes "name_ok name" "scan_value (skip_space cs) = Inr (v, r)"
  shows "scan_assignment (name @ CHR '' '' # CHR ''='' # cs) = Inr ((name, v), r)"
  using assms scan_name_ok [OF assms(1), of "CHR '' ''" "CHR ''='' # cs"]
  by (simp add: scan_assignment_def name_ok_def)

lemma scan_assignment_bare:
  assumes "name_ok name" "scan_value (skip_space cs) = Inr (v, r)"
  shows "scan_assignment (name @ CHR ''='' # cs) = Inr ((name, v), r)"
  using assms scan_name_ok [OF assms(1), of "CHR ''=''" cs]
  by (simp add: scan_assignment_def name_ok_def)

lemma parse_loop_step:
  assumes "name_ok name" "scan_assignment (name @ cs) = Inr ((n, v), lf # r)"
  shows "parse_loop f (name @ cs) = parse_loop (AList.update n v f) r"
proof -
  obtain c name' where c: "name = c # name'" "is_name_char c"
    using assms(1) by (cases name) (auto simp: name_ok_def)
  then have sk: "skip_space (name @ cs) = c # (name' @ cs)" using name_char_not_separator [of c] by simp
  have as: "scan_assignment (c # (name' @ cs)) = Inr ((n, v), lf # r)" using assms(2) c(1) by simp
  have "parse_loop f (name @ cs) = parse_loop (AList.update n v f) (lf # r)"
    unfolding parse_loop.simps [of f "name @ cs"] sk by (simp add: as)
  also have "\<dots> = parse_loop (AList.update n v f) r"
    by (simp add: parse_loop.simps [of _ "lf # r"] parse_loop.simps [of _ r])
  finally show ?thesis .
qed

lemma parse_loop_Nil [simp]: "parse_loop f [] = Inr f"
  by (simp add: parse_loop.simps)

lemma scan_value_str: "plain_text v \<Longrightarrow> scan_value (dquote # v @ dquote # r) = Inr (VStr v, r)"
  by (simp add: scan_value_def scan_quoted_plain)

lemma parse_str_field [simp]:
  "name_ok name \<Longrightarrow> plain_text v \<Longrightarrow> parse_loop f (str_field name v @ r) = parse_loop (AList.update name (VStr v) f) r"
  unfolding str_field_def using scan_value_str [of v "lf # r"]
  by (simp, intro parse_loop_step scan_assignment_spaced) simp_all

lemma parse_bare_str [simp]:
  "name_ok name \<Longrightarrow> plain_text v \<Longrightarrow> parse_loop f (bare_str name v @ r) = parse_loop (AList.update name (VStr v) f) r"
  unfolding bare_str_def using scan_value_str [of v "lf # r"]
  by (simp, intro parse_loop_step scan_assignment_bare) simp_all

lemma parse_safe_str [simp]:
  "name_ok name \<Longrightarrow> parse_loop f (safe_str name v @ r) = parse_loop (AList.update name (VStr (sanitize v)) f) r"
  by (simp add: safe_str_def)

lemma digit_head: "is_digit c \<Longrightarrow> \<not> is_separator c \<and> c \<noteq> CHR ''#'' \<and> c \<noteq> dquote \<and> c \<noteq> CHR ''['' \<and> c \<noteq> CHR '']''"
  by (auto simp: is_digit_def is_separator_def)

lemma scan_number_int:
  assumes "0 \<le> n" "is_i64 n" "\<not> is_digit c"
  shows "scan_number (itoa_int n @ c # r) = Some (n, c # r)"
proof -
  have "itoa_int n = itoa (nat n)" using assms(1) by (simp add: itoa_int_def)
  moreover have "takeWhile is_digit (itoa (nat n) @ c # r) = itoa (nat n)"
    "dropWhile is_digit (itoa (nat n) @ c # r) = c # r"
    using assms(3) by (auto intro!: takeWhile_append_stop dropWhile_append_stop dest: itoa_set)
  moreover have "parse_int (itoa_int n) = Some n" by (rule parse_int_itoa_int [OF assms(2)])
  ultimately show ?thesis by (simp add: scan_number_def)
qed

lemma scan_value_int:
  assumes "0 \<le> n" "is_i64 n"
  shows "scan_value (skip_space (itoa_int n @ lf # r)) = Inr (VInt n, lf # r)"
proof -
  obtain c ds where ds: "itoa (nat n) = c # ds" by (cases "itoa (nat n)") auto
  have c: "is_digit c" using itoa_set [of c "nat n"] ds by simp
  have i: "itoa_int n = c # ds" using assms(1) ds by (simp add: itoa_int_def)
  have "scan_number (c # ds @ lf # r) = Some (n, lf # r)"
    using scan_number_int [OF assms, of lf r] i by (simp add: is_digit_def)
  then show ?thesis using digit_head [OF c] by (simp add: i scan_value_def)
qed

lemma parse_int_field [simp]:
  "name_ok name \<Longrightarrow> 0 \<le> n \<Longrightarrow> is_i64 n \<Longrightarrow>
     parse_loop f (int_field name n @ r) = parse_loop (AList.update name (VInt n) f) r"
  unfolding int_field_def using scan_value_int [of n r]
  by (simp, intro parse_loop_step scan_assignment_spaced) simp_all

lemma parse_bare_int [simp]:
  "name_ok name \<Longrightarrow> 0 \<le> n \<Longrightarrow> is_i64 n \<Longrightarrow>
     parse_loop f (bare_int name n @ r) = parse_loop (AList.update name (VInt n) f) r"
  unfolding bare_int_def using scan_value_int [of n r]
  by (simp, intro parse_loop_step scan_assignment_bare) simp_all

lemma scan_list_plain:
  "list_all plain_text vs \<Longrightarrow> scan_list l (quoted_list vs @ CHR '']'' # r) = Inr (l @ vs, r)"
proof (induction vs arbitrary: l rule: quoted_list.induct)
  case 1
  then show ?case by (simp add: scan_list.simps)
next
  case (2 v)
  then show ?case by (simp add: scan_list.simps [of _ "dquote # _"] scan_quoted_plain) (simp add: scan_list.simps)
next
  case (3 v w vs)
  have "scan_list (l @ [v]) (CHR '','' # quoted_list (w # vs) @ CHR '']'' # r) =
      scan_list (l @ [v]) (quoted_list (w # vs) @ CHR '']'' # r)"
    by (simp add: scan_list.simps [of "l @ [v]"])
  with 3 show ?case by (simp add: scan_list.simps [of l] scan_quoted_plain)
qed

lemma parse_str_list [simp]:
  "name_ok name \<Longrightarrow> list_all plain_text vs \<Longrightarrow>
     parse_loop f (str_list name vs @ r) = parse_loop (AList.update name (VList vs) f) r"
  unfolding str_list_def
  by (simp, intro parse_loop_step scan_assignment_bare) (simp_all add: scan_value_def scan_list_plain)

lemmas parse_field_ends [simp] = parse_str_field [where r = "[]", simplified] parse_safe_str [where r = "[]", simplified]
  parse_bare_str [where r = "[]", simplified] parse_int_field [where r = "[]", simplified]
  parse_bare_int [where r = "[]", simplified] parse_str_list [where r = "[]", simplified]

subsection \<open>Frames on a stream\<close>

text \<open>One line of a body: it ends at its only line feed and does not look like a terminator.\<close>

definition body_line :: "string \<Rightarrow> bool" where
  "body_line t \<longleftrightarrow> (\<exists>c u. t = c # u @ [lf] \<and> is_name_char c \<and> lf \<notin> set u)"

lemma dropWhile_rev_last: "\<not> P c \<Longrightarrow> dropWhile P (rev (c # u)) \<noteq> [] \<and> last (dropWhile P (rev (c # u))) = c"
  by (induction u rule: rev_induct) auto

lemma trim_body_line: "is_name_char c \<Longrightarrow> trim_crlf (c # u) \<noteq> ''%%''"
proof -
  assume c: "is_name_char c"
  then have "\<not> (c = CHR 0x0D \<or> c = lf)" using name_char_not_separator [of c] by (auto simp: is_separator_def)
  then have "hd (trim_crlf (c # u)) = c"
    using dropWhile_rev_last [of "\<lambda>c. c = CHR 0x0D \<or> c = lf" c u] unfolding trim_crlf_def hd_rev by blast
  moreover have "c \<noteq> CHR ''%''" using c by (auto simp: is_name_char_def is_digit_def)
  ultimately show ?thesis by auto
qed

lemma read_line_lf: "lf \<notin> set l \<Longrightarrow> read_line (l @ lf # r) = (l @ [lf], r)"
proof -
  assume "lf \<notin> set l"
  then have "takeWhile (\<lambda>c. c \<noteq> lf) (l @ lf # r) = l" "dropWhile (\<lambda>c. c \<noteq> lf) (l @ lf # r) = lf # r"
    by (auto intro: takeWhile_append_stop dropWhile_append_stop)
  then show ?thesis by (simp add: read_line_def Let_def)
qed

lemma next_raw_line:
  assumes "body_line t" "length sb + length t \<le> m"
  shows "next_raw m sb (t @ r) = next_raw m (sb @ t) r"
proof -
  obtain c u where t: "t = c # u @ [lf]" "is_name_char c" "lf \<notin> set u" using assms(1) by (auto simp: body_line_def)
  then have "c \<noteq> lf" using name_char_not_separator [of c] by (auto simp: is_separator_def)
  then have "read_line (t @ r) = (t, r)" using read_line_lf [of "c # u" r] t by simp
  moreover have "trim_crlf t \<noteq> ''%%''" using trim_body_line [OF t(2), of "u @ [lf]"] t(1) by simp
  moreover have "t @ r \<noteq> []" using t(1) by simp
  ultimately show ?thesis using assms(2) by (simp only: next_raw.simps [of m sb "t @ r"]) simp
qed

lemma next_raw_lines:
  "list_all body_line ts \<Longrightarrow> length sb + length (concat ts) \<le> m \<Longrightarrow>
     next_raw m sb (concat ts @ r) = next_raw m (sb @ concat ts) r"
  by (induction ts arbitrary: sb) (auto simp: next_raw_line)

lemma next_raw_end: "next_raw m sb (''%%'' @ lf # r) = (Inr sb, r)"
  using read_line_lf [of "''%%''" r] by (simp add: next_raw.simps [of m sb] trim_crlf_def)

lemma next_message_frame:
  assumes "list_all body_line ts" "length (frame (concat ts)) \<le> m"
  shows "next_message m (frame (concat ts) @ r) = (decode (concat ts), r)"
  using next_raw_lines [of ts "[]" m "''%%'' @ lf # r"] next_raw_end [of m "concat ts" r] assms
  by (simp add: frame_def next_message_def)

lemma body_line_name:
  assumes "name_ok name" "lf \<notin> set u"
  shows "body_line (name @ u @ [lf])"
proof -
  obtain c n where n: "name = c # n" "is_name_char c" "list_all is_name_char n"
    using assms(1) by (cases name) (auto simp: name_ok_def)
  have "lf \<notin> set n" using n(3) name_char_not_separator [of lf] by (auto simp: list_all_iff)
  with n assms(2) show ?thesis unfolding body_line_def by (intro exI [of _ c] exI [of _ "n @ u"]) simp
qed

lemma itoa_int_line: "lf \<notin> set (itoa_int n)"
  using itoa_set [of lf] by (auto simp: itoa_int_def is_digit_def)

lemma quoted_list_line: "list_all (\<lambda>v. lf \<notin> set v) vs \<Longrightarrow> lf \<notin> set (quoted_list vs)"
  by (induction vs rule: quoted_list.induct) auto

lemma body_lines [simp]:
  "name_ok name \<Longrightarrow> lf \<notin> set v \<Longrightarrow> body_line (str_field name v)"
  "name_ok name \<Longrightarrow> lf \<notin> set v \<Longrightarrow> body_line (safe_str name v)"
  "name_ok name \<Longrightarrow> lf \<notin> set v \<Longrightarrow> body_line (bare_str name v)"
  "name_ok name \<Longrightarrow> body_line (int_field name n)"
  "name_ok name \<Longrightarrow> body_line (bare_int name n)"
  "name_ok name \<Longrightarrow> list_all (\<lambda>v. lf \<notin> set v) vs \<Longrightarrow> body_line (str_list name vs)"
  using body_line_name [of name "'' = '' @ dquote # v @ [dquote]"]
    body_line_name [of name "'' = '' @ dquote # sanitize v @ [dquote]"]
    body_line_name [of name "CHR ''='' # dquote # v @ [dquote]"]
    body_line_name [of name "'' = '' @ itoa_int n"] body_line_name [of name "CHR ''='' # itoa_int n"]
    body_line_name [of name "''=['' @ quoted_list vs @ [CHR '']'']"]
  by (simp_all add: str_field_def safe_str_def bare_str_def int_field_def bare_int_def str_list_def
      itoa_int_line quoted_list_line)

lemma names_ok [simp]:
  "name_ok ''type''" "name_ok ''dst_ip''" "name_ok ''ip''" "name_ok ''helo''" "name_ok ''from''" "name_ok ''to''"
  "name_ok ''sync''" "name_ok ''source''" "name_ok ''expires''" "name_ok ''delete''" "name_ok ''name''"
  "name_ok ''message''" "name_ok ''ips''" "name_ok ''af''" "name_ok ''src''" "name_ok ''src_port''"
  "name_ok ''proxy''" "name_ok ''proxy_port''" "name_ok ''dst''" "name_ok ''at''" "name_ok ''grey''"
  "name_ok ''white''" "name_ok ''trapped''" "name_ok ''spamtrap''" "name_ok ''domain''" "name_ok ''blacklists''"
  by (simp_all add: name_ok_def is_name_char_def to_lower_def lower_char_def is_digit_def)

lemmas field_simps_ipc = field_str_def field_int_def field_strings_def need_def or_empty_def or_zero_def or_nil_def
  sync_flag_def port_field_def classify_def classify_number_def classify_string_def

abbreviation one_line :: "string \<Rightarrow> bool" where
  "one_line v \<equiv> lf \<notin> set v"

lemma read_grey:
  assumes "list_all one_line [dst, ip, helo, from, to]" "length (write_grey dst ip helo from to) \<le> m"
  shows "next_message m (write_grey dst ip helo from to @ r) =
    (Inr (GreyMessage \<lparr>t_ip = sanitize ip, t_helo = sanitize helo, t_from = sanitize from, t_to = sanitize to\<rparr>
            (sanitize dst) True), r)"
proof -
  let ?ts = "[int_field ''type'' MsgGrey, safe_str ''dst_ip'' dst, safe_str ''ip'' ip,
     safe_str ''helo'' helo, safe_str ''from'' from, safe_str ''to'' to]"
  have w: "write_grey dst ip helo from to = frame (concat ?ts)" by (simp add: write_grey_def)
  have "next_message m (frame (concat ?ts) @ r) = (decode (concat ?ts), r)"
    by (rule next_message_frame) (use assms w in simp_all)
  moreover have "decode (concat ?ts) = Inr (GreyMessage \<lparr>t_ip = sanitize ip, t_helo = sanitize helo,
      t_from = sanitize from, t_to = sanitize to\<rparr> (sanitize dst) True)"
    by (simp add: decode_def parse_fields_def is_i64_def field_simps_ipc)
  ultimately show ?thesis by (simp only: w)
qed

lemmas decode_simps = decode_def parse_fields_def is_i64_def field_simps_ipc

lemma itoa_text: "one_line (itoa k)" "plain_text (itoa k)"
  using itoa_set [of lf k] itoa_set [of dquote k] itoa_set [of backslash k]
  by (auto simp: plain_text_def is_digit_def)

lemma read_addr:
  assumes "list_all one_line [ip, source]" "length (write_addr t ip source expires del) \<le> m" "t = MsgTrap \<or> t = MsgWhite"
  shows "next_message m (write_addr t ip source expires del @ r) =
    (Inr (AddrMessage t (sanitize ip) (sanitize source) (itoa (unat expires)) False del), r)"
proof -
  let ?ts = "[int_field ''type'' t, int_field ''sync'' 0, safe_str ''ip'' ip, safe_str ''source'' source,
     str_field ''expires'' (itoa (unat expires)), int_field ''delete'' (if del then 1 else 0)]"
  have w: "write_addr t ip source expires del = frame (concat ?ts)" by (simp add: write_addr_def)
  have "next_message m (frame (concat ?ts) @ r) = (decode (concat ?ts), r)"
    by (rule next_message_frame) (use assms w itoa_text in simp_all)
  moreover have "decode (concat ?ts) = Inr (AddrMessage t (sanitize ip) (sanitize source) (itoa (unat expires)) False del)"
    using assms(3) itoa_text by (auto simp: decode_simps)
  ultimately show ?thesis by (simp only: w)
qed

lemma read_grey_from_sync:
  assumes "list_all one_line [ip, helo, from, to]" "length (write_grey_from_sync ip helo from to) \<le> m"
  shows "next_message m (write_grey_from_sync ip helo from to @ r) =
    (Inr (GreyMessage \<lparr>t_ip = sanitize ip, t_helo = sanitize helo, t_from = sanitize from, t_to = sanitize to\<rparr> [] False), r)"
proof -
  let ?ts = "[int_field ''type'' MsgGrey, int_field ''sync'' 0, safe_str ''ip'' ip,
     safe_str ''helo'' helo, safe_str ''from'' from, safe_str ''to'' to]"
  have w: "write_grey_from_sync ip helo from to = frame (concat ?ts)" by (simp add: write_grey_from_sync_def)
  have "next_message m (frame (concat ?ts) @ r) = (decode (concat ?ts), r)"
    by (rule next_message_frame) (use assms w in simp_all)
  moreover have "decode (concat ?ts) = Inr (GreyMessage \<lparr>t_ip = sanitize ip, t_helo = sanitize helo,
      t_from = sanitize from, t_to = sanitize to\<rparr> [] False)"
    by (simp add: decode_simps)
  ultimately show ?thesis by (simp only: w)
qed

lemma read_blacklist:
  assumes "ips \<noteq> []" "list_all (\<lambda>v. one_line v \<and> plain_text v) (name # message # ips)"
    and "length (write_blacklist name message ips) \<le> m"
  shows "next_message m (write_blacklist name message ips @ r) =
    (Inr (BlacklistMessage name message (map blacklist_ip ips)), r)"
proof -
  let ?ts = "[bare_str ''name'' name, bare_str ''message'' message, str_list ''ips'' (map blacklist_ip ips)]"
  have w: "write_blacklist name message ips = frame (concat ?ts)" using assms(1) by (simp add: write_blacklist_def)
  have ip: "one_line (blacklist_ip v)" "plain_text (blacklist_ip v)" if "one_line v" "plain_text v" for v
    using that itoa_text by (auto simp: blacklist_ip_def)
  then have ips: "list_all one_line (map blacklist_ip ips)" "list_all plain_text (map blacklist_ip ips)"
    using assms(2) by (auto simp: list_all_iff)
  have "next_message m (frame (concat ?ts) @ r) = (decode (concat ?ts), r)"
    by (rule next_message_frame) (use assms(2,3) w ips in simp_all)
  moreover have "decode (concat ?ts) = Inr (BlacklistMessage name message (map blacklist_ip ips))"
    using assms(2) ips by (simp add: decode_simps)
  ultimately show ?thesis by (simp only: w)
qed

lemma read_replace:
  assumes "list_all one_line (name # ips)" "0 \<le> af" "is_i64 af" "length (write_replace name af ips) \<le> m"
  shows "next_message m (write_replace name af ips @ r) = (Inr (ReplaceRequest (sanitize name) af (map sanitize ips)), r)"
proof -
  let ?ts = "[bare_str ''type'' ''replace'', bare_str ''name'' (sanitize name), bare_int ''af'' af, str_list ''ips'' (map sanitize ips)]"
  have w: "write_replace name af ips = frame (concat ?ts)" by (simp add: write_replace_def)
  have ips: "list_all one_line (map sanitize ips)" "list_all plain_text (map sanitize ips)"
    using assms(1) by (auto simp: list_all_iff)
  have "next_message m (frame (concat ?ts) @ r) = (decode (concat ?ts), r)"
    by (rule next_message_frame) (use assms w ips in simp_all)
  moreover have "decode (concat ?ts) = Inr (ReplaceRequest (sanitize name) af (map sanitize ips))"
    using assms(2,3) ips by (simp add: decode_def parse_fields_def field_simps_ipc)
  ultimately show ?thesis by (simp only: w)
qed

lemma port_range: "0 \<le> uint (p :: u16)" "uint p \<le> 65535" "is_i64 (uint p)"
proof -
  show nonneg: "0 \<le> uint p" by simp
  have "uint p < 65536" using uint_bounded [of p] by simp
  then show "uint p \<le> 65535" by simp
  have "- (2 ^ 63) \<le> (0 :: int)" "(65536 :: int) \<le> 2 ^ 63" by simp_all
  with nonneg \<open>uint p < 65536\<close> show "is_i64 (uint p)" unfolding is_i64_def by linarith
qed

lemma read_nat:
  assumes "list_all one_line [src, proxy]" "length (write_nat src sp proxy pp) \<le> m"
  shows "next_message m (write_nat src sp proxy pp @ r) = (Inr (NATRequest (sanitize src) sp (sanitize proxy) pp), r)"
proof -
  let ?ts = "[bare_str ''type'' ''nat'', bare_str ''src'' (sanitize src), bare_int ''src_port'' (uint sp),
     bare_str ''proxy'' (sanitize proxy), bare_int ''proxy_port'' (uint pp)]"
  have w: "write_nat src sp proxy pp = frame (concat ?ts)" by (simp add: write_nat_def)
  have "next_message m (frame (concat ?ts) @ r) = (decode (concat ?ts), r)"
    by (rule next_message_frame) (use assms w in simp_all)
  moreover have "decode (concat ?ts) = Inr (NATRequest (sanitize src) sp (sanitize proxy) pp)"
    using port_range by (simp add: decode_def parse_fields_def field_simps_ipc)
  ultimately show ?thesis by (simp only: w)
qed

lemma read_dst:
  assumes "one_line dst" "length (write_dst dst) \<le> m"
  shows "next_message m (write_dst dst @ r) = (Inr (DstReply (sanitize dst)), r)"
proof -
  have w: "write_dst dst = frame (concat [bare_str ''dst'' (sanitize dst)])" by (simp add: write_dst_def)
  have "next_message m (frame (concat [bare_str ''dst'' (sanitize dst)]) @ r) = (decode (concat [bare_str ''dst'' (sanitize dst)]), r)"
    by (rule next_message_frame) (use assms w in simp_all)
  moreover have "decode (concat [bare_str ''dst'' (sanitize dst)]) = Inr (DstReply (sanitize dst))"
    by (simp add: decode_simps)
  ultimately show ?thesis by (simp only: w)
qed

definition stats_ok :: "scan_stats \<Rightarrow> bool" where
  "stats_ok s \<longleftrightarrow> list_all (\<lambda>n. 0 \<le> n \<and> is_i64 n) [ss_at s, ss_grey s, ss_white s, ss_trapped s, ss_spamtrap s, ss_domain s]"

lemma read_scan_stats:
  assumes "stats_ok s" "length (write_scan_stats s) \<le> m"
  shows "next_message m (write_scan_stats s @ r) = (Inr (ScanStatsMessage s), r)"
proof -
  let ?ts = "[str_field ''type'' ''scan_stats'', int_field ''at'' (ss_at s), int_field ''grey'' (ss_grey s),
     int_field ''white'' (ss_white s), int_field ''trapped'' (ss_trapped s), int_field ''spamtrap'' (ss_spamtrap s),
     int_field ''domain'' (ss_domain s)]"
  have w: "write_scan_stats s = frame (concat ?ts)" by (simp add: write_scan_stats_def)
  have "next_message m (frame (concat ?ts) @ r) = (decode (concat ?ts), r)"
    by (rule next_message_frame) (use assms w in simp_all)
  moreover have "decode (concat ?ts) = Inr (ScanStatsMessage s)"
    using assms(1) by (simp add: decode_def parse_fields_def field_simps_ipc stats_ok_def)
  ultimately show ?thesis by (simp only: w)
qed

lemma read_stats_request: "length write_stats_request \<le> m \<Longrightarrow> next_message m (write_stats_request @ r) = (Inr StatsRequest, r)"
proof -
  have w: "write_stats_request = frame (concat [str_field ''type'' ''stats''])" by (simp add: write_stats_request_def)
  assume "length write_stats_request \<le> m"
  then have "next_message m (frame (concat [str_field ''type'' ''stats'']) @ r) = (decode (concat [str_field ''type'' ''stats'']), r)"
    by (intro next_message_frame) (use w in simp_all)
  moreover have "decode (concat [str_field ''type'' ''stats'']) = Inr StatsRequest" by (simp add: decode_simps)
  ultimately show ?thesis by (simp only: w)
qed

subsection \<open>Properties of the messages\<close>

text \<open>
  C24: A greylist tuple or an address sent to the greylister arrives as it was sent, up to the
  removal of quotes and backslashes, and leaves the reader at the start of the next frame. The
  fields must not contain line feeds, and the frame must fit the limit of the reader.
\<close>

theorem greylister_frames:
  assumes "list_all (\<lambda>v. lf \<notin> set v) [dst, ip, helo, from, to, source]" "t = MsgTrap \<or> t = MsgWhite"
    and "length (write_grey dst ip helo from to) \<le> m" "length (write_grey_from_sync ip helo from to) \<le> m"
    and "length (write_addr t ip source expires del) \<le> m"
  shows "next_message m (write_grey dst ip helo from to @ r) =
      (Inr (GreyMessage \<lparr>t_ip = sanitize ip, t_helo = sanitize helo, t_from = sanitize from, t_to = sanitize to\<rparr>
              (sanitize dst) True), r) \<and>
    next_message m (write_grey_from_sync ip helo from to @ r) =
      (Inr (GreyMessage \<lparr>t_ip = sanitize ip, t_helo = sanitize helo, t_from = sanitize from, t_to = sanitize to\<rparr>
              [] False), r) \<and>
    next_message m (write_addr t ip source expires del @ r) =
      (Inr (AddrMessage t (sanitize ip) (sanitize source) (itoa (unat expires)) False del), r)"
  using assms by (simp add: read_grey read_grey_from_sync read_addr)

theorem greylister_frames_witness:
  "next_message 1000 (write_grey [] ''1.2.3.4'' ''h'' ''a@b'' ''c@d'' @ ''rest'') =
     (Inr (GreyMessage \<lparr>t_ip = ''1.2.3.4'', t_helo = ''h'', t_from = ''a@b'', t_to = ''c@d''\<rparr> [] True), ''rest'')"
proof -
  have "length (write_grey [] ''1.2.3.4'' ''h'' ''a@b'' ''c@d'') \<le> 1000"
    "length (write_grey_from_sync ''1.2.3.4'' ''h'' ''a@b'' ''c@d'') \<le> 1000"
    "length (write_addr MsgTrap ''1.2.3.4'' [] 0 False) \<le> 1000"
    by (simp_all add: write_grey_def write_grey_from_sync_def write_addr_def frame_def safe_str_def str_field_def
        int_field_def itoa_int_def itoa.simps)
  then show ?thesis
    using greylister_frames [of "[]" "''1.2.3.4''" "''h''" "''a@b''" "''c@d''" "[]" MsgTrap 1000 0 False "''rest''"]
    by simp
qed

text \<open>
  C36: A blacklist definition arrives as it was sent: the name, the rejection message and every
  address, with a host prefix length appended to the addresses that had none. The name, the
  message and the addresses must be free of quotes, backslashes and line feeds.
\<close>

theorem blacklist_frame:
  assumes "ips \<noteq> []" "list_all (\<lambda>v. lf \<notin> set v \<and> plain_text v) (name # message # ips)"
    and "length (write_blacklist name message ips) \<le> m"
  shows "next_message m (write_blacklist name message ips @ r) =
    (Inr (BlacklistMessage name message (map blacklist_ip ips)), r)"
  using assms by (rule read_blacklist)

theorem blacklist_frame_witness:
  "next_message 1000 (write_blacklist ''l'' ''no'' [''10.0.0.0/8''] @ []) =
     (Inr (BlacklistMessage ''l'' ''no'' [''10.0.0.0/8'']), [])"
proof -
  have "length (write_blacklist ''l'' ''no'' [''10.0.0.0/8'']) \<le> 1000"
    by (simp add: write_blacklist_def frame_def bare_str_def str_list_def blacklist_ip_def)
  then show ?thesis
    using blacklist_frame [of "[''10.0.0.0/8'']" "''l''" "''no''" 1000 "[]"] by (simp add: blacklist_ip_def)
qed

text \<open>
  C37: The requests to the firewall process, its answers, and the statistics messages arrive as
  they were sent, each leaving the reader at the start of the next frame.
\<close>

theorem request_frames:
  assumes "list_all (\<lambda>v. lf \<notin> set v) (name # src # proxy # dst # ips)" "0 \<le> af" "is_i64 af" "stats_ok s"
    and "length (write_replace name af ips) \<le> m" "length (write_nat src sp proxy pp) \<le> m"
    and "length (write_dst dst) \<le> m" "length (write_scan_stats s) \<le> m" "length write_stats_request \<le> m"
  shows "next_message m (write_replace name af ips @ r) = (Inr (ReplaceRequest (sanitize name) af (map sanitize ips)), r) \<and>
    next_message m (write_nat src sp proxy pp @ r) = (Inr (NATRequest (sanitize src) sp (sanitize proxy) pp), r) \<and>
    next_message m (write_dst dst @ r) = (Inr (DstReply (sanitize dst)), r) \<and>
    next_message m (write_scan_stats s @ r) = (Inr (ScanStatsMessage s), r) \<and>
    next_message m (write_stats_request @ r) = (Inr StatsRequest, r)"
  using assms by (simp add: read_replace read_nat read_dst read_scan_stats read_stats_request)

theorem request_frames_witness:
  "next_message 1000 (write_replace ''set'' 4 [''1.2.3.4''] @ []) = (Inr (ReplaceRequest ''set'' 4 [''1.2.3.4'']), [])"
proof -
  let ?s = "\<lparr>ss_at = 1, ss_grey = 2, ss_white = 3, ss_trapped = 4, ss_spamtrap = 5, ss_domain = 6\<rparr>"
  have "length (write_replace ''set'' 4 [''1.2.3.4'']) \<le> 1000" "length (write_nat [] 1 [] 2) \<le> 1000"
    "length (write_dst []) \<le> 1000" "length (write_scan_stats ?s) \<le> 1000" "length write_stats_request \<le> 1000"
    by (simp_all add: write_replace_def write_nat_def write_dst_def write_scan_stats_def write_stats_request_def
        frame_def bare_str_def bare_int_def str_list_def str_field_def int_field_def itoa_int_def itoa.simps)
  then show ?thesis
    using request_frames [of "''set''" "[]" "[]" "[]" "[''1.2.3.4'']" 4 ?s 1000 1 2 "[]"]
    by (simp add: is_i64_def stats_ok_def)
qed

text \<open>
  Sanitised text never contains a quote or a backslash, text without them is unchanged, and
  sanitising twice is the same as sanitising once.
\<close>

theorem sanitize_safe:
  "dquote \<notin> set (sanitize v) \<and> backslash \<notin> set (sanitize v) \<and> sanitize (sanitize v) = sanitize v \<and>
   (dquote \<notin> set v \<and> backslash \<notin> set v \<longrightarrow> sanitize v = v)"
  using sanitize_plain [of v] by (auto simp: plain_text_def sanitize_def)

theorem sanitize_safe_witness: "sanitize ''abc'' = ''abc'' \<and> dquote \<notin> set (sanitize [dquote])"
  using sanitize_safe [of "''abc''"] sanitize_safe [of "[dquote]"] by simp

end
