(* ===== verification/Greylister.thy ===== *)
theory Greylister
  imports Memory_Store Ipc_Writer
begin

text \<open>
  The engine of \<open>internal/grey\<close>. It is written over the operations of any database driver. Time
  is in nanoseconds, as in the Go library, and \<open>unix\<close> reads the seconds. The SPF checker is a
  parameter. Calls of the sync engine are returned as events, and the bytes sent to the main
  process and to the firewall process are returned as text; log messages are left out.
\<close>

subsection \<open>Settings and state\<close>

record grey_settings =
  gs_enable :: bool
  gs_user :: string
  gs_traplist_name :: string
  gs_traplist_message :: string
  gs_whitelist_name :: string
  gs_whitelist_name_v6 :: string
  gs_low_prio_mx :: string
  gs_stutter :: int
  gs_permitted_domains :: string
  gs_db_permitted_domains :: bool
  gs_pass_time :: int
  gs_grey_expiry :: int
  gs_white_expiry :: int
  gs_trap_expiry :: int
  gs_max_domains :: int

record spf_settings =
  sp_enable :: bool
  sp_trap_on_softfail :: bool
  sp_whitelist_on_pass :: bool

datatype spf_result = SPFNone | SPFPass | SPFSoftFail | SPFFail | SPFError

type_synonym spf_checker = "string \<Rightarrow> string \<Rightarrow> string \<Rightarrow> spf_result"

record greylister =
  g_cfg :: grey_settings
  g_spf_cfg :: spf_settings
  g_ipv6 :: bool
  g_syncer :: bool
  g_spf :: "spf_checker option"
  g_trap_out :: bool
  g_fw_out :: bool
  g_startup :: int
  g_domains :: "string list"

abbreviation second :: int where
  "second \<equiv> 1000000000"

definition unix :: "int \<Rightarrow> int" where
  "unix t = t div second"

definition low_prio_grace :: int where
  "low_prio_grace = 60 * second"

datatype sync_event =
    SyncUpdate tuple int
  | SyncTrapped string int int bool

subsection \<open>Permitted domains\<close>

definition load_line :: "string \<Rightarrow> string option" where
  "load_line line =
     (if length line \<ge> max_mail - 1 then None
      else let l = trim_space line in if l = [] \<or> has_prefix l ''#'' then None else Some l)"

text \<open>The loop of \<open>LoadDomains\<close> over the lines of the file; the flag tells that the cap was hit.\<close>

fun load_domains :: "int \<Rightarrow> string list \<Rightarrow> string list \<Rightarrow> string list \<times> bool" where
  "load_domains max_domains out [] = (out, False)"
| "load_domains max_domains out (line # lines) =
     (case load_line line of
        None \<Rightarrow> load_domains max_domains out lines
      | Some l \<Rightarrow>
          if max_domains > 0 \<and> int (length out) \<ge> max_domains then (out, True)
          else load_domains max_domains (out @ [l]) lines)"

definition suffix_matches :: "string \<Rightarrow> string \<Rightarrow> bool" where
  "suffix_matches domain to =
     (if length domain > length to then False
      else equal_fold (drop (length to - length domain) to) domain)"

subsection \<open>Greylist tuples\<close>

text \<open>The end of \<open>trapCheck\<close>, after the domains have been looked at.\<close>

definition trap_mail :: "(key \<Rightarrow> db_error + data \<times> bool) \<Rightarrow> bool \<Rightarrow> bool \<Rightarrow> string \<Rightarrow> db_error + int" where
  "trap_mail get check_domains matched to =
     (if check_domains \<and> \<not> matched then Inr 0
      else case get (mail_key to) of Inl e \<Rightarrow> Inl e | Inr (_, found) \<Rightarrow> Inr (if found then 0 else 1))"

definition trap_check :: "greylister \<Rightarrow> (key \<Rightarrow> db_error + data \<times> bool) \<Rightarrow> string \<Rightarrow> db_error + int" where
  "trap_check g get to =
     (let check_domains = g_domains g \<noteq> [];
          matched = list_ex (\<lambda>d. suffix_matches d to) (g_domains g)
      in if \<not> matched \<and> gs_db_permitted_domains (g_cfg g) then
           (case get (domain_part_key to) of
              Inl e \<Rightarrow> Inl e
            | Inr (_, found) \<Rightarrow> trap_mail get True found to)
         else trap_mail get check_domains matched to)"

record grey_plan =
  gp_spamtrap :: bool
  gp_expire :: int
  gp_key :: key

definition grey_plan_of :: "greylister \<Rightarrow> tuple \<Rightarrow> int \<Rightarrow> grey_plan" where
  "grey_plan_of g gt tc =
     (if tc = 1 then \<lparr>gp_spamtrap = False, gp_expire = gs_grey_expiry (g_cfg g), gp_key = tuple_key gt\<rparr>
      else \<lparr>gp_spamtrap = True, gp_expire = gs_trap_expiry (g_cfg g), gp_key = ip_key (t_ip gt)\<rparr>)"

definition trap_plan :: "greylister \<Rightarrow> tuple \<Rightarrow> grey_plan" where
  "trap_plan g gt = \<lparr>gp_spamtrap = True, gp_expire = gs_trap_expiry (g_cfg g), gp_key = ip_key (t_ip gt)\<rparr>"

text \<open>The SPF stage: \<open>None\<close> asks for the address to be whitelisted at once.\<close>

definition spf_stage :: "greylister \<Rightarrow> tuple \<Rightarrow> bool \<Rightarrow> grey_plan \<Rightarrow> grey_plan option" where
  "spf_stage g gt sync_out p =
     (case g_spf g of
        None \<Rightarrow> Some p
      | Some check \<Rightarrow>
          if sync_out \<and> \<not> gp_spamtrap p \<and> sp_enable (g_spf_cfg g) then
            (case check (t_ip gt) (t_helo gt) (t_from gt) of
               SPFPass \<Rightarrow> if sp_whitelist_on_pass (g_spf_cfg g) then None else Some p
             | SPFSoftFail \<Rightarrow> Some (if sp_trap_on_softfail (g_spf_cfg g) then trap_plan g gt else p)
             | SPFFail \<Rightarrow> Some (trap_plan g gt)
             | _ \<Rightarrow> Some p)
          else Some p)"

definition low_prio_plan :: "greylister \<Rightarrow> int \<Rightarrow> tuple \<Rightarrow> bool \<Rightarrow> string \<Rightarrow> grey_plan \<Rightarrow> grey_plan" where
  "low_prio_plan g now gt sync_out dst_ip p =
     (let mx = gs_low_prio_mx (g_cfg g)
      in if sync_out \<and> mx \<noteq> [] \<and> dst_ip = mx \<and> g_startup g + low_prio_grace < now then trap_plan g gt else p)"

definition new_entry :: "int \<Rightarrow> grey_plan \<Rightarrow> data" where
  "new_entry now p =
     \<lparr>d_first = unix now, d_pass = i64 (unix now + gp_expire p), d_expire = i64 (unix now + gp_expire p),
      d_bcount = 1, d_pcount = (if gp_spamtrap p then PCountTrapped else 0)\<rparr>"

definition seen_entry :: "greylister \<Rightarrow> int \<Rightarrow> grey_plan \<Rightarrow> data \<Rightarrow> data" where
  "seen_entry g now p d =
     d\<lparr>d_bcount := i64 (d_bcount d + 1), d_pcount := (if gp_spamtrap p then PCountTrapped else 0),
       d_pass := (if i64 (d_first d + gs_pass_time (g_cfg g)) < unix now then unix now else d_pass d)\<rparr>"

definition grey_tx ::
  "('s, 't) store_ops \<Rightarrow> greylister \<Rightarrow> int \<Rightarrow> tuple \<Rightarrow> bool \<Rightarrow> string \<Rightarrow> grey_plan \<Rightarrow> 't \<Rightarrow> db_error + grey_plan \<times> 't" where
  "grey_tx ops g now gt sync_out dst_ip p t =
     (case op_get ops t (gp_key p) of
        Inl e \<Rightarrow> Inl e
      | Inr (d, found) \<Rightarrow>
          (let p' = (if found then p else low_prio_plan g now gt sync_out dst_ip p);
               d' = (if found then seen_entry g now p d else new_entry now p')
           in case op_put ops t (gp_key p') d' of Inl e \<Rightarrow> Inl e | Inr t' \<Rightarrow> Inr (p', t')))"

definition sync_events :: "greylister \<Rightarrow> int \<Rightarrow> tuple \<Rightarrow> bool \<Rightarrow> grey_plan \<Rightarrow> sync_event list" where
  "sync_events g now gt sync_out p =
     (if \<not> (g_syncer g \<and> sync_out) then []
      else if gp_spamtrap p then [SyncTrapped (t_ip gt) now (now + i64 (gp_expire p * second)) False]
      else [SyncUpdate gt now])"

definition process_grey ::
  "('s, 't) store_ops \<Rightarrow> greylister \<Rightarrow> context_state \<Rightarrow> int \<Rightarrow> tuple \<Rightarrow> bool \<Rightarrow> string \<Rightarrow> 's
     \<Rightarrow> db_error option \<times> 's \<times> sync_event list" where
  "process_grey ops g ctx now gt sync_out dst_ip s =
     (case view ops ctx s (\<lambda>t. trap_check g (op_get ops t) (t_to gt)) of
        Inl e \<Rightarrow> (Some e, s, [])
      | Inr tc \<Rightarrow>
          (case spf_stage g gt sync_out (grey_plan_of g gt tc) of
             None \<Rightarrow>
               (case core_put ops ctx s (ip_key (t_ip gt))
                       \<lparr>d_first = unix now, d_pass = unix now,
                        d_expire = i64 (unix now + gs_white_expiry (g_cfg g)), d_bcount = 0, d_pcount = 0\<rparr> of
                  (Inl e, s') \<Rightarrow> (Some e, s', [])
                | (Inr _, s') \<Rightarrow> (None, s', []))
           | Some p \<Rightarrow>
               (case update ops ctx s (grey_tx ops g now gt sync_out dst_ip p) of
                  (Inl e, s') \<Rightarrow> (Some e, s', [])
                | (Inr p', s') \<Rightarrow> (None, s', sync_events g now gt sync_out p'))))"

subsection \<open>White and trapped addresses\<close>

definition addr_tx ::
  "('s, 't) store_ops \<Rightarrow> int \<Rightarrow> bool \<Rightarrow> string \<Rightarrow> int \<Rightarrow> bool \<Rightarrow> 't \<Rightarrow> db_error + unit \<times> 't" where
  "addr_tx ops now spamtrap ip expire del t =
     (let put = (\<lambda>d. case op_put ops t (ip_key ip) d of Inl e \<Rightarrow> Inl e | Inr t' \<Rightarrow> Inr ((), t'))
      in case op_get ops t (ip_key ip) of
           Inl e \<Rightarrow> Inl e
         | Inr (d, found) \<Rightarrow>
             if \<not> found \<and> del then Inr ((), t)
             else if \<not> found then
               put \<lparr>d_first = unix now, d_pass = (if spamtrap then expire else unix now), d_expire = expire,
                    d_bcount = 0, d_pcount = (if spamtrap then PCountTrapped else 0)\<rparr>
             else if del then
               (case op_del ops t (ip_key ip) of Inl e \<Rightarrow> Inl e | Inr (_, t') \<Rightarrow> Inr ((), t'))
             else if spamtrap then put (d\<lparr>d_pcount := PCountTrapped, d_bcount := i64 (d_bcount d + 1)\<rparr>)
             else put (d\<lparr>d_pcount := i64 (d_pcount d + 1)\<rparr>))"

definition process_non_grey ::
  "('s, 't) store_ops \<Rightarrow> context_state \<Rightarrow> int \<Rightarrow> bool \<Rightarrow> string \<Rightarrow> string \<Rightarrow> bool \<Rightarrow> 's \<Rightarrow> db_error option \<times> 's" where
  "process_non_grey ops ctx now spamtrap ip expires del s =
     (let parsed = parse_int expires; expire = (case parsed of None \<Rightarrow> 0 | Some n \<Rightarrow> n)
      in if \<not> del \<and> (parsed = None \<or> expire = 0) then (None, s)
         else case update ops ctx s (addr_tx ops now spamtrap ip expire del) of
             (Inl e, s') \<Rightarrow> (Some e, s')
           | (Inr _, s') \<Rightarrow> (None, s'))"

datatype grey_error = StoreError db_error | UnknownType

definition process_message ::
  "('s, 't) store_ops \<Rightarrow> greylister \<Rightarrow> context_state \<Rightarrow> int \<Rightarrow> message \<Rightarrow> 's \<Rightarrow> grey_error option \<times> 's \<times> sync_event list" where
  "process_message ops g ctx now m s =
     (case m of
        GreyMessage t dst sync \<Rightarrow>
          (let (e, s', evs) = process_grey ops g ctx now t sync dst s in (map_option StoreError e, s', evs))
      | AddrMessage typ ip source expires sync del \<Rightarrow>
          (let (e, s') = process_non_grey ops ctx now (typ = MsgTrap) ip expires del s
           in (map_option StoreError e, s', []))
      | _ \<Rightarrow> (Some UnknownType, s, []))"

subsection \<open>Scan and reports\<close>

record entry_counts =
  ec_grey :: int
  ec_white :: int
  ec_trapped :: int
  ec_spamtrap :: int
  ec_domain :: int

definition count_entry :: "key \<times> data \<Rightarrow> entry_counts \<Rightarrow> entry_counts" where
  "count_entry e c =
     (let (k, d) = e
      in if k_type k = KeyTuple then c\<lparr>ec_grey := i64 (ec_grey c + 1)\<rparr>
         else if k_type k = KeyMail \<or> d_pcount d = PCountSpamtrap then c\<lparr>ec_spamtrap := i64 (ec_spamtrap c + 1)\<rparr>
         else if k_type k = KeyDomain \<or> k_type k = KeyDomainPart \<or> d_pcount d = PCountDomain
           then c\<lparr>ec_domain := i64 (ec_domain c + 1)\<rparr>
         else if d_pcount d = PCountTrapped then c\<lparr>ec_trapped := i64 (ec_trapped c + 1)\<rparr>
         else c\<lparr>ec_white := i64 (ec_white c + 1)\<rparr>)"

abbreviation no_counts :: entry_counts where
  "no_counts \<equiv> \<lparr>ec_grey = 0, ec_white = 0, ec_trapped = 0, ec_spamtrap = 0, ec_domain = 0\<rparr>"

definition summarize :: "('s, 't) store_ops \<Rightarrow> context_state \<Rightarrow> 's \<Rightarrow> db_error + entry_counts" where
  "summarize ops ctx s =
     view ops ctx s (\<lambda>t. case op_entries ops t 7 of Inl e \<Rightarrow> Inl e | Inr es \<Rightarrow> Inr (fold count_entry es no_counts))"

definition report_counts :: "('s, 't) store_ops \<Rightarrow> context_state \<Rightarrow> int \<Rightarrow> 's \<Rightarrow> string" where
  "report_counts ops ctx now s =
     (case summarize ops ctx s of
        Inl _ \<Rightarrow> []
      | Inr c \<Rightarrow>
          write_scan_stats
            \<lparr>ss_at = unix now, ss_grey = ec_grey c, ss_white = ec_white c, ss_trapped = ec_trapped c,
             ss_spamtrap = ec_spamtrap c, ss_domain = ec_domain c\<rparr>)"

definition update_firewall :: "greylister \<Rightarrow> int \<Rightarrow> string list \<Rightarrow> string" where
  "update_firewall g af ips =
     (if \<not> g_fw_out g \<or> ips = [] then []
      else write_replace (if af = 6 then gs_whitelist_name_v6 (g_cfg g) else gs_whitelist_name (g_cfg g)) af ips)"

definition scan_once ::
  "('s, 't) store_ops \<Rightarrow> greylister \<Rightarrow> context_state \<Rightarrow> int \<Rightarrow> 's \<Rightarrow> db_error option \<times> 's \<times> string \<times> string" where
  "scan_once ops g ctx now s =
     (case update ops ctx s (\<lambda>t. op_scan ops t (unix now) (gs_white_expiry (g_cfg g))) of
        (Inl e, s') \<Rightarrow> (Some e, s', [], [])
      | (Inr res, s') \<Rightarrow>
          (None, s',
           if g_trap_out g
           then write_blacklist (gs_traplist_name (g_cfg g)) (gs_traplist_message (g_cfg g)) (sr_traplist res) @
                report_counts ops ctx now s'
           else [],
           update_firewall g 4 (sr_whitelist res) @
           (if g_ipv6 g then update_firewall g 6 (sr_whitelist_v6 res) else [])))"

subsection \<open>The reader loop\<close>

lemma next_raw_length: "cs \<noteq> [] \<Longrightarrow> length (snd (next_raw m sb cs)) < length cs"
proof (induction m sb cs rule: next_raw.induct)
  case (1 m sb cs)
  obtain line r where r: "read_line cs = (line, r)" by fastforce
  then have len: "length r < length cs" using read_line_length [OF "1.prems"] by simp
  show ?case
  proof (cases "trim_crlf line = ''%%'' \<or> length sb + length line > m")
    case True
    then show ?thesis using r len "1.prems" by (auto simp: next_raw.simps [of m sb cs])
  next
    case False
    then have "next_raw m sb cs = next_raw m (sb @ line) r"
      using r "1.prems" by (simp add: next_raw.simps [of m sb cs])
    moreover have "length (snd (next_raw m (sb @ line) r)) \<le> length r"
    proof (cases "r = []")
      case True
      then show ?thesis by (simp add: next_raw.simps)
    next
      case rne: False
      then show ?thesis using "1.IH" [OF "1.prems" r [symmetric] refl] False by simp
    qed
    ultimately show ?thesis using len by simp
  qed
qed

lemma next_message_length: "cs \<noteq> [] \<Longrightarrow> length (snd (next_message m cs)) < length cs"
  using next_raw_length [of cs m "[]"] by (auto simp: next_message_def split: prod.splits sum.splits)

lemma next_message_EOF: "next_message m [] = (Inl ErrEOF, [])"
  by (simp add: next_message_def next_raw.simps)

text \<open>
  The loop of \<open>RunReader\<close> on a live context. The clock gives the time of each message. Malformed
  frames are skipped; a message whose handling fails is dropped.
\<close>

function run_reader ::
  "('s, 't) store_ops \<Rightarrow> greylister \<Rightarrow> (nat \<Rightarrow> int) \<Rightarrow> nat \<Rightarrow> string \<Rightarrow> 's \<Rightarrow> 's \<times> sync_event list" where
  "run_reader ops g clock n input s =
     (case next_message default_max_frame input of
        (Inl e, r) \<Rightarrow> if e = ErrEOF then (s, []) else run_reader ops g clock n r s
      | (Inr m, r) \<Rightarrow>
          (let (e, s', evs) = process_message ops g None (clock n) m s;
               (s'', evs') = run_reader ops g clock (Suc n) r s'
           in (s'', evs @ evs')))"
  by pat_completeness auto
termination
proof (relation "measure (\<lambda>(ops, g, clock, n, input, s). length input)", (simp; fail), goal_cases)
  case (1 ops g clock n input s x r e)
  then have "input \<noteq> []" using next_message_EOF by auto
  with 1 show ?case using next_message_length [of input default_max_frame] by (simp, metis snd_conv)
next
  case (2 ops g clock n input s x r m y e z s' evs)
  then have "input \<noteq> []" using next_message_EOF by auto
  with 2 show ?case using next_message_length [of input default_max_frame] by (simp, metis snd_conv)
qed

declare run_reader.simps [simp del]

subsection \<open>Failures\<close>

lemma update_error: "update ops ctx s f = (Inl e, s') \<Longrightarrow> s' = s"
  by (auto simp: update_def split: sum.splits prod.splits)

lemma process_grey_error: "process_grey ops g ctx now gt so dst s = (Some e, s', evs) \<Longrightarrow> s' = s \<and> evs = []"
  by (auto simp: process_grey_def core_put_def dest: update_error split: sum.splits option.splits prod.splits)

lemma process_non_grey_error: "process_non_grey ops ctx now tr ip ex del s = (Some e, s') \<Longrightarrow> s' = s"
  by (auto simp: process_non_grey_def Let_def dest: update_error split: sum.splits if_splits prod.splits)


text \<open>The settings when the configuration file is empty.\<close>

definition default_grey :: grey_settings where
  "default_grey =
     \<lparr>gs_enable = True, gs_user = ''greydb'', gs_traplist_name = ''greyd-greytrap'',
      gs_traplist_message = ''Your address %A has mailed to spamtraps here'',
      gs_whitelist_name = ''greyd-whitelist'', gs_whitelist_name_v6 = ''greyd-whitelist-ipv6'',
      gs_low_prio_mx = [], gs_stutter = 10, gs_permitted_domains = [], gs_db_permitted_domains = False,
      gs_pass_time = 1500, gs_grey_expiry = 14400, gs_white_expiry = 3110400, gs_trap_expiry = 86400,
      gs_max_domains = 100000\<rparr>"

definition default_spf :: spf_settings where
  "default_spf = \<lparr>sp_enable = True, sp_trap_on_softfail = True, sp_whitelist_on_pass = False\<rparr>"

definition default_greylister :: greylister where
  "default_greylister =
     \<lparr>g_cfg = default_grey, g_spf_cfg = default_spf, g_ipv6 = False, g_syncer = False, g_spf = None,
      g_trap_out = True, g_fw_out = True, g_startup = 0, g_domains = []\<rparr>"


subsection \<open>The effect of a message on the contents\<close>

text \<open>
  What the handlers do to the map of entries, without transactions and errors. The engine over
  a driver that keeps its contract is shown to have exactly these effects.
\<close>

definition is_trap :: "greylister \<Rightarrow> contents \<Rightarrow> string \<Rightarrow> bool" where
  "is_trap g m to \<longleftrightarrow>
     (let matched = list_ex (\<lambda>d. suffix_matches d to) (g_domains g)
      in (if \<not> matched \<and> gs_db_permitted_domains (g_cfg g)
          then \<not> (\<exists>dom. m (domain_key dom) \<noteq> None \<and> domain_matches dom to)
          else g_domains g \<noteq> [] \<and> \<not> matched) \<or> m (mail_key to) \<noteq> None)"

definition white_entry :: "greylister \<Rightarrow> int \<Rightarrow> data" where
  "white_entry g now =
     \<lparr>d_first = unix now, d_pass = unix now, d_expire = i64 (unix now + gs_white_expiry (g_cfg g)),
      d_bcount = 0, d_pcount = 0\<rparr>"

definition grey_effect :: "greylister \<Rightarrow> int \<Rightarrow> tuple \<Rightarrow> bool \<Rightarrow> string \<Rightarrow> contents \<Rightarrow> contents" where
  "grey_effect g now gt so dst m =
     (case spf_stage g gt so (grey_plan_of g gt (if is_trap g m (t_to gt) then 0 else 1)) of
        None \<Rightarrow> m(ip_key (t_ip gt) \<mapsto> white_entry g now)
      | Some p \<Rightarrow>
          (case m (gp_key p) of
             None \<Rightarrow> (let p' = low_prio_plan g now gt so dst p in m(gp_key p' \<mapsto> new_entry now p'))
           | Some d \<Rightarrow> m(gp_key p \<mapsto> seen_entry g now p d)))"

definition addr_effect :: "int \<Rightarrow> bool \<Rightarrow> string \<Rightarrow> string \<Rightarrow> bool \<Rightarrow> contents \<Rightarrow> contents" where
  "addr_effect now spamtrap ip expires del m =
     (if del then m(ip_key ip := None)
      else case parse_int expires of
        None \<Rightarrow> m
      | Some expire \<Rightarrow>
          if expire = 0 then m
          else (case m (ip_key ip) of
                  None \<Rightarrow>
                    m(ip_key ip \<mapsto>
                        \<lparr>d_first = unix now, d_pass = (if spamtrap then expire else unix now), d_expire = expire,
                         d_bcount = 0, d_pcount = (if spamtrap then PCountTrapped else 0)\<rparr>)
                | Some d \<Rightarrow>
                    m(ip_key ip \<mapsto>
                        (if spamtrap then d\<lparr>d_pcount := PCountTrapped, d_bcount := i64 (d_bcount d + 1)\<rparr>
                         else d\<lparr>d_pcount := i64 (d_pcount d + 1)\<rparr>))))"

text \<open>A plan is for the tuple and not a trap, or for the address and a trap.\<close>

definition plan_ok :: "greylister \<Rightarrow> tuple \<Rightarrow> grey_plan \<Rightarrow> bool" where
  "plan_ok g gt p \<longleftrightarrow> p = grey_plan_of g gt 1 \<or> p = trap_plan g gt"

lemma plan_ok_stages:
  "plan_ok g gt (grey_plan_of g gt tc)"
  "plan_ok g gt p \<Longrightarrow> spf_stage g gt so p = Some p' \<Longrightarrow> plan_ok g gt p'"
  "plan_ok g gt p \<Longrightarrow> plan_ok g gt (low_prio_plan g now gt so dst p)"
  by (auto simp: plan_ok_def grey_plan_of_def trap_plan_def spf_stage_def low_prio_plan_def Let_def
      split: option.splits if_splits spf_result.splits)

lemma plan_key: "plan_ok g gt p \<Longrightarrow> gp_key p = (if gp_spamtrap p then ip_key (t_ip gt) else tuple_key gt)"
  by (auto simp: plan_ok_def grey_plan_of_def trap_plan_def)

lemma plan_key_ok: "plan_ok g gt p \<Longrightarrow> tuple_ok gt \<Longrightarrow> entry_key (gp_key p)"
  by (simp add: plan_key)

lemma entry_data_ok:
  "is_i64 (unix now) \<Longrightarrow> data_ok (new_entry now p)"
  "is_i64 (unix now) \<Longrightarrow> data_ok (white_entry g now)"
  "is_i64 (unix now) \<Longrightarrow> data_ok d \<Longrightarrow> data_ok (seen_entry g now p d)"
proof -
  have "is_i64 0" "is_i64 1" "is_i64 (-1)" by (simp_all add: is_i64_def)
  then show "is_i64 (unix now) \<Longrightarrow> data_ok (new_entry now p)"
    "is_i64 (unix now) \<Longrightarrow> data_ok (white_entry g now)"
    "is_i64 (unix now) \<Longrightarrow> data_ok d \<Longrightarrow> data_ok (seen_entry g now p d)"
    by (auto simp: data_ok_def new_entry_def white_entry_def seen_entry_def i64_range)
qed

lemma parse_int_range: "parse_int x = Some n \<Longrightarrow> is_i64 n"
  by (auto simp: parse_int_def Let_def split: if_splits option.splits list.splits)

subsection \<open>Runs of the engine\<close>

text \<open>
  The engine handles messages and scans one after the other. A run records what happened, in
  order. The messages are those with tuples that the key encoding keeps apart, at times whose
  seconds fit 64 bits.
\<close>

datatype event =
    GreyEvent int tuple bool string
  | AddrEvent int bool string string bool
  | ScanEvent int

fun event_ok :: "event \<Rightarrow> bool" where
  "event_ok (GreyEvent now gt so dst) = (tuple_ok gt \<and> is_i64 (unix now))"
| "event_ok (AddrEvent now tr ip ex del) = is_i64 (unix now)"
| "event_ok (ScanEvent now) = is_i64 (unix now)"

fun engine_step :: "('s, 't) store_ops \<Rightarrow> greylister \<Rightarrow> event \<Rightarrow> 's \<Rightarrow> 's" where
  "engine_step ops g (GreyEvent now gt so dst) s = fst (snd (process_grey ops g None now gt so dst s))"
| "engine_step ops g (AddrEvent now tr ip ex del) s = snd (process_non_grey ops None now tr ip ex del s)"
| "engine_step ops g (ScanEvent now) s = fst (snd (scan_once ops g None now s))"

inductive runs :: "('s, 't) store_ops \<Rightarrow> greylister \<Rightarrow> 's \<Rightarrow> event list \<Rightarrow> 's \<Rightarrow> bool"
  for ops :: "('s, 't) store_ops" and g :: greylister and s0 :: 's where
  start: "runs ops g s0 [] s0"
| step: "runs ops g s0 h s \<Longrightarrow> event_ok e \<Longrightarrow> runs ops g s0 (h @ [e]) (engine_step ops g e s)"

text \<open>The same tuple was seen twice, the second time after the pass time had gone by.\<close>

definition retried :: "greylister \<Rightarrow> event list \<Rightarrow> tuple \<Rightarrow> bool" where
  "retried g h t \<longleftrightarrow> (\<exists>n1 so1 dst1 n2 so2 dst2. GreyEvent n1 t so1 dst1 \<in> set h \<and> GreyEvent n2 t so2 dst2 \<in> set h \<and>
     i64 (unix n1 + gs_pass_time (g_cfg g)) < unix n2)"

text \<open>The reasons for which an address may be white.\<close>

definition white_reason :: "greylister \<Rightarrow> event list \<Rightarrow> string \<Rightarrow> bool" where
  "white_reason g h ip \<longleftrightarrow>
     (\<exists>t. t_ip t = ip \<and> retried g h t) \<or>
     (\<exists>now ex del. AddrEvent now False ip ex del \<in> set h) \<or>
     (\<exists>now gt dst check. GreyEvent now gt True dst \<in> set h \<and> t_ip gt = ip \<and> g_spf g = Some check \<and>
        sp_enable (g_spf_cfg g) \<and> sp_whitelist_on_pass (g_spf_cfg g) \<and>
        check (t_ip gt) (t_helo gt) (t_from gt) = SPFPass)"

definition run_inv :: "greylister \<Rightarrow> event list \<Rightarrow> contents \<Rightarrow> bool" where
  "run_inv g h m \<longleftrightarrow>
     (\<forall>t d. m (tuple_key t) = Some d \<longrightarrow>
        (\<exists>n1 so dst. GreyEvent n1 t so dst \<in> set h \<and> d_first d = unix n1) \<and>
        (d_pass d = d_expire d \<or> retried g h t)) \<and>
     (\<forall>ip d. m (ip_key ip) = Some d \<longrightarrow> d_pcount d \<ge> 0 \<longrightarrow> white_reason g h ip)"

lemma retried_mono: "retried g h t \<Longrightarrow> retried g (h @ [e]) t"
  unfolding retried_def by (simp, blast)

lemma white_reason_mono: "white_reason g h ip \<Longrightarrow> white_reason g (h @ [e]) ip"
  unfolding white_reason_def using retried_mono by (simp, blast)

lemma run_inv_mono: "run_inv g h m \<Longrightarrow> run_inv g (h @ [e]) m"
  unfolding run_inv_def using retried_mono white_reason_mono by (simp, blast)

lemma run_inv_put_tuple:
  assumes "run_inv g h m" "GreyEvent n1 t so dst \<in> set h" "d_first d = unix n1" "d_pass d = d_expire d \<or> retried g h t"
  shows "run_inv g h (m(tuple_key t \<mapsto> d))"
  using assms unfolding run_inv_def by auto

lemma run_inv_put_ip:
  assumes "run_inv g h m" "d_pcount d \<ge> 0 \<Longrightarrow> white_reason g h ip"
  shows "run_inv g h (m(ip_key ip \<mapsto> d))"
  using assms unfolding run_inv_def by auto

lemma spf_stage_None:
  "spf_stage g gt so p = None \<Longrightarrow> \<exists>check. so \<and> g_spf g = Some check \<and> sp_enable (g_spf_cfg g) \<and>
     sp_whitelist_on_pass (g_spf_cfg g) \<and> check (t_ip gt) (t_helo gt) (t_from gt) = SPFPass"
  by (auto simp: spf_stage_def split: option.splits if_splits spf_result.splits)

lemma grey_effect_inv:
  assumes inv: "run_inv g h m"
  shows "run_inv g (h @ [GreyEvent now gt so dst]) (grey_effect g now gt so dst m)"
proof -
  let ?h = "h @ [GreyEvent now gt so dst]"
  let ?p = "grey_plan_of g gt (if is_trap g m (t_to gt) then 0 else 1)"
  have inv': "run_inv g ?h m" by (rule run_inv_mono [OF inv])
  have ev: "GreyEvent now gt so dst \<in> set ?h" by simp
  show ?thesis
  proof (cases "spf_stage g gt so ?p")
    case None
    then obtain check where so: "so" and check: "g_spf g = Some check" "sp_enable (g_spf_cfg g)"
      "sp_whitelist_on_pass (g_spf_cfg g)" "check (t_ip gt) (t_helo gt) (t_from gt) = SPFPass"
      using spf_stage_None [OF None] by blast
    from so have "GreyEvent now gt True dst \<in> set ?h" by simp
    with check have "white_reason g ?h (t_ip gt)" unfolding white_reason_def by blast
    then show ?thesis using None run_inv_put_ip [OF inv'] by (simp add: grey_effect_def)
  next
    case (Some p)
    have p: "plan_ok g gt p" by (rule plan_ok_stages(2) [OF plan_ok_stages(1) Some])
    show ?thesis
    proof (cases "m (gp_key p)")
      case None
      let ?q = "low_prio_plan g now gt so dst p"
      have "run_inv g ?h (m(gp_key ?q \<mapsto> new_entry now ?q))"
        using plan_key [OF plan_ok_stages(3) [OF p], of now so dst] run_inv_put_tuple [OF inv' ev, of "new_entry now ?q"]
          run_inv_put_ip [OF inv', of "new_entry now ?q" "t_ip gt"]
        by (cases "gp_spamtrap ?q") (simp_all add: new_entry_def)
      with None Some show ?thesis by (simp add: grey_effect_def Let_def)
    next
      case seen: (Some d)
      have "run_inv g ?h (m(gp_key p \<mapsto> seen_entry g now p d))"
      proof (cases "gp_spamtrap p")
        case True
        then show ?thesis using plan_key [OF p] run_inv_put_ip [OF inv', of "seen_entry g now p d" "t_ip gt"]
          by (simp add: seen_entry_def)
      next
        case False
        then have k: "m (tuple_key gt) = Some d" using seen plan_key [OF p] by simp
        with inv obtain n1 so1 dst1 where n1: "GreyEvent n1 gt so1 dst1 \<in> set h" "d_first d = unix n1"
          "d_pass d = d_expire d \<or> retried g h gt" unfolding run_inv_def by blast
        let ?d = "seen_entry g now p d"
        have n1': "GreyEvent n1 gt so1 dst1 \<in> set ?h" using n1(1) by simp
        have "retried g ?h gt" if "i64 (d_first d + gs_pass_time (g_cfg g)) < unix now"
          unfolding retried_def using that [unfolded n1(2)] n1' ev by blast
        then have "d_pass ?d = d_expire ?d \<or> retried g ?h gt" "d_first ?d = unix n1"
          using n1(2,3) retried_mono False by (auto simp: seen_entry_def)
        then show ?thesis using run_inv_put_tuple [OF inv' n1'] plan_key [OF p] False by simp
      qed
      with seen Some show ?thesis by (simp add: grey_effect_def)
    qed
  qed
qed

lemma addr_effect_inv:
  assumes inv: "run_inv g h m"
  shows "run_inv g (h @ [AddrEvent now tr ip ex del]) (addr_effect now tr ip ex del m)"
proof -
  let ?h = "h @ [AddrEvent now tr ip ex del]"
  have inv': "run_inv g ?h m" by (rule run_inv_mono [OF inv])
  have w: "\<not> tr \<Longrightarrow> white_reason g ?h ip" unfolding white_reason_def by auto
  have del: "run_inv g ?h (m(ip_key ip := None))" using inv' unfolding run_inv_def by auto
  have put: "run_inv g ?h (m(ip_key ip \<mapsto> d))" if "tr \<Longrightarrow> d_pcount d < 0" for d
    using that w by (intro run_inv_put_ip [OF inv']) (cases tr, auto)
  have "addr_effect now tr ip ex del m \<in> {m, m(ip_key ip := None)} \<or>
      (\<exists>d. addr_effect now tr ip ex del m = m(ip_key ip \<mapsto> d) \<and> (tr \<longrightarrow> d_pcount d < 0))"
    by (cases "parse_int ex"; cases "m (ip_key ip)") (auto simp: addr_effect_def)
  with inv' del put show ?thesis by (elim disjE exE conjE insertE emptyE) simp_all
qed

text \<open>A tuple whose pass time is its expiry is expired when the pass time comes.\<close>

lemma ready_retried: "run_inv g h m \<Longrightarrow> ready now m t d \<Longrightarrow> retried g h t"
  unfolding run_inv_def ready_def expired_def by force

lemma scan_inv:
  assumes inv: "run_inv g h m" and sc: "scan_spec now we m r m'"
  shows "run_inv g h m'"
proof -
  have live: "live now m k = Some d \<Longrightarrow> m k = Some d" for k d
    by (auto simp: live_def split: option.splits if_splits)
  have "m (tuple_key t) = Some d" if "m' (tuple_key t) = Some d" for t d
    using sc that live unfolding scan_spec_def promoted_def by (metis option.distinct(1))
  moreover have "white_reason g h ip" if d: "m' (ip_key ip) = Some d" "d_pcount d \<ge> 0" for ip d
  proof -
    from sc have "m' (ip_key ip) = live now m (ip_key ip) \<or> (\<exists>t e. t_ip t = ip \<and> promoted now we m m' t e)"
      unfolding scan_spec_def by blast
    then show ?thesis
    proof
      assume "m' (ip_key ip) = live now m (ip_key ip)"
      with d live have "m (ip_key ip) = Some d" by metis
      with inv d(2) show ?thesis unfolding run_inv_def by blast
    next
      assume "\<exists>t e. t_ip t = ip \<and> promoted now we m m' t e"
      then show ?thesis using ready_retried [OF inv] unfolding promoted_def white_reason_def by blast
    qed
  qed
  ultimately show ?thesis using inv unfolding run_inv_def by blast
qed

context store_contract
begin

definition good :: "'s \<Rightarrow> bool" where
  "good s \<longleftrightarrow> inv (state s) \<and> rw s"

abbreviation contents_of :: "'s \<Rightarrow> contents" where
  "contents_of s \<equiv> look (state s)"

lemma update_run:
  assumes "good s"
    and "\<And>t. inv t \<Longrightarrow> writable t \<Longrightarrow> look t = contents_of s \<Longrightarrow>
           \<exists>x t'. f t = Inr (x, t') \<and> inv t' \<and> P x (look t')"
  shows "\<exists>x s'. update ops None s f = (Inr x, s') \<and> good s' \<and> P x (contents_of s')"
proof -
  obtain t where t: "op_update ops None s = Inr t" "inv t" "writable t" "look t = contents_of s"
    using update_ok [of s] assms(1) by (auto simp: good_def)
  from assms(2) [OF t(2-4)] obtain x t' where x: "f t = Inr (x, t')" "inv t'" "P x (look t')" by blast
  then show ?thesis using t(1) commit_ok [OF x(2), of s] assms(1) by (simp add: update_def good_def)
qed

lemma view_run:
  assumes "good s" "\<And>t. inv t \<Longrightarrow> look t = contents_of s \<Longrightarrow> f t = Inr x"
  shows "view ops None s f = Inr x"
  using view_ok [of s] assms by (auto simp: good_def view_def)

lemma trap_check_ok:
  assumes "inv t"
  shows "trap_check g (op_get ops t) to = Inr (if is_trap g (look t) to then 0 else 1)"
proof -
  have mail: "op_get ops t (mail_key to) = Inr (case look t (mail_key to) of None \<Rightarrow> (zero_data, False) | Some d \<Rightarrow> (d, True))"
    by (rule get_ok [OF assms]) simp
  obtain d f where dom: "op_get ops t (domain_part_key to) = Inr (d, f)"
    "(\<exists>dom. look t (domain_key dom) \<noteq> None \<and> domain_matches dom to) = f" using get_domain [OF assms] by blast
  show ?thesis unfolding trap_check_def is_trap_def dom(2) using mail dom(1)
    by (cases "look t (mail_key to)") (auto simp: trap_mail_def Let_def)
qed

lemma grey_tx_ok:
  assumes t: "inv t" "writable t" and p: "plan_ok g gt p" "tuple_ok gt" and n: "is_i64 (unix now)"
  shows "\<exists>p' t'. grey_tx ops g now gt so dst p t = Inr (p', t') \<and> inv t' \<and>
     look t' = (case look t (gp_key p) of
        None \<Rightarrow> (let p' = low_prio_plan g now gt so dst p in (look t)(gp_key p' \<mapsto> new_entry now p'))
      | Some d \<Rightarrow> (look t)(gp_key p \<mapsto> seen_entry g now p d))"
proof (cases "look t (gp_key p)")
  case None
  let ?p = "low_prio_plan g now gt so dst p"
  have "entry_key (gp_key ?p)" by (rule plan_key_ok [OF plan_ok_stages(3) [OF p(1)] p(2)])
  from put_ok [OF t this entry_data_ok(1) [OF n, of ?p]] obtain t' where
    "op_put ops t (gp_key ?p) (new_entry now ?p) = Inr t'" "inv t'" "look t' = (look t)(gp_key ?p \<mapsto> new_entry now ?p)"
    by blast
  with None get_ok [OF t(1) plan_key_ok [OF p]] show ?thesis by (simp add: grey_tx_def Let_def)
next
  case (Some d)
  then have "data_ok d" using look_keys [OF t(1)] by blast
  from put_ok [OF t plan_key_ok [OF p] entry_data_ok(3) [OF n this, of g p]] obtain t' where
    "op_put ops t (gp_key p) (seen_entry g now p d) = Inr t'" "inv t'" "look t' = (look t)(gp_key p \<mapsto> seen_entry g now p d)"
    by blast
  with Some get_ok [OF t(1) plan_key_ok [OF p]] show ?thesis by (simp add: grey_tx_def Let_def)
qed

lemma process_grey_effect:
  assumes s: "good s" and gt: "tuple_ok gt" and n: "is_i64 (unix now)"
  shows "\<exists>s' evs. process_grey ops g None now gt so dst s = (None, s', evs) \<and> good s' \<and>
     contents_of s' = grey_effect g now gt so dst (contents_of s)"
proof -
  let ?m = "contents_of s"
  let ?p = "grey_plan_of g gt (if is_trap g ?m (t_to gt) then 0 else 1)"
  have v: "view ops None s (\<lambda>t. trap_check g (op_get ops t) (t_to gt)) = Inr (if is_trap g ?m (t_to gt) then 0 else 1)"
    by (rule view_run [OF s]) (simp add: trap_check_ok)
  show ?thesis
  proof (cases "spf_stage g gt so ?p")
    case None
    have "\<exists>x s'. update ops None s (\<lambda>t. case op_put ops t (ip_key (t_ip gt)) (white_entry g now) of
        Inl e \<Rightarrow> Inl e | Inr t' \<Rightarrow> Inr ((), t')) = (Inr x, s') \<and> good s' \<and>
        contents_of s' = ?m(ip_key (t_ip gt) \<mapsto> white_entry g now)"
    proof (rule update_run [OF s])
      fix t assume t: "inv t" "writable t" "look t = ?m"
      obtain t' where "op_put ops t (ip_key (t_ip gt)) (white_entry g now) = Inr t'" "inv t'"
        "look t' = (look t)(ip_key (t_ip gt) \<mapsto> white_entry g now)"
        using put_ok [OF t(1,2) entry_key_simps(1) entry_data_ok(2) [OF n]] by blast
      with t(3) show "\<exists>x t'. (case op_put ops t (ip_key (t_ip gt)) (white_entry g now) of
        Inl e \<Rightarrow> Inl e | Inr t' \<Rightarrow> Inr ((), t')) = Inr (x, t') \<and> inv t' \<and> look t' = ?m(ip_key (t_ip gt) \<mapsto> white_entry g now)"
        by simp
    qed
    with None v show ?thesis
      by (auto simp: process_grey_def core_put_def grey_effect_def white_entry_def)
  next
    case (Some p)
    have p: "plan_ok g gt p" by (rule plan_ok_stages(2) [OF plan_ok_stages(1) Some])
    have "\<exists>x s'. update ops None s (grey_tx ops g now gt so dst p) = (Inr x, s') \<and> good s' \<and>
        contents_of s' = grey_effect g now gt so dst ?m"
    proof (rule update_run [OF s])
      fix t assume t: "inv t" "writable t" "look t = ?m"
      show "\<exists>x t'. grey_tx ops g now gt so dst p t = Inr (x, t') \<and> inv t' \<and> look t' = grey_effect g now gt so dst ?m"
        using grey_tx_ok [OF t(1,2) p gt n, of so dst, unfolded t(3)] Some by (simp add: grey_effect_def)
    qed
    with Some v show ?thesis by (auto simp: process_grey_def)
  qed
qed

lemma addr_put_ok:
  assumes "inv t" "writable t" "data_ok d"
  shows "\<exists>t'. op_put ops t (ip_key ip) d = Inr t' \<and> inv t' \<and> look t' = (look t)(ip_key ip \<mapsto> d)"
  using put_ok [OF assms(1,2) entry_key_simps(1) assms(3)] by blast

lemma addr_tx_ok:
  assumes t: "inv t" "writable t" and n: "is_i64 (unix now)" "is_i64 expire"
  shows "\<exists>t'. addr_tx ops now tr ip expire del t = Inr ((), t') \<and> inv t' \<and>
     look t' = (if del then (look t)(ip_key ip := None)
       else (look t)(ip_key ip \<mapsto>
         (case look t (ip_key ip) of
            None \<Rightarrow> \<lparr>d_first = unix now, d_pass = (if tr then expire else unix now), d_expire = expire,
                     d_bcount = 0, d_pcount = (if tr then PCountTrapped else 0)\<rparr>
          | Some d \<Rightarrow> (if tr then d\<lparr>d_pcount := PCountTrapped, d_bcount := i64 (d_bcount d + 1)\<rparr>
                      else d\<lparr>d_pcount := i64 (d_pcount d + 1)\<rparr>))))"
proof (cases "look t (ip_key ip)")
  case None
  then have idle: "(look t)(ip_key ip := None) = look t" by auto
  have "data_ok \<lparr>d_first = unix now, d_pass = (if tr then expire else unix now), d_expire = expire,
      d_bcount = 0, d_pcount = (if tr then PCountTrapped else 0)\<rparr>"
    using n by (simp add: data_ok_def) (simp add: is_i64_def)
  from addr_put_ok [OF t this, of ip] None get_ok [OF t(1) entry_key_simps(1), of ip] idle t(1)
  show ?thesis by (auto simp: addr_tx_def Let_def)
next
  case (Some d)
  then have d: "data_ok d" using look_keys [OF t(1)] by blast
  obtain t1 where t1: "op_del ops t (ip_key ip) = Inr (True, t1)" "inv t1" "look t1 = (look t)(ip_key ip := None)"
    using del_ok [OF t entry_key_simps(1), of ip] Some by auto
  have "is_i64 (-1)" by (simp add: is_i64_def)
  then have "data_ok (d\<lparr>d_pcount := PCountTrapped, d_bcount := i64 (d_bcount d + 1)\<rparr>)"
    "data_ok (d\<lparr>d_pcount := i64 (d_pcount d + 1)\<rparr>)" using d by (simp_all add: data_ok_def i64_range)
  from this [THEN addr_put_ok [OF t], of ip] Some get_ok [OF t(1) entry_key_simps(1), of ip] t1
  show ?thesis by (auto simp: addr_tx_def Let_def)
qed

lemma process_non_grey_effect:
  assumes s: "good s" and n: "is_i64 (unix now)"
  shows "\<exists>s'. process_non_grey ops None now tr ip expires del s = (None, s') \<and> good s' \<and>
     contents_of s' = addr_effect now tr ip expires del (contents_of s)"
proof (cases "\<not> del \<and> (parse_int expires = None \<or> parse_int expires = Some 0)")
  case True
  then show ?thesis using s by (auto simp: process_non_grey_def addr_effect_def)
next
  case False
  define expire where "expire = (case parse_int expires of None \<Rightarrow> 0 | Some n \<Rightarrow> n)"
  have e: "is_i64 expire" using parse_int_range [of expires]
    by (auto simp: expire_def is_i64_def split: option.splits)
  have "\<exists>x s'. update ops None s (addr_tx ops now tr ip expire del) = (Inr x, s') \<and> good s' \<and>
      contents_of s' = addr_effect now tr ip expires del (contents_of s)"
  proof (rule update_run [OF s])
    fix t assume t: "inv t" "writable t" "look t = contents_of s"
    from addr_tx_ok [OF t(1,2) n e, of tr ip del, unfolded t(3)] False
    show "\<exists>x t'. addr_tx ops now tr ip expire del t = Inr (x, t') \<and> inv t' \<and>
       look t' = addr_effect now tr ip expires del (contents_of s)"
      by (auto simp: addr_effect_def expire_def split: option.splits)
  qed
  with False show ?thesis by (auto simp: process_non_grey_def Let_def expire_def split: option.splits)
qed

lemma scan_once_effect:
  assumes s: "good s"
  shows "\<exists>r s'. update ops None s (\<lambda>t. op_scan ops t now we) = (Inr r, s') \<and> good s' \<and>
     scan_spec now we (contents_of s) r (contents_of s')"
proof (rule update_run [OF s])
  fix t assume t: "inv t" "writable t" "look t = contents_of s"
  from scan_ok [OF t(1,2), of now we, unfolded t(3)]
  show "\<exists>x t'. op_scan ops t now we = Inr (x, t') \<and> inv t' \<and> scan_spec now we (contents_of s) x (look t')" by blast
qed

lemma scan_run:
  assumes "good s"
  shows "\<exists>s' trap r. scan_once ops g None now s =
       (None, s', trap, update_firewall g 4 (sr_whitelist r) @
          (if g_ipv6 g then update_firewall g 6 (sr_whitelist_v6 r) else [])) \<and>
     (g_trap_out g \<longrightarrow> (\<exists>stats. trap =
        write_blacklist (gs_traplist_name (g_cfg g)) (gs_traplist_message (g_cfg g)) (sr_traplist r) @ stats)) \<and>
     good s' \<and> scan_spec (unix now) (gs_white_expiry (g_cfg g)) (contents_of s) r (contents_of s')"
proof -
  obtain r s' where r: "update ops None s (\<lambda>t. op_scan ops t (unix now) (gs_white_expiry (g_cfg g))) = (Inr r, s')"
    "good s'" "scan_spec (unix now) (gs_white_expiry (g_cfg g)) (contents_of s) r (contents_of s')"
    using scan_once_effect [OF assms] by blast
  show ?thesis using r by (cases "g_trap_out g") (simp_all add: scan_once_def, blast+)
qed

lemma engine_step_inv:
  assumes "good s" "run_inv g h (contents_of s)" "event_ok e"
  shows "good (engine_step ops g e s) \<and> run_inv g (h @ [e]) (contents_of (engine_step ops g e s))"
proof (cases e)
  case (GreyEvent now gt so dst)
  then show ?thesis using process_grey_effect [OF assms(1), of gt now g so dst] grey_effect_inv [OF assms(2)] assms(3) by auto
next
  case (AddrEvent now tr ip ex del)
  then show ?thesis
    using process_non_grey_effect [OF assms(1), of now tr ip ex del] addr_effect_inv [OF assms(2)] assms(3) by auto
next
  case (ScanEvent now)
  obtain s' trap fw r where r: "scan_once ops g None now s = (None, s', trap, fw)" "good s'"
    "scan_spec (unix now) (gs_white_expiry (g_cfg g)) (contents_of s) r (contents_of s')"
    using scan_run [OF assms(1), of g now] by blast
  show ?thesis using r(1,2) run_inv_mono [OF scan_inv [OF assms(2) r(3)]] ScanEvent by simp
qed

lemma runs_inv:
  assumes "runs ops g s0 h s" "good s0" "contents_of s0 = Map.empty"
  shows "good s \<and> run_inv g h (contents_of s)"
  using assms
proof (induction rule: runs.induct)
  case start
  then show ?case by (simp add: run_inv_def)
next
  case (step h s e)
  then show ?case using engine_step_inv [of s g h e] by blast
qed

lemma scan_white_reason:
  assumes "good s" "run_inv g h (contents_of s)"
  shows "\<exists>s' trap wl wl6. scan_once ops g None now s =
       (None, s', trap, update_firewall g 4 wl @ (if g_ipv6 g then update_firewall g 6 wl6 else [])) \<and>
     (\<forall>ip \<in> set wl \<union> set wl6. white_reason g h ip)"
proof -
  obtain s' trap r where r: "scan_once ops g None now s =
       (None, s', trap, update_firewall g 4 (sr_whitelist r) @
          (if g_ipv6 g then update_firewall g 6 (sr_whitelist_v6 r) else []))"
    "scan_spec (unix now) (gs_white_expiry (g_cfg g)) (contents_of s) r (contents_of s')"
    using scan_run [OF assms(1), of g now] by blast
  have "white_reason g h ip" if "ip \<in> set (sr_whitelist r) \<union> set (sr_whitelist_v6 r)" for ip
    using that r(2) scan_inv [OF assms(2) r(2)] unfolding scan_spec_def lists_of_def white_in_def run_inv_def by blast
  with r(1) show ?thesis by blast
qed

lemma retry_whitelists:
  assumes s: "good s" and ok: "tuple_ok gt" "is_i64 (unix now)"
    and d: "contents_of s (tuple_key gt) = Some d" and none: "contents_of s (ip_key (t_ip gt)) = None"
    and trap: "\<not> is_trap g (contents_of s) (t_to gt)"
    and spf: "spf_stage g gt so (grey_plan_of g gt 1) = Some (grey_plan_of g gt 1)"
    and time: "i64 (d_first d + gs_pass_time (g_cfg g)) < unix now" "unix now \<le> unix now'" "unix now' < d_expire d"
  shows "\<exists>s1 evs s2 trap wl wl6. process_grey ops g None now gt so dst s = (None, s1, evs) \<and>
     scan_once ops g None now' s1 =
       (None, s2, trap, update_firewall g 4 wl @ (if g_ipv6 g then update_firewall g 6 wl6 else [])) \<and>
     t_ip gt \<in> (if check_addr (t_ip gt) = 6 then set wl6 else set wl)"
proof -
  obtain s1 evs where s1: "process_grey ops g None now gt so dst s = (None, s1, evs)" "good s1"
    "contents_of s1 = grey_effect g now gt so dst (contents_of s)" using process_grey_effect [OF s ok] by blast
  have m1: "contents_of s1 = (contents_of s)(tuple_key gt \<mapsto> seen_entry g now (grey_plan_of g gt 1) d)"
    using s1(3) trap spf d by (simp add: grey_effect_def grey_plan_of_def)
  obtain s2 trap r where r: "scan_once ops g None now' s1 =
       (None, s2, trap, update_firewall g 4 (sr_whitelist r) @
          (if g_ipv6 g then update_firewall g 6 (sr_whitelist_v6 r) else []))"
    "scan_spec (unix now') (gs_white_expiry (g_cfg g)) (contents_of s1) r (contents_of s2)"
    using scan_run [OF s1(2), of g now'] by blast
  have rd: "ready (unix now') (contents_of s1) gt (seen_entry g now (grey_plan_of g gt 1) d)"
    using time by (simp add: ready_def m1 expired_def seen_entry_def grey_plan_of_def)
  then have ne: "contents_of s2 (ip_key (t_ip gt)) \<noteq> None" using r(2) unfolding scan_spec_def by blast
  have "live (unix now') (contents_of s1) (ip_key (t_ip gt)) = None" by (simp add: live_def m1 none)
  then obtain t e where "t_ip t = t_ip gt" "promoted (unix now') (gs_white_expiry (g_cfg g)) (contents_of s1) (contents_of s2) t e"
    using r(2) ne unfolding scan_spec_def by metis
  then have "white_in (unix now') (contents_of s2) (t_ip gt)" by (auto simp: white_in_def promoted_def ready_def)
  then have "t_ip gt \<in> (if check_addr (t_ip gt) = 6 then set (sr_whitelist_v6 r) else set (sr_whitelist r))"
    using r(2) by (simp add: scan_spec_def lists_of_def)
  then show ?thesis using s1(1) r(1) by blast
qed

lemma trap_traps:
  assumes s: "good s" and ok: "tuple_ok gt" "is_i64 (unix now)" and trap: "is_trap g (contents_of s) (t_to gt)"
  shows "\<exists>s1 evs d. process_grey ops g None now gt so dst s = (None, s1, evs) \<and> contents_of s1 (ip_key (t_ip gt)) = Some d \<and>
     (\<forall>now'. g_trap_out g \<longrightarrow> unix now' < d_expire d \<longrightarrow>
        (\<exists>s2 fw ips stats. scan_once ops g None now' s1 = (None, s2,
            write_blacklist (gs_traplist_name (g_cfg g)) (gs_traplist_message (g_cfg g)) ips @ stats, fw) \<and> t_ip gt \<in> set ips))"
proof -
  let ?ip = "ip_key (t_ip gt)"
  obtain s1 evs where s1: "process_grey ops g None now gt so dst s = (None, s1, evs)" "good s1"
    "contents_of s1 = grey_effect g now gt so dst (contents_of s)" using process_grey_effect [OF s ok] by blast
  have "\<exists>d. grey_effect g now gt so dst (contents_of s) ?ip = Some d \<and> d_pcount d = -1"
    using trap by (auto simp: grey_effect_def spf_stage_def grey_plan_of_def low_prio_plan_def trap_plan_def Let_def
        new_entry_def seen_entry_def split: option.splits)
  then obtain d where d: "contents_of s1 ?ip = Some d" "d_pcount d = -1" using s1(3) by auto
  have "\<exists>s2 fw ips stats. scan_once ops g None now' s1 = (None, s2,
      write_blacklist (gs_traplist_name (g_cfg g)) (gs_traplist_message (g_cfg g)) ips @ stats, fw) \<and> t_ip gt \<in> set ips"
    if now': "g_trap_out g" "unix now' < d_expire d" for now'
  proof -
    obtain s2 fw stats r where r: "scan_once ops g None now' s1 = (None, s2,
        write_blacklist (gs_traplist_name (g_cfg g)) (gs_traplist_message (g_cfg g)) (sr_traplist r) @ stats, fw)"
      "scan_spec (unix now') (gs_white_expiry (g_cfg g)) (contents_of s1) r (contents_of s2)"
      using scan_run [OF s1(2), of g now'] now'(1) by blast
    have "live (unix now') (contents_of s1) ?ip = Some d" using d now'(2) by (simp add: live_def expired_def)
    then have "contents_of s2 ?ip = Some d" using r(2) unfolding scan_spec_def by (metis option.distinct(1))
    then have "t_ip gt \<in> set (sr_traplist r)" using r(2) d(2) by (auto simp: scan_spec_def lists_of_def trapped_in_def)
    with r(1) show ?thesis by blast
  qed
  with s1(1) d(1) show ?thesis by blast
qed

end

subsection \<open>The engine over the in-memory driver\<close>

abbreviation mem_contents :: "mem_store \<Rightarrow> contents" where
  "mem_contents s \<equiv> mem_look (mem_state s)"

lemma mem_good: "mem_db.good s \<longleftrightarrow> mem_inv (mem_state s) \<and> \<not> ms_read_only s"
  by (simp add: mem_db.good_def)

lemma mem_new_good: "mem_db.good mem_new" "mem_contents mem_new = Map.empty"
  by (auto simp: mem_good mem_new_def mem_state_def mem_inv_def mem_look_def new_database_def)

lemmas mem_runs_inv = mem_db.runs_inv [OF _ mem_new_good]

text \<open>
  C2: Whitelisting is sound. After any sequence of messages and scans on a new database, a scan
  succeeds, and every address it hands to the firewall was earned: a tuple of that address was
  seen twice, the second time more than the pass time after a first sighting, or an operator or
  another host announced the address as white, or it passed SPF and the configuration whitelists
  on a pass.
\<close>

theorem whitelist_sound:
  assumes "runs memory_ops g mem_new h s"
  shows "\<exists>s' trap wl wl6. scan_once memory_ops g None now s =
       (None, s', trap, update_firewall g 4 wl @ (if g_ipv6 g then update_firewall g 6 wl6 else [])) \<and>
     (\<forall>ip \<in> set wl \<union> set wl6. white_reason g h ip)"
  using mem_runs_inv [OF assms] mem_db.scan_white_reason by blast

definition example_tuple :: tuple where
  "example_tuple = \<lparr>t_ip = ''192.0.2.7'', t_helo = ''mx.example.org'', t_from = ''a@example.org'', t_to = ''b@example.net''\<rparr>"

definition first_seen :: mem_store where
  "first_seen = engine_step memory_ops default_greylister (GreyEvent 0 example_tuple False []) mem_new"

lemma example_tuple_ok: "tuple_ok example_tuple" by code_simp

lemma first_seen_run: "runs memory_ops default_greylister mem_new [GreyEvent 0 example_tuple False []] first_seen"
  using runs.step [OF runs.start, of "GreyEvent 0 example_tuple False []"] example_tuple_ok
  by (simp add: first_seen_def unix_def is_i64_def)

lemma first_seen_contents: "mem_contents first_seen = [tuple_key example_tuple \<mapsto>
   \<lparr>d_first = 0, d_pass = 14400, d_expire = 14400, d_bcount = 1, d_pcount = 0\<rparr>]"
proof -
  have "is_i64 (unix 0)" by (simp add: unix_def is_i64_def)
  from mem_db.process_grey_effect [OF mem_new_good(1) example_tuple_ok this, of default_greylister False "[]"]
  have "mem_contents first_seen = grey_effect default_greylister 0 example_tuple False [] (mem_contents mem_new)"
    by (auto simp: first_seen_def)
  then show ?thesis
    by (simp add: mem_new_good(2) grey_effect_def is_trap_def default_greylister_def default_grey_def spf_stage_def
        grey_plan_of_def low_prio_plan_def new_entry_def unix_def i64_def)
qed

theorem whitelist_sound_witness:
  "\<exists>s' trap wl wl6. scan_once memory_ops default_greylister None 5000000000 first_seen =
       (None, s', trap, update_firewall default_greylister 4 wl) \<and>
     (\<forall>ip \<in> set wl \<union> set wl6. white_reason default_greylister [GreyEvent 0 example_tuple False []] ip)"
  using whitelist_sound [OF first_seen_run, of 5000000000] by (simp add: default_greylister_def)

text \<open>
  C3: Whitelisting is complete. A tuple on record whose host comes back after the pass time, with a
  recipient that is no trap and without a verdict of SPF, gets its address into the whitelist sent to
  the firewall by the next scan before the entry expires, when the address has no entry of its own.
\<close>

theorem retry_is_whitelisted:
  assumes "runs memory_ops g mem_new h s" "tuple_ok gt" "is_i64 (unix now)"
    and "mem_contents s (tuple_key gt) = Some d" "mem_contents s (ip_key (t_ip gt)) = None"
    and "\<not> is_trap g (mem_contents s) (t_to gt)"
    and "spf_stage g gt so (grey_plan_of g gt 1) = Some (grey_plan_of g gt 1)"
    and "i64 (d_first d + gs_pass_time (g_cfg g)) < unix now" "unix now \<le> unix now'" "unix now' < d_expire d"
  shows "\<exists>s1 evs s2 trap wl wl6. process_grey memory_ops g None now gt so dst s = (None, s1, evs) \<and>
     scan_once memory_ops g None now' s1 =
       (None, s2, trap, update_firewall g 4 wl @ (if g_ipv6 g then update_firewall g 6 wl6 else [])) \<and>
     t_ip gt \<in> (if check_addr (t_ip gt) = 6 then set wl6 else set wl)"
  using mem_db.retry_whitelists [OF _ assms(2-10)] mem_runs_inv [OF assms(1)] by blast

theorem retry_is_whitelisted_witness:
  "\<exists>s1 evs s2 trap wl. process_grey memory_ops default_greylister None 1600000000000 example_tuple False [] first_seen = (None, s1, evs) \<and>
     scan_once memory_ops default_greylister None 1660000000000 s1 = (None, s2, trap, update_firewall default_greylister 4 wl) \<and>
     ''192.0.2.7'' \<in> set wl"
proof -
  have "check_addr ''192.0.2.7'' \<noteq> 6" by code_simp
  then show ?thesis
    using retry_is_whitelisted [OF first_seen_run example_tuple_ok, of 1600000000000
        "\<lparr>d_first = 0, d_pass = 14400, d_expire = 14400, d_bcount = 1, d_pcount = 0\<rparr>" False 1660000000000 "[]"]
    by (simp add: first_seen_contents is_trap_def default_greylister_def default_grey_def spf_stage_def unix_def is_i64_def
        i64_def example_tuple_def)
qed


definition picky_greylister :: greylister where
  "picky_greylister = default_greylister\<lparr>g_domains := [''example.com'']\<rparr>"


text \<open>
  C16: The engine refines its specification on maps. On every database of the driver, handling a
  greylisting message or an address message succeeds and changes the contents exactly as the
  transition on the map of entries says: one entry is written, or removed, or nothing changes.
\<close>

theorem engine_refines_map:
  assumes "mem_inv (mem_state s)" "\<not> ms_read_only s" "tuple_ok gt" "is_i64 (unix now)"
  shows "(\<exists>s' evs. process_grey memory_ops g None now gt so dst s = (None, s', evs) \<and> mem_inv (mem_state s') \<and>
        mem_contents s' = grey_effect g now gt so dst (mem_contents s)) \<and>
     (\<exists>s'. process_non_grey memory_ops None now tr ip ex del s = (None, s') \<and> mem_inv (mem_state s') \<and>
        mem_contents s' = addr_effect now tr ip ex del (mem_contents s))"
  using mem_db.process_grey_effect [of s gt now g so dst] mem_db.process_non_grey_effect [of s now tr ip ex del] assms
  by (auto simp: mem_good)

theorem engine_refines_map_witness:
  "\<exists>s' evs. process_grey memory_ops default_greylister None 0 example_tuple False [] mem_new = (None, s', evs) \<and>
     mem_contents s' = grey_effect default_greylister 0 example_tuple False [] Map.empty"
  using engine_refines_map [of mem_new example_tuple 0 default_greylister False "[]" False "[]" "[]" False]
    example_tuple_ok mem_new_good
  by (auto simp: mem_good unix_def is_i64_def)

subsection \<open>Counting the entries\<close>

definition entries_where :: "(key \<Rightarrow> data \<Rightarrow> bool) \<Rightarrow> contents \<Rightarrow> key set" where
  "entries_where P m = {k. \<exists>d. m k = Some d \<and> P k d}"

definition is_grey :: "key \<Rightarrow> data \<Rightarrow> bool" where
  "is_grey k d \<longleftrightarrow> k_type k = KeyTuple"

definition is_spamtrap :: "key \<Rightarrow> data \<Rightarrow> bool" where
  "is_spamtrap k d \<longleftrightarrow> \<not> is_grey k d \<and> (k_type k = KeyMail \<or> d_pcount d = PCountSpamtrap)"

definition is_domain :: "key \<Rightarrow> data \<Rightarrow> bool" where
  "is_domain k d \<longleftrightarrow> \<not> is_grey k d \<and> \<not> is_spamtrap k d \<and>
     (k_type k = KeyDomain \<or> k_type k = KeyDomainPart \<or> d_pcount d = PCountDomain)"

definition is_trapped :: "key \<Rightarrow> data \<Rightarrow> bool" where
  "is_trapped k d \<longleftrightarrow> \<not> is_grey k d \<and> \<not> is_spamtrap k d \<and> \<not> is_domain k d \<and> d_pcount d = PCountTrapped"

definition is_white :: "key \<Rightarrow> data \<Rightarrow> bool" where
  "is_white k d \<longleftrightarrow> \<not> is_grey k d \<and> \<not> is_spamtrap k d \<and> \<not> is_domain k d \<and> \<not> is_trapped k d"

lemmas kinds = is_grey_def is_spamtrap_def is_domain_def is_trapped_def is_white_def

lemma i64_add_one: "i64 (i64 (a + int n) + 1) = i64 (a + int (Suc n))"
  by (simp add: i64_def mod_simps algebra_simps)

lemma count_entry_kinds:
  "ec_grey (count_entry (k, d) c) = (if is_grey k d then i64 (ec_grey c + 1) else ec_grey c)"
  "ec_white (count_entry (k, d) c) = (if is_white k d then i64 (ec_white c + 1) else ec_white c)"
  "ec_trapped (count_entry (k, d) c) = (if is_trapped k d then i64 (ec_trapped c + 1) else ec_trapped c)"
  "ec_spamtrap (count_entry (k, d) c) = (if is_spamtrap k d then i64 (ec_spamtrap c + 1) else ec_spamtrap c)"
  "ec_domain (count_entry (k, d) c) = (if is_domain k d then i64 (ec_domain c + 1) else ec_domain c)"
  by (simp_all add: count_entry_def kinds)

lemma fold_count_entry:
  "let n = (\<lambda>P. int (length (filter (case_prod P) es))); c' = fold count_entry (rev es) no_counts
   in ec_grey c' = i64 (n is_grey) \<and> ec_white c' = i64 (n is_white) \<and> ec_trapped c' = i64 (n is_trapped) \<and>
      ec_spamtrap c' = i64 (n is_spamtrap) \<and> ec_domain c' = i64 (n is_domain)"
proof (induction es)
  case Nil
  then show ?case by (simp add: i64_def)
next
  case (Cons e es)
  obtain k d where e: "e = (k, d)" by fastforce
  note one = i64_add_one [of 0, simplified]
  show ?case using Cons.IH one unfolding e by (simp add: Let_def count_entry_kinds)
qed

lemma length_entries:
  assumes "distinct (map fst es)" "\<And>k d. (k, d) \<in> set es \<longleftrightarrow> m k = Some d"
  shows "length (filter (case_prod P) es) = card (entries_where P m)"
proof -
  have d: "distinct (map fst (filter (case_prod P) es))" using assms(1) by (rule distinct_map_filter)
  have "set (map fst (filter (case_prod P) es)) = entries_where P m"
    unfolding entries_where_def using assms(2) by force
  then show ?thesis using distinct_card [OF d] by simp
qed

lemma fold_count_rev: "fold count_entry es no_counts = fold count_entry (rev (rev es)) no_counts" by simp

lemma selected_all: "entry_key k \<Longrightarrow> selected 7 k"
  by (auto simp: entry_key_def selected_def kind_bit_def bucket_for_def split: bucket.splits)

text \<open>
  The report counts every entry once: greylisted tuples, white addresses, trapped addresses, spam
  traps and domains are the numbers of entries of the five kinds, which partition the contents.
\<close>

theorem summarize_counts:
  assumes "mem_inv (mem_state s)"
  shows "\<exists>c. summarize memory_ops None s = Inr c \<and>
     (let n = (\<lambda>P. i64 (int (card (entries_where P (mem_contents s)))))
      in ec_grey c = n is_grey \<and> ec_white c = n is_white \<and> ec_trapped c = n is_trapped \<and>
         ec_spamtrap c = n is_spamtrap \<and> ec_domain c = n is_domain)"
proof -
  obtain t where t: "op_view memory_ops None s = Inr t" "mem_inv t" "mem_look t = mem_contents s"
    using mem_db.view_ok [OF assms] by blast
  obtain es where es: "op_entries memory_ops t 7 = Inr es" "distinct (map fst es)"
    "\<And>k d. (k, d) \<in> set es \<longleftrightarrow> mem_look t k = Some d \<and> selected 7 k" using mem_db.entries_ok [OF t(2), of 7] by blast
  have all: "(k, d) \<in> set es \<longleftrightarrow> mem_contents s k = Some d" for k d
    using es(3) mem_db.look_keys [OF t(2)] selected_all t(3) by metis
  have len: "length (filter (case_prod P) (rev es)) = card (entries_where P (mem_contents s))" for P
    using length_entries [of "rev es" "mem_contents s" P] es(2) all by (simp add: rev_map [symmetric])
  show ?thesis
    using t(1) es(1) fold_count_entry [of "rev es"] unfolding len fold_count_rev [symmetric]
    by (simp add: summarize_def view_def Let_def)
qed

theorem summarize_counts_witness:
  "\<exists>c. summarize memory_ops None first_seen = Inr c \<and> ec_grey c = 1 \<and> ec_white c = 0"
proof -
  have g: "mem_inv (mem_state first_seen)" using mem_runs_inv [OF first_seen_run] by (simp add: mem_good)
  have "entries_where is_grey (mem_contents first_seen) = {tuple_key example_tuple}"
    "entries_where is_white (mem_contents first_seen) = {}"
    unfolding first_seen_contents entries_where_def by (auto simp: kinds)
  with summarize_counts [OF g] show ?thesis by (auto simp: Let_def i64_def)
qed

end
