(* ===== verification/Sync_Engine.thy ===== *)
theory Sync_Engine
  imports Sync_Wire Greylister "HOL-Library.AList"
begin

text \<open>
  The synchronisation engine: \<open>internal/sync/engine.go\<close>. It sends an entry to every target and
  turns received packets into messages for the greylister, behind the HMAC and a replay window per
  peer. The table of peers is an association list; the order in which Go iterates over a map is a
  parameter. Name resolution, the sockets and the multicast group are the environment.
\<close>

record sync_settings =
  sc_enable :: bool
  sc_hosts :: "string list"
  sc_bind_address :: string
  sc_port :: int
  sc_ttl :: int
  sc_verify :: bool
  sc_key :: string
  sc_mcast_address :: string
  sc_replay_window :: int

record replay_state =
  rs_hi :: u32
  rs_bitmap :: u64
  rs_seen :: bool
  rs_last :: int

type_synonym replay_table = "(addr \<times> replay_state) list"

record sync_engine =
  sy_cfg :: sync_settings
  sy_key :: bytes
  sy_keyed :: bool
  sy_counter :: u32
  sy_hosts :: "(string \<times> addr) list"
  sy_iface :: string
  sy_send_mcast :: bool
  sy_open :: bool
  sy_sync_in :: addr
  sy_sync_out :: "addr option"
  sy_grey_ok :: bool
  sy_replay :: replay_table

subsection \<open>Set-up\<close>

text \<open>The resolver gives the addresses of a name or fails. The first with an IPv4 form is taken.\<close>

definition add_host :: "(string \<Rightarrow> addr list option) \<Rightarrow> string \<Rightarrow> sync_engine \<Rightarrow> sync_engine option" where
  "add_host resolve name e =
     (case resolve name of
        None \<Rightarrow> None
      | Some as \<Rightarrow>
          (case filter (\<lambda>a. is4 (unmap a)) as of
             [] \<Rightarrow> None
           | a # _ \<Rightarrow> Some (e\<lparr>sy_hosts := sy_hosts e @ [(name, unmap a)]\<rparr>)))"

fun add_hosts :: "(string \<Rightarrow> addr list option) \<Rightarrow> string list \<Rightarrow> sync_engine \<Rightarrow> sync_engine" where
  "add_hosts resolve [] e = e"
| "add_hosts resolve (h # hs) e =
     add_hosts resolve hs (case add_host resolve h e of Some e' \<Rightarrow> e' | None \<Rightarrow> e\<lparr>sy_iface := h\<rparr>)"

definition host_names :: "sync_engine \<Rightarrow> string list" where
  "host_names e = map fst (sy_hosts e)"

datatype new_error = KeyUnreadable | KeyMissing

definition blank_engine :: "sync_settings \<Rightarrow> bool \<Rightarrow> sync_engine" where
  "blank_engine cfg grey =
     \<lparr>sy_cfg = cfg, sy_key = zero_key, sy_keyed = False, sy_counter = 0, sy_hosts = [], sy_iface = [],
      sy_send_mcast = False, sy_open = False, sy_sync_in = AddrZero, sy_sync_out = None, sy_grey_ok = grey, sy_replay = []\<rparr>"

text \<open>No engine (\<open>Inr None\<close>) when synchronisation is disabled.\<close>

definition new_engine ::
  "(string \<Rightarrow> addr list option) \<Rightarrow> (string \<Rightarrow> key_file) \<Rightarrow> sync_settings \<Rightarrow> bool \<Rightarrow> new_error + sync_engine option" where
  "new_engine resolve files cfg grey =
     (if \<not> sc_enable cfg then Inr None
      else let e = add_hosts resolve (sc_hosts cfg) (blank_engine cfg grey)
        in if sc_verify cfg then
             (case load_key (files (sc_key cfg)) of
                None \<Rightarrow> Inl KeyUnreadable
              | Some (k, ok) \<Rightarrow> if \<not> ok then Inl KeyMissing else Inr (Some (e\<lparr>sy_key := k, sy_keyed := ok\<rparr>)))
           else Inr (Some e))"

subsection \<open>The replay window\<close>

definition max_replay_peers :: nat where "max_replay_peers = 1024"

definition window_of :: "sync_engine \<Rightarrow> u32" where
  "window_of e = (let w = word_of_int (sc_replay_window (sy_cfg e)) in if 64 < w then 64 else w)"

definition slide :: "u32 \<Rightarrow> u32 \<Rightarrow> replay_state \<Rightarrow> bool \<times> replay_state" where
  "slide window counter st =
     (if \<not> rs_seen st then (True, st\<lparr>rs_seen := True, rs_hi := counter, rs_bitmap := 1\<rparr>)
      else if rs_hi st < counter then
        (let shift = counter - rs_hi st;
             b = (if 64 \<le> shift then 0 else push_bit (unat shift) (rs_bitmap st))
         in (True, st\<lparr>rs_bitmap := b OR 1, rs_hi := counter\<rparr>))
      else if rs_hi st - counter < window then
        (let b = push_bit (unat (rs_hi st - counter)) 1
         in if rs_bitmap st AND b \<noteq> 0 then (False, st) else (True, st\<lparr>rs_bitmap := rs_bitmap st OR b\<rparr>))
      else if counter < window then (True, st\<lparr>rs_hi := counter, rs_bitmap := 1\<rparr>)
      else (False, st))"

fun oldest_peer :: "replay_table \<Rightarrow> (addr \<times> int) option \<Rightarrow> (addr \<times> int) option" where
  "oldest_peer [] best = best"
| "oldest_peer ((a, st) # t) best =
     oldest_peer t (case best of None \<Rightarrow> Some (a, rs_last st)
                    | Some (b, w) \<Rightarrow> if rs_last st < w then Some (a, rs_last st) else best)"

definition evict_replay_peer :: "(replay_table \<Rightarrow> replay_table) \<Rightarrow> replay_table \<Rightarrow> replay_table" where
  "evict_replay_peer order t =
     (case oldest_peer (order t) None of None \<Rightarrow> t | Some (a, _) \<Rightarrow> AList.delete a t)"

definition blank_replay :: replay_state where
  "blank_replay = \<lparr>rs_hi = 0, rs_bitmap = 0, rs_seen = False, rs_last = 0\<rparr>"

definition accept_counter ::
  "(replay_table \<Rightarrow> replay_table) \<Rightarrow> int \<Rightarrow> addr \<Rightarrow> u32 \<Rightarrow> sync_engine \<Rightarrow> bool \<times> sync_engine" where
  "accept_counter order now src counter e =
     (let window = window_of e; a = unmap src in
      if window = 0 \<or> \<not> is_valid src then (True, e)
      else
        (let t = sy_replay e;
             (st, t1) = (case map_of t a of
                           Some st \<Rightarrow> (st, t)
                         | None \<Rightarrow> (blank_replay, if max_replay_peers \<le> length t then evict_replay_peer order t else t));
             (ok, st') = slide window counter (st\<lparr>rs_last := now\<rparr>)
         in (ok, e\<lparr>sy_replay := AList.update a st' t1\<rparr>)))"

subsection \<open>Receiving\<close>

text \<open>The stream to the greylister: whether there is one, whether writes succeed, what was written.\<close>

record sink =
  sk_open :: bool
  sk_ok :: bool
  sk_data :: string

fun entry_frame :: "string \<Rightarrow> sync_entry \<Rightarrow> string option" where
  "entry_frame src e =
     (if se_type e = TypeGrey_tlv then
        Some (write_grey_from_sync (addr_string (se_ip e)) (se_helo e) (se_from e) (se_to e))
      else if se_type e \<in> {TypeWhite_tlv, TypeDelWhite_tlv} then
        Some (write_addr MsgWhite (addr_string (se_ip e)) src (se_expire e) (se_delete e))
      else if se_type e \<in> {TypeTrapped_tlv, TypeDelTrapped_tlv} then
        Some (write_addr MsgTrap (addr_string (se_ip e)) src (se_expire e) (se_delete e))
      else None)"

text \<open>The loop over the entries; false when a write failed.\<close>

fun forward :: "bool \<Rightarrow> string \<Rightarrow> sync_entry list \<Rightarrow> sink \<Rightarrow> bool \<times> sink" where
  "forward grey_ok src [] sk = (True, sk)"
| "forward grey_ok src (e # es) sk =
     (case entry_frame src e of
        None \<Rightarrow> forward grey_ok src es sk
      | Some f \<Rightarrow>
          if grey_ok \<and> sk_open sk then
            (if sk_ok sk then forward grey_ok src es (sk\<lparr>sk_data := sk_data sk @ f\<rparr>) else (False, sk))
          else forward grey_ok src es sk)"

text \<open>A datagram is cut to the size of the buffer. The result is \<open>None\<close> on a panic.\<close>

definition recv ::
  "(replay_table \<Rightarrow> replay_table) \<Rightarrow> int \<Rightarrow> addr \<Rightarrow> bytes \<Rightarrow> sync_engine \<Rightarrow> sink \<Rightarrow> (bool \<times> sync_engine \<times> sink) option" where
  "recv order now src datagram e sk =
     (let buf = take max_size datagram in
      if buf = [] \<or> (is_valid (sy_sync_in e) \<and> unmap src = sy_sync_in e) then Some (True, e, sk)
      else (case sync_decode (sy_key e) buf of
              None \<Rightarrow> None
            | Some (Inl _) \<Rightarrow> Some (True, e, sk)
            | Some (Inr pkt) \<Rightarrow>
                (let (ok, e') = accept_counter order now src (pk_counter pkt) e
                 in if \<not> ok then Some (True, e', sk)
                    else let (w, sk') = forward (sy_grey_ok e) (addr_string (unmap src)) (pk_entries pkt) sk
                      in Some (w, e', sk'))))"

subsection \<open>Sending\<close>

definition send_targets :: "sync_engine \<Rightarrow> addr list" where
  "send_targets e =
     (if \<not> sy_open e then []
      else (if sy_send_mcast e then (case sy_sync_out e of None \<Rightarrow> [] | Some a \<Rightarrow> [a]) else []) @ map snd (sy_hosts e))"

definition sync_send :: "bytes \<Rightarrow> sync_engine \<Rightarrow> (addr \<times> bytes) list" where
  "sync_send pkt e = map (\<lambda>a. (a, pkt)) (send_targets e)"

definition sync_update :: "tuple \<Rightarrow> int \<Rightarrow> sync_engine \<Rightarrow> sync_engine \<times> (addr \<times> bytes) list" where
  "sync_update t now e =
     (case parse_addr (t_ip t) of
        None \<Rightarrow> (e, [])
      | Some ip \<Rightarrow>
          (e\<lparr>sy_counter := sy_counter e + 1\<rparr>,
           sync_send (encode_grey (sy_key e) (sy_counter e) ip (t_helo t) (t_from t) (t_to t) (word_of_int (unix now))) e))"

definition send_addr :: "string \<Rightarrow> int \<Rightarrow> int \<Rightarrow> u16 \<Rightarrow> sync_engine \<Rightarrow> sync_engine \<times> (addr \<times> bytes) list" where
  "send_addr ip_str now expire ty e =
     (case parse_addr ip_str of
        None \<Rightarrow> (e, [])
      | Some ip \<Rightarrow>
          (e\<lparr>sy_counter := sy_counter e + 1\<rparr>,
           sync_send (encode_addr (sy_key e) (sy_counter e) ty ip (word_of_int (unix now)) (word_of_int (unix expire))) e))"

definition sync_white :: "string \<Rightarrow> int \<Rightarrow> int \<Rightarrow> bool \<Rightarrow> sync_engine \<Rightarrow> sync_engine \<times> (addr \<times> bytes) list" where
  "sync_white ip now expire del e = send_addr ip now expire (if del then TypeDelWhite_tlv else TypeWhite_tlv) e"

definition sync_trapped :: "string \<Rightarrow> int \<Rightarrow> int \<Rightarrow> bool \<Rightarrow> sync_engine \<Rightarrow> sync_engine \<times> (addr \<times> bytes) list" where
  "sync_trapped ip now expire del e = send_addr ip now expire (if del then TypeDelTrapped_tlv else TypeTrapped_tlv) e"

subsection \<open>The window implements a set of counters\<close>

text \<open>
  The contract of the replay window, on the set of counters accepted since the peer last
  (re)started: a counter is accepted when it is the first, above all others, within the window and
  new, or far below but small, which counts as a restart.
\<close>

definition fresh :: "nat \<Rightarrow> nat set \<Rightarrow> nat \<Rightarrow> bool" where
  "fresh w A c \<longleftrightarrow> A = {} \<or> Max A < c \<or> Max A - c < w \<and> c \<notin> A"

definition restarts :: "nat \<Rightarrow> nat set \<Rightarrow> nat \<Rightarrow> bool" where
  "restarts w A c \<longleftrightarrow> A \<noteq> {} \<and> c \<le> Max A \<and> w \<le> Max A - c \<and> c < w"

definition admits :: "nat \<Rightarrow> nat set \<Rightarrow> nat \<Rightarrow> bool" where
  "admits w A c \<longleftrightarrow> fresh w A c \<or> restarts w A c"

definition record_counter :: "nat \<Rightarrow> nat set \<Rightarrow> nat \<Rightarrow> nat set" where
  "record_counter w A c = (if fresh w A c then insert c A else if restarts w A c then {c} else A)"

definition window_inv :: "nat set \<Rightarrow> replay_state \<Rightarrow> bool" where
  "window_inv A st \<longleftrightarrow> finite A \<and> (rs_seen st \<longleftrightarrow> A \<noteq> {}) \<and>
     (A \<noteq> {} \<longrightarrow> Max A = unat (rs_hi st) \<and> (\<forall>i < 64. i \<le> Max A \<longrightarrow> (bit (rs_bitmap st) i \<longleftrightarrow> Max A - i \<in> A)))"

lemma window_inv_blank: "window_inv {} (blank_replay\<lparr>rs_last := n\<rparr>)"
  by (simp add: window_inv_def blank_replay_def)

lemma window_inv_last [simp]: "window_inv A (st\<lparr>rs_last := n\<rparr>) = window_inv A st"
  by (simp add: window_inv_def)

lemma unat_diff_le: "c \<le> h \<Longrightarrow> unat (h - c) = unat h - unat (c :: u32)"
  by (simp add: unat_sub word_le_nat_alt)

lemma slide_forward:
  assumes inv: "window_inv A st" "A \<noteq> {}" and c: "rs_hi st < c"
  shows "window_inv (insert (unat c) A)
     (st\<lparr>rs_bitmap := (if 64 \<le> c - rs_hi st then 0 else push_bit (unat (c - rs_hi st)) (rs_bitmap st)) OR 1, rs_hi := c\<rparr>)"
proof -
  let ?h = "unat (rs_hi st)"
  let ?s = "unat (c - rs_hi st)"
  have A: "finite A" "Max A = ?h" "\<And>i. i < 64 \<Longrightarrow> i \<le> ?h \<Longrightarrow> bit (rs_bitmap st) i \<longleftrightarrow> ?h - i \<in> A"
    using inv by (auto simp: window_inv_def)
  have hc: "?h < unat c" using c by (simp add: word_less_nat_alt)
  have s: "?s = unat c - ?h" using unat_diff_le [of "rs_hi st" c] c by simp
  have m: "Max (insert (unat c) A) = unat c" using A hc by (simp add: inv(2))
  have above: "x \<le> ?h" if "x \<in> A" for x using that A(1,2) Max_ge [of A x] by simp
  have big: "(64 \<le> c - rs_hi st) = (64 \<le> ?s)" by (simp add: word_le_nat_alt)
  have "bit ((if 64 \<le> c - rs_hi st then 0 else push_bit ?s (rs_bitmap st)) OR 1) i \<longleftrightarrow> unat c - i \<in> insert (unat c) A"
    if i: "i < 64" "i \<le> unat c" for i
  proof (cases "i < ?s")
    case True
    then have "i \<noteq> 0 \<Longrightarrow> unat c - i \<notin> insert (unat c) A" using above [of "unat c - i"] s hc i by auto
    then show ?thesis using True by (auto simp: bit_simps)
  next
    case False
    then have e: "unat c - i = ?h - (i - ?s)" "i - ?s \<le> ?h" "i \<noteq> 0" "unat c - i \<noteq> unat c" using s hc i by auto
    then have "bit (rs_bitmap st) (i - ?s) \<longleftrightarrow> unat c - i \<in> A" using A(3) [of "i - ?s"] i by simp
    then show ?thesis using False e i big by (auto simp: bit_simps)
  qed
  then show ?thesis using A(1) inv m unfolding window_inv_def by simp
qed

lemma bit_test: "b AND push_bit n 1 \<noteq> 0 \<longleftrightarrow> n < 64 \<and> bit (b :: u64) n"
proof -
  have "bit (b AND push_bit n 1) i \<longleftrightarrow> i = n \<and> n < 64 \<and> bit b n" for i by (auto simp: bit_simps dest: bit_imp_le_length)
  then show ?thesis by (metis bit_eqI bit_0_eq bot_apply bot_bool_def)
qed

lemmas bit_test_power = bit_test [unfolded push_bit_of_1]

lemma slide_within:
  assumes inv: "window_inv A st" "A \<noteq> {}" and c: "c \<le> rs_hi st" "rs_hi st - c < w" "w \<le> 64" and new: "unat c \<notin> A"
  shows "window_inv (insert (unat c) A) (st\<lparr>rs_bitmap := rs_bitmap st OR push_bit (unat (rs_hi st - c)) 1\<rparr>)"
proof -
  let ?h = "unat (rs_hi st)"
  have A: "finite A" "Max A = ?h" "\<And>i. i < 64 \<Longrightarrow> i \<le> ?h \<Longrightarrow> bit (rs_bitmap st) i \<longleftrightarrow> ?h - i \<in> A"
    using inv by (auto simp: window_inv_def)
  have hc: "unat c \<le> ?h" using c(1) by (simp add: word_le_nat_alt)
  have s: "unat (rs_hi st - c) = ?h - unat c" by (rule unat_diff_le [OF c(1)])
  have m: "Max (insert (unat c) A) = ?h" using A hc by (simp add: inv(2))
  have "bit (rs_bitmap st OR push_bit (?h - unat c) 1) i \<longleftrightarrow> ?h - i \<in> insert (unat c) A" if i: "i < 64" "i \<le> ?h" for i
    using A(3) [OF i] i hc by (auto simp: bit_simps)
  then show ?thesis using A(1) inv m s unfolding window_inv_def by simp
qed

lemma slide_refines:
  assumes inv: "window_inv A st" and w: "w \<le> 64"
  shows "\<exists>st'. slide w c st = (admits (unat w) A (unat c), st') \<and> window_inv (record_counter (unat w) A (unat c)) st'"
proof (cases "A = {}")
  case True
  then have "slide w c st = (True, st\<lparr>rs_seen := True, rs_hi := c, rs_bitmap := 1\<rparr>)" using inv by (simp add: slide_def window_inv_def)
  moreover have "window_inv {unat c} (st\<lparr>rs_seen := True, rs_hi := c, rs_bitmap := 1\<rparr>)" by (auto simp: window_inv_def bit_simps)
  ultimately show ?thesis using True by (simp add: admits_def fresh_def record_counter_def)
next
  case ne: False
  then have seen: "rs_seen st" and h: "Max A = unat (rs_hi st)" and fin: "finite A"
    and bits: "\<And>i. i < 64 \<Longrightarrow> i \<le> Max A \<Longrightarrow> bit (rs_bitmap st) i \<longleftrightarrow> Max A - i \<in> A"
    using inv by (auto simp: window_inv_def)
  consider (up) "rs_hi st < c" | (within) "c \<le> rs_hi st" "rs_hi st - c < w" | (below) "c \<le> rs_hi st" "\<not> rs_hi st - c < w" by fastforce
  then show ?thesis
  proof cases
    case up
    then have f: "fresh (unat w) A (unat c)" by (simp add: fresh_def h word_less_nat_alt)
    show ?thesis using slide_forward [OF inv ne up] up seen f by (simp add: slide_def admits_def record_counter_def Let_def)
  next
    case within
    let ?d = "unat (rs_hi st - c)"
    have d: "?d = Max A - unat c" "unat c \<le> Max A" "?d < unat w" "?d < 64"
      using unat_diff_le [OF within(1)] within w h by (auto simp: word_le_nat_alt word_less_nat_alt)
    then have b: "bit (rs_bitmap st) ?d \<longleftrightarrow> unat c \<in> A" using bits [of ?d] by simp
    have a: "fresh (unat w) A (unat c) \<longleftrightarrow> unat c \<notin> A" "\<not> restarts (unat w) A (unat c)"
      using d ne by (auto simp: fresh_def restarts_def)
    have sl: "slide w c st = (if unat c \<in> A then (False, st) else (True, st\<lparr>rs_bitmap := rs_bitmap st OR push_bit ?d 1\<rparr>))"
      using within seen b d(4) by (auto simp: slide_def Let_def bit_test_power linorder_not_less)
    show ?thesis
    proof (cases "unat c \<in> A")
      case True
      then show ?thesis using sl a inv by (simp add: admits_def record_counter_def)
    next
      case False
      then show ?thesis using sl a slide_within [OF inv ne within w False] by (simp add: admits_def record_counter_def)
    qed
  next
    case below
    have d: "unat (rs_hi st - c) = Max A - unat c" "unat c \<le> Max A" "unat w \<le> Max A - unat c"
      using unat_diff_le [OF below(1)] below h by (auto simp: word_le_nat_alt word_less_nat_alt)
    have a: "\<not> fresh (unat w) A (unat c)" "restarts (unat w) A (unat c) \<longleftrightarrow> c < w"
      using d ne by (auto simp: fresh_def restarts_def word_less_nat_alt)
    have sl: "slide w c st = (if c < w then (True, st\<lparr>rs_hi := c, rs_bitmap := 1\<rparr>) else (False, st))"
      using below seen by (auto simp: slide_def)
    have "window_inv {unat c} (st\<lparr>rs_hi := c, rs_bitmap := 1\<rparr>)" using seen by (auto simp: window_inv_def bit_simps)
    then show ?thesis using sl a inv by (auto simp: admits_def record_counter_def)
  qed
qed

subsection \<open>The table of peers\<close>

text \<open>
  A run of packets: when each arrived, from which peer, and its counter. The counters accepted
  from one peer follow the contract above.
\<close>

type_synonym arrival = "int \<times> addr \<times> u32"

fun history :: "nat \<Rightarrow> addr \<Rightarrow> arrival list \<Rightarrow> nat set \<Rightarrow> nat set" where
  "history w a [] A = A"
| "history w a ((now, b, c) # ps) A = history w a ps (if b = a then record_counter w A (unat c) else A)"

definition hear :: "(replay_table \<Rightarrow> replay_table) \<Rightarrow> arrival list \<Rightarrow> sync_engine \<Rightarrow> sync_engine" where
  "hear order ps e = fold (\<lambda>(now, a, c) e. snd (accept_counter order now a c e)) ps e"

definition peers :: "arrival list \<Rightarrow> addr set" where
  "peers ps = (\<lambda>p. fst (snd p)) ` set ps"

definition peer_state :: "sync_engine \<Rightarrow> addr \<Rightarrow> replay_state" where
  "peer_state e a = (case map_of (sy_replay e) a of Some st \<Rightarrow> st | None \<Rightarrow> blank_replay)"

definition table_inv :: "addr set \<Rightarrow> (addr \<Rightarrow> nat set) \<Rightarrow> sync_engine \<Rightarrow> bool" where
  "table_inv P H e \<longleftrightarrow> distinct (map fst (sy_replay e)) \<and> fst ` set (sy_replay e) \<subseteq> P \<and> (\<forall>a. window_inv (H a) (peer_state e a))"

definition host_addr :: "addr \<Rightarrow> bool" where
  "host_addr a \<longleftrightarrow> is_valid a \<and> unmap a = a"

lemma window_small: "window_of e \<le> 64"
  by (auto simp: window_of_def Let_def)

lemma accept_step:
  assumes inv: "table_inv P H e" and a: "host_addr a" and P: "finite P" "card (insert a P) \<le> max_replay_peers" and w: "window_of e \<noteq> 0"
  shows "\<exists>e'. accept_counter order now a c e = (admits (unat (window_of e)) (H a) (unat c), e') \<and> sy_cfg e' = sy_cfg e \<and>
     table_inv (insert a P) (H(a := record_counter (unat (window_of e)) (H a) (unat c))) e'"
proof -
  let ?w = "window_of e" and ?t = "sy_replay e"
  have room: "length ?t < max_replay_peers" if "map_of ?t a = None"
  proof -
    have "a \<notin> fst ` set ?t" using that by (simp add: map_of_eq_None_iff)
    then have "insert a (fst ` set ?t) \<subseteq> insert a P" "card (insert a (fst ` set ?t)) = Suc (length ?t)"
      using inv distinct_card [of "map fst ?t"] by (auto simp: table_inv_def)
    then show ?thesis using P card_mono [of "insert a P" "insert a (fst ` set ?t)"] by simp
  qed
  let ?st = "(peer_state e a)\<lparr>rs_last := now\<rparr>"
  obtain st' where st': "slide ?w c ?st = (admits (unat ?w) (H a) (unat c), st')" "window_inv (record_counter (unat ?w) (H a) (unat c)) st'"
    using slide_refines [OF _ window_small, of "H a" ?st e c] inv by (auto simp: table_inv_def)
  let ?e = "e\<lparr>sy_replay := AList.update a st' ?t\<rparr>"
  have "accept_counter order now a c e = (admits (unat ?w) (H a) (unat c), ?e)"
    using st'(1) a w room by (auto simp: accept_counter_def Let_def host_addr_def peer_state_def split: option.splits)
  moreover have "peer_state ?e b = (if b = a then st' else peer_state e b)" for b
    by (simp add: peer_state_def update_conv)
  then have "table_inv (insert a P) (H(a := record_counter (unat ?w) (H a) (unat c))) ?e"
    using inv st'(2) by (auto simp: table_inv_def dom_update distinct_update)
  ultimately show ?thesis by simp
qed

lemma hear_inv:
  assumes "table_inv P H e" "finite P" "card (P \<union> peers ps) \<le> max_replay_peers" "\<forall>p \<in> set ps. host_addr (fst (snd p))" "window_of e \<noteq> 0"
  shows "table_inv (P \<union> peers ps) (\<lambda>a. history (unat (window_of e)) a ps (H a)) (hear order ps e) \<and> sy_cfg (hear order ps e) = sy_cfg e"
  using assms
proof (induction ps arbitrary: P H e)
  case Nil
  then show ?case by (simp add: hear_def peers_def)
next
  case (Cons p ps)
  obtain now a c where p: "p = (now, a, c)" by (rule prod_cases3)
  let ?w = "window_of e"
  have pe: "P \<union> peers (p # ps) = insert a P \<union> peers ps" by (simp add: peers_def p)
  have "finite (P \<union> peers (p # ps))" using Cons.prems(2) by (simp add: peers_def)
  then have "card (insert a P) \<le> card (P \<union> peers (p # ps))" unfolding pe by (intro card_mono) auto
  then have "card (insert a P) \<le> max_replay_peers" using Cons.prems(3) by simp
  then obtain e' where e': "snd (accept_counter order now a c e) = e'" "sy_cfg e' = sy_cfg e"
    "table_inv (insert a P) (H(a := record_counter (unat ?w) (H a) (unat c))) e'"
    using accept_step [OF Cons.prems(1) _ Cons.prems(2) _ Cons.prems(5), of a order now c] Cons.prems(4) p by auto
  then have w: "window_of e' = ?w" by (simp add: window_of_def)
  have h: "history (unat ?w) b ps ((H(a := record_counter (unat ?w) (H a) (unat c))) b) = history (unat ?w) b (p # ps) (H b)" for b
    by (simp add: p)
  have "hear order (p # ps) e = hear order ps e'" by (simp add: hear_def p e'(1))
  then show ?case using Cons.IH [OF e'(3), unfolded w h] Cons.prems(2-5) e'(2) w unfolding pe by simp
qed

text \<open>
  C19: The replay window does what it promises. In any run of packets of up to 1024 peers, whatever
  their order, the bitmap decides exactly as the set of all counters accepted from the peer: a
  counter is accepted when it is the first, higher than all, or within the window and not seen. A counter that was
  accepted before is accepted again only as the restart of the peer: it is smaller than the window, and at least the window below the highest.
\<close>

theorem replay_window_refines:
  assumes "sy_replay e = []" "window_of e \<noteq> 0" "host_addr a" "\<forall>p \<in> set ps. host_addr (fst (snd p))"
    and "card (insert a (peers ps)) \<le> max_replay_peers"
  shows "(let w = unat (window_of e); A = history w a ps {}; ok = fst (accept_counter order now a c (hear order ps e))
     in (ok \<longleftrightarrow> admits w A (unat c)) \<and> (ok \<and> unat c \<in> A \<longrightarrow> unat c < w \<and> unat c + w \<le> Max A))"
proof -
  let ?w = "unat (window_of e)" and ?A = "history (unat (window_of e)) a ps {}"
  have i: "table_inv {} (\<lambda>_. {}) e" using assms(1) window_inv_blank [of "rs_last blank_replay"]
    by (simp add: table_inv_def peer_state_def blank_replay_def)
  have fin: "finite (peers ps)" by (simp add: peers_def)
  have "card (peers ps) \<le> max_replay_peers" 
    using assms(5) fin card_mono [of "insert a (peers ps)" "peers ps"] by (simp add: subset_insertI)
  then have h: "table_inv (peers ps) (\<lambda>a. history ?w a ps {}) (hear order ps e)" "window_of (hear order ps e) = window_of e"
    using hear_inv [OF i _ _ assms(4,2), of order] by (auto simp: window_of_def)
  then have ok: "fst (accept_counter order now a c (hear order ps e)) = admits ?w ?A (unat c)"
    using accept_step [OF h(1) assms(3) fin assms(5), of order now c] assms(2) by auto
  have "finite ?A" using h(1) by (auto simp: table_inv_def window_inv_def)
  then have "restarts ?w ?A (unat c)" if "admits ?w ?A (unat c)" "unat c \<in> ?A"
    using that by (auto simp: admits_def fresh_def dest: Max_ge)
  then show ?thesis using ok by (auto simp: Let_def restarts_def)
qed

definition example_sync :: sync_settings where
  "example_sync = \<lparr>sc_enable = True, sc_hosts = [], sc_bind_address = [], sc_port = 8025, sc_ttl = 1, sc_verify = False, sc_key = [],
     sc_mcast_address = ''224.0.1.241'', sc_replay_window = 64\<rparr>"

definition example_peer :: addr where
  "example_peer = Addr4 0xc0000209"

theorem replay_window_refines_witness:
  "\<not> fst (accept_counter id 1 example_peer 5 (hear id [(0, example_peer, 5)] (blank_engine example_sync True)))"
proof -
  have "host_addr example_peer" "window_of (blank_engine example_sync True) = 64" "unat (64 :: u32) = 64" by code_simp+
  then show ?thesis
    using replay_window_refines [of "blank_engine example_sync True" example_peer "[(0, example_peer, 5)]" id 1 5]
    by (simp add: blank_engine_def peers_def max_replay_peers_def record_counter_def fresh_def admits_def restarts_def Let_def)
qed

text \<open>
  The restart rule has a price: after the window has moved on, a recorded packet with a small counter is
  accepted a second time, and it takes the window back with it.
\<close>

lemma restart_reopens_window:
  "fst (accept_counter id 1 example_peer 0
     (hear id [(0, example_peer, 0), (0, example_peer, 64)] (blank_engine example_sync True)))"
  by code_simp

end
