(* ===== verification/Blacklist_Trie.thy ===== *)
theory Blacklist_Trie
  imports IP_Ranges
begin

text \<open>
  The binary radix trie of \<open>internal/blacklist/trie.go\<close>. A node owns its two children, so the
  pointer structure is a tree; the map of roots has one tree per address width. The abstraction
  of a trie is the set of bit paths that end in a terminal node. \<open>prefix_table\<close> is the contract
  a blacklist needs of its storage.
\<close>

subsection \<open>Nodes and tries\<close>

datatype node = Node (kid0: "node option") (kid1: "node option") (terminal: bool)

abbreviation new_node :: node where
  "new_node \<equiv> Node None None False"

record trie =
  roots :: "nat \<rightharpoonup> node"
  count :: nat

definition new_trie :: trie where
  "new_trie = \<lparr>roots = Map.empty, count = 0\<rparr>"

definition bit_at :: "bytes \<Rightarrow> nat \<Rightarrow> bool" where
  "bit_at b i \<longleftrightarrow> drop_bit (7 - i mod 8) (b ! (i div 8)) AND 1 = 1"

definition path :: "addr \<Rightarrow> nat \<Rightarrow> bool list" where
  "path a n = map (bit_at (as_slice a)) [0..<n]"

text \<open>
  The descent of \<open>Insert\<close>: missing children are created on the way, the node reached becomes
  terminal, and the flag tells whether it was not terminal before.
\<close>

fun insert_path :: "bool list \<Rightarrow> node \<Rightarrow> node \<times> bool" where
  "insert_path [] (Node l r t) = (Node l r True, \<not> t)"
| "insert_path (b # bs) (Node l r t) =
     (let (k, new) = insert_path bs (case (if b then r else l) of None \<Rightarrow> new_node | Some n \<Rightarrow> n)
      in (if b then Node l (Some k) t else Node (Some k) r t, new))"

definition trie_insert :: "prefix \<Rightarrow> trie \<Rightarrow> trie \<times> bool" where
  "trie_insert p0 t =
     (let p = masked p0;
          fam = bit_len (p_addr p);
          root = (case roots t fam of None \<Rightarrow> new_node | Some n \<Rightarrow> n);
          (root', new) = insert_path (path (p_addr p) (nat (p_bits p))) root
      in (\<lparr>roots = (roots t)(fam \<mapsto> root'), count = (if new then count t + 1 else count t)\<rparr>, new))"

fun contains_path :: "node \<Rightarrow> bool list \<Rightarrow> bool" where
  "contains_path (Node l r t) [] = t"
| "contains_path (Node l r t) (b # bs) =
     (t \<or> (case (if b then r else l) of None \<Rightarrow> False | Some n \<Rightarrow> contains_path n bs))"

definition trie_contains :: "trie \<Rightarrow> addr \<Rightarrow> bool" where
  "trie_contains t a0 =
     (let a = unmap a0
      in case roots t (bit_len a) of
           None \<Rightarrow> False
         | Some n \<Rightarrow> contains_path n (path a (bit_len a)))"

subsection \<open>The set of paths of a node\<close>

fun is_path :: "node \<Rightarrow> bool list \<Rightarrow> bool" where
  "is_path (Node l r t) [] = t"
| "is_path (Node l r t) (b # bs) =
     (case (if b then r else l) of None \<Rightarrow> False | Some n \<Rightarrow> is_path n bs)"

lemma is_path_new_node [simp]: "\<not> is_path new_node ps"
  by (cases ps) auto

lemma is_path_insert: "is_path (fst (insert_path ps n)) qs \<longleftrightarrow> qs = ps \<or> is_path n qs"
proof (induction ps n arbitrary: qs rule: insert_path.induct)
  case (1 l r t)
  then show ?case by (cases qs) auto
next
  case (2 b bs l r t)
  then show ?case
    by (cases qs) (auto split: prod.splits option.splits)
qed

lemma insert_path_new: "snd (insert_path ps n) \<longleftrightarrow> \<not> is_path n ps"
proof (induction ps n rule: insert_path.induct)
  case (2 b bs l r t)
  then show ?case by (auto split: prod.splits option.splits)
qed simp

lemma contains_path_iff: "contains_path n xs \<longleftrightarrow> (\<exists>ps. is_path n ps \<and> Sublist.prefix ps xs)"
proof (induction n xs rule: contains_path.induct)
  case (1 l r t)
  then show ?case by (auto intro: exI [of _ "[]"])
next
  case (2 l r t b bs)
  show ?case
  proof
    assume "contains_path (Node l r t) (b # bs)"
    then show "\<exists>ps. is_path (Node l r t) ps \<and> Sublist.prefix ps (b # bs)"
    proof (cases t)
      case True
      then show ?thesis by (intro exI [of _ "[]"]) simp
    next
      case False
      with \<open>contains_path (Node l r t) (b # bs)\<close> "2.IH"
      obtain n ps where "(if b then r else l) = Some n" "is_path n ps" "Sublist.prefix ps bs"
        by (auto split: option.splits)
      then show ?thesis by (intro exI [of _ "b # ps"]) simp
    qed
  next
    assume "\<exists>ps. is_path (Node l r t) ps \<and> Sublist.prefix ps (b # bs)"
    then obtain ps where "is_path (Node l r t) ps" "Sublist.prefix ps (b # bs)" by blast
    then show "contains_path (Node l r t) (b # bs)"
      using "2.IH" by (cases ps) (auto split: option.splits)
  qed
qed

lemma finite_paths: "finite {ps. is_path n ps}"
proof (induction n)
  case (Node l r t)
  have "{ps. is_path (Node l r t) ps} \<subseteq>
     insert [] ((#) True ` (\<Union>n \<in> set_option r. {ps. is_path n ps}) \<union>
                (#) False ` (\<Union>n \<in> set_option l. {ps. is_path n ps}))"
  proof
    fix ps assume "ps \<in> {ps. is_path (Node l r t) ps}"
    then show "ps \<in> insert [] ((#) True ` (\<Union>n \<in> set_option r. {ps. is_path n ps}) \<union>
                (#) False ` (\<Union>n \<in> set_option l. {ps. is_path n ps}))"
      by (cases ps) (auto split: option.splits if_splits)
  qed
  moreover have "finite (\<Union>n \<in> set_option r. {ps. is_path n ps})"
    "finite (\<Union>n \<in> set_option l. {ps. is_path n ps})"
    using Node.IH by auto
  ultimately show ?case by (meson finite.insertI finite_UnI finite_imageI finite_subset)
qed

subsection \<open>Paths and prefixes\<close>

lemma bit_at_bit: "i div 8 < length b \<Longrightarrow> bit_at b i \<longleftrightarrow> bit (b ! (i div 8)) (7 - i mod 8)"
  by (simp add: bit_at_def bit_iff_odd_drop_bit and_one_eq odd_iff_mod_2_eq_one)

lemma bit_at_append:
  "bit_at (b @ c) i \<longleftrightarrow> (if i < 8 * length b then bit_at b i else bit_at c (i - 8 * length b))"
proof (cases "i < 8 * length b")
  case True
  then show ?thesis by (simp add: bit_at_def nth_append less_mult_imp_div_less)
next
  case False
  then obtain j where j: "i = 8 * length b + j" by (metis le_add_diff_inverse not_less)
  then show ?thesis by (simp add: bit_at_def nth_append)
qed

lemma bit_at_put_u32:
  assumes "i < 32"
  shows "bit_at (put_u32 w) i \<longleftrightarrow> bit w (31 - i)"
proof -
  define q m where "q = i div 8" and "m = 7 - i mod 8"
  have i: "i = 8 * q + i mod 8" by (simp add: q_def)
  have q: "q < 4" using assms by (simp add: q_def less_mult_imp_div_less)
  have "i mod 8 < 8" by simp
  with i q have m: "m < 8" "31 - i = 24 - 8 * q + m" unfolding m_def by linarith+
  have b: "bit_at (put_u32 w) i \<longleftrightarrow> bit (put_u32 w ! q) m"
    using q by (simp add: bit_at_bit m_def q_def)
  have "q = 0 \<or> q = 1 \<or> q = 2 \<or> q = 3" using q by linarith
  then have "bit (put_u32 w ! q) m \<longleftrightarrow> bit w (24 - 8 * q + m)"
    using m(1) by (elim disjE) (simp_all add: put_u32_def bit_simps)
  then show ?thesis by (simp only: b m(2))
qed

lemma bit_at_put_u64: "i < 64 \<Longrightarrow> bit_at (put_u64 w) i \<longleftrightarrow> bit w (63 - i)"
proof (cases "i < 32")
  case True
  then show ?thesis by (auto simp add: put_u64_def bit_at_append bit_at_put_u32 bit_simps)
next
  case False
  moreover assume "i < 64"
  ultimately show ?thesis by (auto simp add: put_u64_def bit_at_append bit_at_put_u32 bit_simps)
qed

lemma bit_at_put_u128: "i < 128 \<Longrightarrow> bit_at (put_u128 w) i \<longleftrightarrow> bit w (127 - i)"
proof (cases "i < 64")
  case True
  then show ?thesis by (auto simp add: put_u128_def bit_at_append bit_at_put_u64 bit_simps)
next
  case False
  moreover assume "i < 128"
  ultimately show ?thesis by (auto simp add: put_u128_def bit_at_append bit_at_put_u64 bit_simps)
qed

lemma path_length [simp]: "length (path a n) = n"
  by (simp add: path_def)

lemma path_nth4: "i < n \<Longrightarrow> n \<le> 32 \<Longrightarrow> path (Addr4 w) n ! i = bit w (31 - i)"
  by (simp add: path_def bit_at_put_u32)

lemma path_nth6: "i < n \<Longrightarrow> n \<le> 128 \<Longrightarrow> path (Addr6 w z) n ! i = bit w (127 - i)"
  by (simp add: path_def bit_at_put_u128)

lemma prefix_nth:
  "length xs \<le> length ys \<Longrightarrow> Sublist.prefix xs ys \<longleftrightarrow> (\<forall>i < length xs. xs ! i = ys ! i)"
  by (auto simp: prefix_def nth_append intro: list_eq_iff_nth_eq [THEN iffD2]
      dest: nth_equalityI intro!: exI [of _ "drop (length xs) ys"] nth_equalityI)

lemma prefix_contains_path4:
  assumes "k \<le> 32"
  shows "prefix_contains \<lparr>p_addr = Addr4 v, p_bits = int k\<rparr> (Addr4 w) \<longleftrightarrow>
           Sublist.prefix (path (Addr4 v) k) (path (Addr4 w) 32)"
proof -
  have "prefix_contains \<lparr>p_addr = Addr4 v, p_bits = int k\<rparr> (Addr4 w) \<longleftrightarrow>
      (\<forall>n. bit (drop_bit (32 - k) (w XOR v)) n = bit (0 :: u32) n)"
    by (simp add: prefix_contains_def prefix_valid_def word_eq_0_bits)
  also have "\<dots> \<longleftrightarrow> (\<forall>i < k. bit v (31 - i) = bit w (31 - i))"
  proof
    assume l: "\<forall>n. bit (drop_bit (32 - k) (w XOR v)) n = bit (0 :: u32) n"
    show "\<forall>i < k. bit v (31 - i) = bit w (31 - i)"
    proof (intro allI impI)
      fix i assume "i < k"
      then have "32 - k + (k - 1 - i) = 31 - i" using assms by simp
      with l [rule_format, of "k - 1 - i"] show "bit v (31 - i) = bit w (31 - i)"
        by (auto simp: bit_simps)
    qed
  next
    assume r: "\<forall>i < k. bit v (31 - i) = bit w (31 - i)"
    show "\<forall>n. bit (drop_bit (32 - k) (w XOR v)) n = bit (0 :: u32) n"
    proof
      fix n
      show "bit (drop_bit (32 - k) (w XOR v)) n = bit (0 :: u32) n"
      proof (cases "32 - k + n < 32")
        case True
        then have e: "31 - (k - 1 - n) = 32 - k + n" and "k - 1 - n < k" using assms by auto
        then have "bit v (32 - k + n) = bit w (32 - k + n)" using r unfolding e [symmetric] by blast
        then show ?thesis by (simp add: bit_drop_bit_eq bit_xor_iff)
      next
        case False
        then show ?thesis by (auto simp: bit_simps dest: bit_imp_le_length)
      qed
    qed
  qed
  also have "\<dots> \<longleftrightarrow> Sublist.prefix (path (Addr4 v) k) (path (Addr4 w) 32)"
    using assms by (simp add: prefix_nth path_nth4)
  finally show ?thesis .
qed

lemma prefix_contains_path6:
  assumes "k \<le> 128"
  shows "prefix_contains \<lparr>p_addr = Addr6 v z, p_bits = int k\<rparr> (Addr6 w []) \<longleftrightarrow>
           Sublist.prefix (path (Addr6 v z) k) (path (Addr6 w []) 128)"
proof -
  have "prefix_contains \<lparr>p_addr = Addr6 v z, p_bits = int k\<rparr> (Addr6 w []) \<longleftrightarrow>
      (\<forall>n. bit ((w XOR v) AND high_mask k) n = bit (0 :: u128) n)"
    by (simp add: prefix_contains_def prefix_valid_def word_eq_0_bits)
  also have "\<dots> \<longleftrightarrow> (\<forall>i < k. bit v (127 - i) = bit w (127 - i))"
  proof
    assume l: "\<forall>n. bit ((w XOR v) AND high_mask k) n = bit (0 :: u128) n"
    show "\<forall>i < k. bit v (127 - i) = bit w (127 - i)"
    proof (intro allI impI)
      fix i assume "i < k"
      with assms l [rule_format, of "127 - i"] show "bit v (127 - i) = bit w (127 - i)"
        by (auto simp: bit_simps high_mask_def)
    qed
  next
    assume r: "\<forall>i < k. bit v (127 - i) = bit w (127 - i)"
    show "\<forall>n. bit ((w XOR v) AND high_mask k) n = bit (0 :: u128) n"
    proof
      fix n
      show "bit ((w XOR v) AND high_mask k) n = bit (0 :: u128) n"
      proof (cases "128 - k \<le> n \<and> n < 128")
        case True
        then have "127 - (127 - n) = n" "127 - n < k" using assms by auto
        with r [rule_format, of "127 - n"] show ?thesis by (simp add: bit_simps)
      next
        case False
        then show ?thesis by (auto simp: bit_simps high_mask_def dest: bit_imp_le_length)
      qed
    qed
  qed
  also have "\<dots> \<longleftrightarrow> Sublist.prefix (path (Addr6 v z) k) (path (Addr6 w []) 128)"
    using assms by (simp add: prefix_nth path_nth6)
  finally show ?thesis .
qed

subsection \<open>The storage contract\<close>

text \<open>
  What a blacklist relies on, whatever keeps its prefixes: membership after an insertion is
  membership before or coverage by the new prefix, for the addresses a lookup is made with.
\<close>

locale prefix_table =
  fixes empty :: 't and insert :: "prefix \<Rightarrow> 't \<Rightarrow> 't" and member :: "'t \<Rightarrow> addr \<Rightarrow> bool"
    and plain :: "addr \<Rightarrow> bool"
  assumes member_empty: "plain a \<Longrightarrow> \<not> member empty a"
    and member_insert: "prefix_valid p \<Longrightarrow> p_bits p \<le> int (bit_len (p_addr p)) \<Longrightarrow> plain a \<Longrightarrow>
          member (insert p t) a \<longleftrightarrow> prefix_contains p a \<or> member t a"
begin

lemma member_fold:
  assumes "\<forall>p \<in> set ps. prefix_valid p \<and> p_bits p \<le> int (bit_len (p_addr p))" and "plain a"
  shows "member (fold insert ps t) a \<longleftrightarrow> (\<exists>p \<in> set ps. prefix_contains p a) \<or> member t a"
  using assms by (induction ps arbitrary: t) (auto simp: member_insert)

end

definition plain_addr :: "addr \<Rightarrow> bool" where
  "plain_addr a \<longleftrightarrow> unmap a = a \<and> \<not> has_zone a"

definition trie_paths :: "trie \<Rightarrow> (nat \<times> bool list) set" where
  "trie_paths t = {(f, ps). \<exists>n. roots t f = Some n \<and> is_path n ps}"

definition prefix_path :: "prefix \<Rightarrow> nat \<times> bool list" where
  "prefix_path p =
     (bit_len (p_addr (masked p)), path (p_addr (masked p)) (nat (p_bits (masked p))))"

lemma trie_paths_new [simp]: "trie_paths new_trie = {}"
  by (simp add: trie_paths_def new_trie_def)

lemma trie_paths_insert: "trie_paths (fst (trie_insert p t)) = Set.insert (prefix_path p) (trie_paths t)"
  by (auto simp: trie_insert_def trie_paths_def prefix_path_def Let_def case_prod_beta
      is_path_insert split: option.splits if_splits)

lemma trie_insert_new: "snd (trie_insert p t) \<longleftrightarrow> prefix_path p \<notin> trie_paths t"
  by (auto simp: trie_insert_def trie_paths_def prefix_path_def Let_def case_prod_beta
      insert_path_new split: option.splits)

lemma trie_insert_count:
  "count (fst (trie_insert p t)) = (if prefix_path p \<in> trie_paths t then count t else count t + 1)"
  using trie_insert_new [of p t] by (simp add: trie_insert_def Let_def case_prod_beta)

lemma trie_contains_iff:
  "trie_contains t a \<longleftrightarrow>
     (\<exists>ps. (bit_len (unmap a), ps) \<in> trie_paths t \<and> Sublist.prefix ps (path (unmap a) (bit_len (unmap a))))"
  by (auto simp: trie_contains_def trie_paths_def Let_def contains_path_iff split: option.splits)

text \<open>The path of a masked prefix is the path of the prefix: masking only clears later bits.\<close>

lemma path_masked4: "k \<le> 32 \<Longrightarrow> path (Addr4 (v AND high_mask k)) k = path (Addr4 v) k"
  by (rule nth_equalityI) (auto simp: path_nth4 bit_simps high_mask_def)

lemma path_masked6: "k \<le> 128 \<Longrightarrow> path (Addr6 (v AND high_mask k) z) k = path (Addr6 v z') k"
  by (rule nth_equalityI) (auto simp: path_nth6 bit_simps high_mask_def)

lemma prefix_path_valid:
  assumes "prefix_valid p" "p_bits p \<le> int (bit_len (p_addr p))"
  shows "prefix_path p = (bit_len (p_addr p), path (p_addr p) (nat (p_bits p)))"
proof (cases "p_addr p")
  case AddrZero
  with assms show ?thesis by (simp add: prefix_valid_def)
next
  case (Addr4 v)
  with assms show ?thesis
    by (simp add: prefix_path_def masked_def prefix_from_def prefix_valid_def path_masked4 nat_le_iff)
next
  case (Addr6 v z)
  with assms show ?thesis
    by (simp add: prefix_path_def masked_def prefix_from_def prefix_valid_def
        path_masked6 [where z' = z] nat_le_iff)
qed

lemma prefix_contains_path:
  assumes "prefix_valid p" "p_bits p \<le> int (bit_len (p_addr p))" "plain_addr a"
  shows "prefix_contains p a \<longleftrightarrow>
     bit_len (p_addr p) = bit_len a \<and> Sublist.prefix (path (p_addr p) (nat (p_bits p))) (path a (bit_len a))"
proof -
  obtain k where k: "p_bits p = int k" using assms(1) by (metis prefix_valid_def nonneg_int_cases)
  show ?thesis
  proof (cases "p_addr p"; cases a)
    fix v w assume v: "p_addr p = Addr4 v" and "a = Addr4 w"
    moreover have "p = \<lparr>p_addr = Addr4 v, p_bits = int k\<rparr>"
      using k v by (intro prefix.equality) simp_all
    ultimately show ?thesis using assms(2) prefix_contains_path4 [of k v w] by simp
  next
    fix v z w z' assume v: "p_addr p = Addr6 v z" and "a = Addr6 w z'"
    moreover have "p = \<lparr>p_addr = Addr6 v z, p_bits = int k\<rparr>"
      using k v by (intro prefix.equality) simp_all
    ultimately show ?thesis using assms(2,3) prefix_contains_path6 [of k v z w]
      by (simp add: plain_addr_def)
  qed (use assms k in \<open>auto simp: prefix_contains_def prefix_valid_def\<close>)
qed

interpretation trie_table: prefix_table new_trie "\<lambda>p t. fst (trie_insert p t)" trie_contains plain_addr
proof
  fix a :: addr
  show "\<not> trie_contains new_trie a" by (simp add: trie_contains_iff)
next
  fix p a t
  assume p: "prefix_valid p" "p_bits p \<le> int (bit_len (p_addr p))" and a: "plain_addr a"
  have "unmap a = a" using a by (simp add: plain_addr_def)
  then show "trie_contains (fst (trie_insert p t)) a \<longleftrightarrow> prefix_contains p a \<or> trie_contains t a"
    using prefix_contains_path [OF p a]
    by (auto simp: trie_contains_iff trie_paths_insert prefix_path_valid [OF p])
qed

text \<open>The counter of a trie built by insertions is the number of distinct prefixes.\<close>

lemma trie_count_fold:
  assumes "finite (trie_paths t)" "count t = card (trie_paths t)"
  shows "count (fold (\<lambda>p t. fst (trie_insert p t)) ps t) = card (trie_paths (fold (\<lambda>p t. fst (trie_insert p t)) ps t))
    \<and> trie_paths (fold (\<lambda>p t. fst (trie_insert p t)) ps t) = trie_paths t \<union> prefix_path ` set ps"
  using assms
proof (induction ps arbitrary: t)
  case (Cons p ps)
  let ?t = "fst (trie_insert p t)"
  have "finite (trie_paths ?t)" "count ?t = card (trie_paths ?t)"
    using Cons.prems by (simp_all add: trie_paths_insert trie_insert_count insert_absorb)
  with Cons.IH [of ?t] show ?case by (simp add: trie_paths_insert)
qed simp

subsection \<open>Properties of the trie\<close>

text \<open>
  C34: A trie built by insertions contains an address exactly when one of the inserted prefixes
  contains it, and its counter is the number of distinct prefixes, as masked, among them.
\<close>

theorem trie_contains_count:
  assumes "\<forall>p \<in> set ps. prefix_valid p \<and> p_bits p \<le> int (bit_len (p_addr p))" "plain_addr a"
  shows "(trie_contains (fold (\<lambda>p t. fst (trie_insert p t)) ps new_trie) a \<longleftrightarrow>
            (\<exists>p \<in> set ps. prefix_contains p a)) \<and>
         count (fold (\<lambda>p t. fst (trie_insert p t)) ps new_trie) = card (prefix_path ` set ps)"
  using trie_table.member_fold [OF assms] trie_table.member_empty [OF assms(2)]
    trie_count_fold [of new_trie ps]
  by (auto simp: new_trie_def trie_paths_def)

theorem trie_contains_count_witness:
  "trie_contains (fold (\<lambda>p t. fst (trie_insert p t)) [prefix_from (Addr4 0x0a000000) 8] new_trie) (Addr4 0x0a010203)
   \<and> count (fold (\<lambda>p t. fst (trie_insert p t)) [prefix_from (Addr4 0x0a000000) 8] new_trie) = 1"
  using trie_contains_count [of "[prefix_from (Addr4 0x0a000000) 8]" "Addr4 0x0a010203"]
  by (simp add: prefix_from_def prefix_valid_def plain_addr_def prefix_contains_def)

end
