(* ===== verification/Blacklist.thy ===== *)
theory Blacklist
  imports Blacklist_Trie "HOL-Library.Multiset" "HOL-Library.Multiset"
begin

text \<open>
  Named blacklists (\<open>internal/blacklist/blacklist.go\<close>): two storage strategies for membership
  tests, and the list of range boundaries that \<open>Collapse\<close> sweeps into networks. The trie of a
  list with \<open>StorageList\<close> is never consulted.
\<close>

subsection \<open>Data\<close>

datatype storage = StorageList | StorageTrie

datatype list_type = TypeWhite | TypeBlack

record range_entry =
  re_addr :: u32
  re_black :: int
  re_white :: int

record blacklist =
  bl_name :: string
  bl_message :: string
  bl_count :: nat
  bl_storage :: storage
  bl_trie :: trie
  bl_prefixes :: "prefix list"
  bl_ranges :: "range_entry list"

definition new_blacklist :: "string \<Rightarrow> string \<Rightarrow> storage \<Rightarrow> blacklist" where
  "new_blacklist name message s =
     \<lparr>bl_name = name, bl_message = message, bl_count = 0, bl_storage = s,
      bl_trie = new_trie, bl_prefixes = [], bl_ranges = []\<rparr>"

subsection \<open>Membership\<close>

definition bl_add :: "string \<Rightarrow> blacklist \<Rightarrow> prefix_error + blacklist" where
  "bl_add cidr b =
     (case parse_prefix cidr of
        Inl err \<Rightarrow> Inl err
      | Inr p \<Rightarrow>
          (let b' = b\<lparr>bl_count := bl_count b + 1\<rparr>
           in if bl_storage b = StorageTrie
              then Inr (b'\<lparr>bl_trie := fst (trie_insert p (bl_trie b))\<rparr>)
              else Inr (b'\<lparr>bl_prefixes := bl_prefixes b @ [p]\<rparr>)))"

definition bl_match :: "blacklist \<Rightarrow> addr \<Rightarrow> bool" where
  "bl_match b a0 =
     (let a = unmap a0
      in if bl_storage b = StorageTrie then trie_contains (bl_trie b) a
         else list_ex (\<lambda>p. prefix_contains p a) (bl_prefixes b))"

text \<open>The method on a pointer: a nil list matches nothing.\<close>

definition bl_match_ptr :: "blacklist option \<Rightarrow> addr \<Rightarrow> bool" where
  "bl_match_ptr b a = (case b of None \<Rightarrow> False | Some b \<Rightarrow> bl_match b a)"

text \<open>The loop that loads a list of networks, skipping entries that do not parse.\<close>

fun bl_add_all :: "string list \<Rightarrow> blacklist \<Rightarrow> blacklist" where
  "bl_add_all [] b = b"
| "bl_add_all (c # cs) b = bl_add_all cs (case bl_add c b of Inl _ \<Rightarrow> b | Inr b' \<Rightarrow> b')"

subsection \<open>Ranges\<close>

definition add_range :: "u32 \<Rightarrow> u32 \<Rightarrow> list_type \<Rightarrow> blacklist \<Rightarrow> blacklist" where
  "add_range start end t b =
     (if start > end then b
      else b\<lparr>bl_ranges := bl_ranges b @
               (if t = TypeWhite
                then [\<lparr>re_addr = start, re_black = 0, re_white = 1\<rparr>,
                      \<lparr>re_addr = end, re_black = 0, re_white = -1\<rparr>]
                else [\<lparr>re_addr = start, re_black = 1, re_white = 0\<rparr>,
                      \<lparr>re_addr = end, re_black = -1, re_white = 0\<rparr>]),
             bl_count := bl_count b + 2\<rparr>)"

definition entries :: "blacklist \<Rightarrow> (int \<times> int \<times> int) list" where
  "entries b = map (\<lambda>e. (uint (re_addr e), re_black e, re_white e)) (bl_ranges b)"

text \<open>
  The sweep of \<open>Collapse\<close> over the sorted boundaries. One round sums the boundaries of one
  address, updates the state (1 inside a listed region) and closes a region that ends here.
\<close>

definition sweep_state :: "nat \<Rightarrow> int \<Rightarrow> int \<Rightarrow> nat" where
  "sweep_state state bs ws =
     (let state1 = (if state = 1 \<and> bs = 0 then 0 else if state = 0 \<and> bs > 0 then 1 else state)
      in if ws > 0 then 0 else state1)"

function sweep :: "range_entry list \<Rightarrow> int \<Rightarrow> int \<Rightarrow> nat \<Rightarrow> u32 \<Rightarrow> string list" where
  "sweep [] bs ws state bstart = []"
| "sweep (e # es) bs ws state bstart =
     (let addr = re_addr e;
          grp = e # takeWhile (\<lambda>f. re_addr f = addr) es;
          rest = dropWhile (\<lambda>f. re_addr f = addr) es;
          bs' = bs + sum_list (map re_black grp);
          ws' = ws + sum_list (map re_white grp);
          state' = sweep_state state bs' ws';
          bstart' = (if state = 0 \<and> state' = 1 then addr else bstart)
      in (if state = 1 \<and> state' = 0 then range_to_cidrs bstart (addr - 1) else [])
         @ sweep rest bs' ws' state' bstart')"
  by pat_completeness auto
termination
  by (relation "measure (\<lambda>(es, _). length es)") (auto simp: le_imp_less_Suc length_dropWhile_le)

definition collapse :: "blacklist \<Rightarrow> string list" where
  "collapse b =
     (if bl_ranges b = [] then [] else sweep (sort_key re_addr (bl_ranges b)) 0 0 0 0)"

subsection \<open>Parsed prefixes are valid\<close>

lemma parse_addr_valid: "parse_addr s = Some a \<Longrightarrow> is_valid a"
proof -
  have "parse_addr_scan s0 s = Some a \<Longrightarrow> is_valid a" for s0 s
    by (induction s0 s rule: parse_addr_scan.induct)
       (auto simp: parse_ipv4_def addr_from4_def parse_ipv6_def with_zone_def Let_def
         split: if_splits option.splits prod.splits)
  then show "parse_addr s = Some a \<Longrightarrow> is_valid a" by (simp add: parse_addr_def)
qed

lemma unmap_valid: "is_valid a \<Longrightarrow> is_valid (unmap a)"
  by (cases a) auto

lemma without_zone_simps [simp]:
  "bit_len (without_zone a) = bit_len a" "is_valid (without_zone a) = is_valid a"
  by (cases a; simp)+

lemma prefix_from_ok:
  assumes "is_valid a" "0 \<le> b" "b \<le> int (bit_len a)"
  shows "prefix_valid (prefix_from a b) \<and> p_bits (prefix_from a b) \<le> int (bit_len (p_addr (prefix_from a b)))"
  using assms by (simp add: prefix_from_def prefix_valid_def)

lemma masked_ok:
  assumes "prefix_valid p" "p_bits p \<le> int (bit_len (p_addr p))"
  shows "prefix_valid (masked p) \<and> p_bits (masked p) \<le> int (bit_len (p_addr (masked p)))"
  using assms by (cases "p_addr p") (auto simp: masked_def prefix_from_def prefix_valid_def)

lemma parse_prefix_ok:
  assumes "parse_prefix s = Inr p"
  shows "prefix_valid p \<and> p_bits p \<le> int (bit_len (p_addr p))"
  using assms
  by (auto simp: parse_prefix_def Let_def split: option.splits if_splits
      dest!: parse_addr_valid intro!: masked_ok [THEN conjunct1] masked_ok [THEN conjunct2]
      prefix_from_ok [THEN conjunct1] prefix_from_ok [THEN conjunct2] unmap_valid)

subsection \<open>Both storages answer alike\<close>

interpretation list_table:
  prefix_table "[]" "\<lambda>p ps. ps @ [p]" "\<lambda>ps a. list_ex (\<lambda>p. prefix_contains p a) ps" plain_addr
  by unfold_locales auto

text \<open>The prefixes that the parsable entries of a list denote, in order.\<close>

fun parsed :: "string list \<Rightarrow> prefix list" where
  "parsed [] = []"
| "parsed (c # cs) = (case parse_prefix c of Inl _ \<Rightarrow> parsed cs | Inr p \<Rightarrow> p # parsed cs)"

lemma parsed_ok: "p \<in> set (parsed cs) \<Longrightarrow> prefix_valid p \<and> p_bits p \<le> int (bit_len (p_addr p))"
  by (induction cs) (auto split: sum.splits dest: parse_prefix_ok)

lemma parsed_mem: "p \<in> set (parsed cs) \<longleftrightarrow> (\<exists>c \<in> set cs. parse_prefix c = Inr p)"
  by (induction cs) (auto split: sum.splits)

lemma bl_add_all_trie:
  "bl_storage b = StorageTrie \<Longrightarrow>
     bl_storage (bl_add_all cs b) = StorageTrie \<and>
     bl_trie (bl_add_all cs b) = fold (\<lambda>p t. fst (trie_insert p t)) (parsed cs) (bl_trie b)"
  by (induction cs arbitrary: b) (auto simp: bl_add_def Let_def split: sum.splits)

lemma bl_add_all_list:
  "bl_storage b = StorageList \<Longrightarrow>
     bl_storage (bl_add_all cs b) = StorageList \<and>
     bl_prefixes (bl_add_all cs b) = fold (\<lambda>p ps. ps @ [p]) (parsed cs) (bl_prefixes b)"
  by (induction cs arbitrary: b) (auto simp: bl_add_def Let_def split: sum.splits)

lemma bl_add_all_frame [simp]:
  "bl_name (bl_add_all cs b) = bl_name b" "bl_message (bl_add_all cs b) = bl_message b"
  "bl_ranges (bl_add_all cs b) = bl_ranges b"
  by (induction cs arbitrary: b) (auto simp: bl_add_def Let_def split: sum.splits)

lemma bl_add_all_count: "bl_count (bl_add_all cs b) = bl_count b + length (parsed cs)"
  by (induction cs arbitrary: b) (auto simp: bl_add_def Let_def split: sum.splits)

lemma plain_unmap: "\<not> has_zone (unmap a) \<Longrightarrow> plain_addr (unmap a)"
  by (simp add: plain_addr_def)

lemma match_add_all:
  assumes "\<not> has_zone (unmap a)"
  shows "bl_match (bl_add_all cs (new_blacklist name message s)) a \<longleftrightarrow>
           (\<exists>c \<in> set cs. \<exists>p. parse_prefix c = Inr p \<and> prefix_contains p (unmap a))"
proof (cases s)
  case StorageTrie
  let ?b = "new_blacklist name message s"
  have "bl_storage ?b = StorageTrie" "bl_trie ?b = new_trie"
    using StorageTrie by (simp_all add: new_blacklist_def)
  then have "bl_match (bl_add_all cs ?b) a \<longleftrightarrow>
      trie_contains (fold (\<lambda>p t. fst (trie_insert p t)) (parsed cs) new_trie) (unmap a)"
    using bl_add_all_trie [of ?b cs] by (simp add: bl_match_def)
  also have "\<dots> \<longleftrightarrow> (\<exists>p \<in> set (parsed cs). prefix_contains p (unmap a))"
    using trie_table.member_fold [of "parsed cs" "unmap a" new_trie] parsed_ok
      trie_table.member_empty plain_unmap [OF assms] by blast
  finally show ?thesis unfolding Bex_def parsed_mem by blast
next
  case StorageList
  let ?b = "new_blacklist name message s"
  have "bl_storage ?b = StorageList" "bl_prefixes ?b = []"
    using StorageList by (simp_all add: new_blacklist_def)
  then have "bl_match (bl_add_all cs ?b) a \<longleftrightarrow>
      list_ex (\<lambda>p. prefix_contains p (unmap a)) (fold (\<lambda>p ps. ps @ [p]) (parsed cs) [])"
    using bl_add_all_list [of ?b cs] by (simp add: bl_match_def)
  also have "\<dots> \<longleftrightarrow> (\<exists>p \<in> set (parsed cs). prefix_contains p (unmap a))"
    using list_table.member_fold [of "parsed cs" "unmap a" "[]"] parsed_ok plain_unmap [OF assms]
    by simp
  finally show ?thesis unfolding Bex_def parsed_mem by blast
qed

subsection \<open>Correctness of the sweep\<close>

text \<open>The addresses that a list of network strings denotes.\<close>

definition denotes :: "string list \<Rightarrow> u32 \<Rightarrow> bool" where
  "denotes cs x \<longleftrightarrow> (\<exists>c \<in> set cs. \<exists>p. parse_prefix c = Inr p \<and> prefix_contains p (Addr4 x))"

lemma denotes_Nil [simp]: "\<not> denotes [] x"
  by (simp add: denotes_def)

lemma denotes_append [simp]: "denotes (cs @ ds) x \<longleftrightarrow> denotes cs x \<or> denotes ds x"
  by (auto simp: denotes_def)

lemma denotes_range: "denotes (range_to_cidrs s e) x \<longleftrightarrow> s \<le> x \<and> x \<le> e"
proof (cases "s \<le> e")
  case True
  have "denotes (range_to_cidrs s e) x \<longleftrightarrow> (\<exists>c \<in> set (range_blocks s e). x \<in> cidr_set c)"
  proof
    assume "denotes (range_to_cidrs s e) x"
    then obtain t p where t: "t \<in> set (range_to_cidrs s e)" "parse_prefix t = Inr p" "prefix_contains p (Addr4 x)"
      by (auto simp: denotes_def)
    from t(1) show "\<exists>c \<in> set (range_blocks s e). x \<in> cidr_set c"
    proof (cases rule: range_to_cidrs_parse)
      case (1 c)
      with t have "x \<in> cidr_set c" using range_blocks_wf [of c s e] cidr_prefix_contains [of c x] by auto
      with 1 show ?thesis by blast
    qed
  next
    assume "\<exists>c \<in> set (range_blocks s e). x \<in> cidr_set c"
    then obtain c where c: "c \<in> set (range_blocks s e)" "x \<in> cidr_set c" by blast
    then have "parse_prefix (cidr_string c) = Inr (masked (prefix_from (Addr4 (c_addr c)) (int (unat (c_bits c)))))"
      "prefix_contains (masked (prefix_from (Addr4 (c_addr c)) (int (unat (c_bits c))))) (Addr4 x)"
      using range_blocks_wf [OF c(1)] cidr_prefix_contains [of c x]
      by (auto simp: cidr_string_text parse_prefix_network cidr_wf_def)
    with c show "denotes (range_to_cidrs s e) x" by (auto simp: denotes_def range_to_cidrs_def)
  qed
  with range_blocks_cover [OF True] show ?thesis by auto
next
  case False
  then show ?thesis by (auto simp: range_to_cidrs_def range_blocks_empty)
qed

text \<open>The number of black (white) ranges open at an address, by the boundaries up to it.\<close>

definition bsum :: "range_entry list \<Rightarrow> u32 \<Rightarrow> int" where
  "bsum es x = sum_list (map (\<lambda>e. if re_addr e \<le> x then re_black e else 0) es)"

definition wsum :: "range_entry list \<Rightarrow> u32 \<Rightarrow> int" where
  "wsum es x = sum_list (map (\<lambda>e. if re_addr e \<le> x then re_white e else 0) es)"

lemma sum_below: "(\<forall>e \<in> set es. x < re_addr e) \<Longrightarrow> bsum es x = 0 \<and> wsum es x = 0"
  by (induction es) (auto simp: bsum_def wsum_def)

lemma sum_group:
  "(\<forall>e \<in> set es. re_addr e = a) \<Longrightarrow> a \<le> x \<Longrightarrow>
     bsum es x = sum_list (map re_black es) \<and> wsum es x = sum_list (map re_white es)"
  by (induction es) (auto simp: bsum_def wsum_def)

lemma sum_append: "bsum (es @ fs) x = bsum es x + bsum fs x" "wsum (es @ fs) x = wsum es x + wsum fs x"
  by (simp_all add: bsum_def wsum_def)

text \<open>
  One round over a group of boundaries of one address. The state after it says whether the
  addresses up to the next boundary are listed.
\<close>

lemma sweep_state_eq:
  assumes "state = 0 \<or> state = 1" "0 \<le> bs"
  shows "sweep_state state bs ws = (if bs > 0 \<and> \<not> ws > 0 then 1 else 0)"
  using assms by (auto simp: sweep_state_def Let_def)

lemma sorted_key_split:
  assumes "sorted (map re_addr (e # es))"
  defines "rest \<equiv> dropWhile (\<lambda>f. re_addr f = re_addr e) es"
  defines "grp \<equiv> e # takeWhile (\<lambda>f. re_addr f = re_addr e) es"
  shows "e # es = grp @ rest" "\<forall>f \<in> set grp. re_addr f = re_addr e"
    "\<forall>f \<in> set rest. re_addr e < re_addr f" "sorted (map re_addr rest)"
proof -
  show eq: "e # es = grp @ rest" by (simp add: grp_def rest_def)
  show "\<forall>f \<in> set grp. re_addr f = re_addr e" by (auto simp: grp_def dest: set_takeWhileD)
  show srt: "sorted (map re_addr rest)" using assms(1) unfolding eq map_append sorted_append by blast
  show "\<forall>f \<in> set rest. re_addr e < re_addr f"
  proof (cases rest)
    case (Cons r rs)
    have "re_addr r \<noteq> re_addr e" using Cons unfolding rest_def dropWhile_eq_Cons_conv by blast
    moreover have "r \<in> set (e # es)" using Cons eq by simp
    with assms(1) have "re_addr e \<le> re_addr r" by auto
    ultimately have "re_addr e < re_addr r" by simp
    with srt Cons show ?thesis by auto
  qed simp
qed

lemma sweep_denotes:
  assumes "sorted (map re_addr es)"
    and "state = 0 \<or> state = 1"
    and "\<And>x. 0 \<le> bs + bsum es x"
    and "bs + sum_list (map re_black es) = 0" "es = [] \<Longrightarrow> state = 0"
    and "state = 1 \<Longrightarrow> \<forall>e \<in> set es. bstart < re_addr e"
  shows "denotes (sweep es bs ws state bstart) x \<longleftrightarrow>
     es \<noteq> [] \<and> (if x < re_addr (hd es) then state = 1 \<and> bstart \<le> x
                else bs + bsum es x > 0 \<and> \<not> ws + wsum es x > 0)"
  using assms
proof (induction es arbitrary: bs ws state bstart rule: measure_induct_rule [of length])
  case (less es0)
  show ?case
  proof (cases es0)
    case Nil
    then show ?thesis by simp
  next
    case (Cons e es)
    define a where "a = re_addr e"
    define grp where "grp = e # takeWhile (\<lambda>f. re_addr f = a) es"
    define rest where "rest = dropWhile (\<lambda>f. re_addr f = a) es"
    define bs' where "bs' = bs + sum_list (map re_black grp)"
    define ws' where "ws' = ws + sum_list (map re_white grp)"
    define st where "st = sweep_state state bs' ws'"
    define b' where "b' = (if state = 0 \<and> st = 1 then a else bstart)"
    note split = sorted_key_split [OF less.prems(1) [unfolded Cons], folded a_def, folded grp_def rest_def]
    have hd: "re_addr (hd es0) = a" by (simp add: Cons a_def)
    have sums: "bsum es0 x = sum_list (map re_black grp) + bsum rest x"
      "wsum es0 x = sum_list (map re_white grp) + wsum rest x" if "a \<le> x" for x
      using sum_group [OF split(2) that] by (simp_all add: Cons split(1) sum_append)
    have below: "bsum rest x = 0" "wsum rest x = 0" if "x \<le> a" for x
      using split(3) sum_below [of rest x] that by (meson order_le_less_trans)+
    have nonneg: "0 \<le> bs' + bsum rest x" for x
    proof (cases "a \<le> x")
      case True
      then show ?thesis using less.prems(3) [of x] sums(1) by (simp add: bs'_def)
    next
      case False
      then show ?thesis using less.prems(3) [of a] sums(1) [of a] below by (simp add: bs'_def)
    qed
    have bs'0: "0 \<le> bs'" using nonneg [of a] below by simp
    have st: "st = (if bs' > 0 \<and> \<not> ws' > 0 then 1 else 0)"
      unfolding st_def by (rule sweep_state_eq [OF less.prems(2) bs'0])
    have tot: "bs' + sum_list (map re_black rest) = 0"
      using less.prems(4) by (simp only: Cons split(1) map_append sum_list_append bs'_def add.assoc)
    have unf: "sweep es0 bs ws state bstart =
        (if state = 1 \<and> st = 0 then range_to_cidrs bstart (a - 1) else []) @ sweep rest bs' ws' st b'"
      unfolding Cons sweep.simps Let_def st_def b'_def bs'_def ws'_def grp_def rest_def a_def
      by (rule refl)
    have open1: "state = 1 \<Longrightarrow> bstart < a" using less.prems(6) by (auto simp: Cons a_def)
    have IH: "denotes (sweep rest bs' ws' st b') x \<longleftrightarrow>
       rest \<noteq> [] \<and> (if x < re_addr (hd rest) then st = 1 \<and> b' \<le> x
                  else bs' + bsum rest x > 0 \<and> \<not> ws' + wsum rest x > 0)"
    proof (rule less.IH)
      show "length rest < length es0"
        by (simp add: Cons rest_def le_imp_less_Suc length_dropWhile_le)
      show "st = 0 \<or> st = 1" by (simp add: st)
      show "rest = [] \<Longrightarrow> st = 0" using tot by (simp add: st)
      show "st = 1 \<Longrightarrow> \<forall>e \<in> set rest. b' < re_addr e"
        using split(3) open1 less.prems(2) by (auto simp: b'_def)
    qed (use split(4) nonneg tot in auto)
    have later: "rest \<noteq> [] \<Longrightarrow> a < re_addr (hd rest)" using split(3) by simp
    have closed: "rest = [] \<Longrightarrow> bs' = 0" using tot by simp
    have sub: "x \<le> a - 1 \<longleftrightarrow> x < a" if "state = 1" for x
    proof -
      have "a \<noteq> 0" using open1 [OF that] by (auto simp: word_less_nat_alt)
      then have "unat (a - 1) = unat a - 1" "unat a \<noteq> 0" by (simp_all add: unat_minus_one unat_eq_0)
      then show ?thesis by (auto simp: word_le_nat_alt word_less_nat_alt)
    qed
    have part: "denotes (if state = 1 \<and> st = 0 then range_to_cidrs bstart (a - 1) else []) x \<longleftrightarrow>
        state = 1 \<and> st = 0 \<and> bstart \<le> x \<and> x < a"
      using sub by (auto simp: denotes_range)
    show ?thesis
    proof (cases "x < a")
      case True
      then have "b' \<le> x \<longleftrightarrow> state = 1 \<and> bstart \<le> x" if "st = 1"
        using that less.prems(2) by (auto simp: b'_def)
      moreover have "x < re_addr (hd rest)" if "rest \<noteq> []" using True later [OF that] by simp
      moreover have "st = 0 \<or> st = 1" "rest = [] \<Longrightarrow> st = 0" by (auto simp: st closed)
      ultimately show ?thesis unfolding hd unf denotes_append part IH using True Cons by auto
    next
      case False
      have "b' \<le> x" if "st = 1" using that False open1 less.prems(2) by (auto simp: b'_def)
      moreover have "\<forall>e \<in> set rest. x < re_addr e" if "rest = [] \<or> x < re_addr (hd rest)"
        using that split(4) by (cases rest) (auto intro: less_le_trans)
      then have "bsum rest x = 0 \<and> wsum rest x = 0" if "rest = [] \<or> x < re_addr (hd rest)"
        using sum_below that by blast
      ultimately show ?thesis
        unfolding hd unf denotes_append part IH using False Cons sums [of x] closed
        by (auto simp: st bs'_def ws'_def algebra_simps split: if_splits)
    qed
  qed
qed

text \<open>
  The ranges a list was built from, and which addresses the black (white) ones cover.
\<close>

type_synonym range_spec = "u32 \<times> u32 \<times> list_type"

definition add_ranges :: "range_spec list \<Rightarrow> blacklist \<Rightarrow> blacklist" where
  "add_ranges rs b = fold (\<lambda>(s, e, t). add_range s e t) rs b"

definition in_range :: "list_type \<Rightarrow> u32 \<Rightarrow> range_spec \<Rightarrow> bool" where
  "in_range t x r = (case r of (s, e, t') \<Rightarrow> t' = t \<and> s \<le> x \<and> x < e)"

definition covered :: "list_type \<Rightarrow> range_spec list \<Rightarrow> u32 \<Rightarrow> bool" where
  "covered t rs x = list_ex (in_range t x) rs"

lemma add_ranges_simps [simp]:
  "add_ranges [] b = b"
  "add_ranges ((s, e, t) # rs) b = add_ranges rs (add_range s e t b)"
  by (simp_all add: add_ranges_def)

lemma add_ranges_append: "add_ranges (rs @ rs') b = add_ranges rs' (add_ranges rs b)"
  by (simp add: add_ranges_def)

lemma bsum_add_range:
  "bsum (bl_ranges (add_range s e t b)) x = bsum (bl_ranges b) x + of_bool (in_range TypeBlack x (s, e, t))"
  "wsum (bl_ranges (add_range s e t b)) x = wsum (bl_ranges b) x + of_bool (in_range TypeWhite x (s, e, t))"
  by (cases t; auto simp: add_range_def bsum_def wsum_def in_range_def)+

lemma bsum_add_ranges:
  "bsum (bl_ranges (add_ranges rs b)) x =
     bsum (bl_ranges b) x + int (length (List.filter (in_range TypeBlack x) rs))"
  "wsum (bl_ranges (add_ranges rs b)) x =
     wsum (bl_ranges b) x + int (length (List.filter (in_range TypeWhite x) rs))"
  by (induction rs arbitrary: b) (auto simp: bsum_add_range)

lemma balanced_add_ranges:
  "sum_list (map re_black (bl_ranges (add_ranges rs b))) = sum_list (map re_black (bl_ranges b))"
  by (induction rs arbitrary: b) (auto simp: add_range_def)

lemma sum_list_sort_key: "sum_list (map f (sort_key k xs)) = sum_list (map f (xs :: range_entry list))"
  for f :: "range_entry \<Rightarrow> int"
  by (metis mset_map mset_sort sum_mset_sum_list)

lemma sum_sort [simp]:
  "bsum (sort_key re_addr es) x = bsum es x" "wsum (sort_key re_addr es) x = wsum es x"
  by (simp_all add: bsum_def wsum_def sum_list_sort_key)

lemma covered_length: "covered t rs x \<longleftrightarrow> 0 < length (List.filter (in_range t x) rs)"
  by (induction rs) (auto simp: covered_def)

lemma collapse_denotes:
  assumes "bl_ranges b = []"
  shows "denotes (collapse (add_ranges rs b)) x \<longleftrightarrow> covered TypeBlack rs x \<and> \<not> covered TypeWhite rs x"
proof -
  define es where "es = sort_key re_addr (bl_ranges (add_ranges rs b))"
  have b: "bsum es y = int (length (List.filter (in_range TypeBlack y) rs))" for y
    by (simp add: es_def bsum_add_ranges assms) (simp add: bsum_def)
  have w: "wsum es y = int (length (List.filter (in_range TypeWhite y) rs))" for y
    by (simp add: es_def bsum_add_ranges assms) (simp add: wsum_def)
  have "denotes (sweep es 0 0 0 0) x \<longleftrightarrow>
      es \<noteq> [] \<and> (if x < re_addr (hd es) then (0::nat) = 1 \<and> 0 \<le> x
                else 0 + bsum es x > 0 \<and> \<not> 0 + wsum es x > 0)"
    by (rule sweep_denotes)
      (simp_all add: b, simp_all add: es_def sum_list_sort_key balanced_add_ranges assms)
  also have "\<dots> \<longleftrightarrow> covered TypeBlack rs x \<and> \<not> covered TypeWhite rs x"
  proof (cases "es = [] \<or> x < re_addr (hd es)")
    case True
    then have "\<forall>e \<in> set es. x < re_addr e"
      using sorted_sort_key [of re_addr "bl_ranges (add_ranges rs b)", folded es_def]
      by (cases es) (auto intro: less_le_trans)
    then have "\<not> covered TypeBlack rs x" using sum_below [of es x] b [of x] by (simp add: covered_length)
    with True show ?thesis by auto
  next
    case False
    then show ?thesis by (auto simp: b w covered_length)
  qed
  finally have *: "denotes (sweep es 0 0 0 0) x \<longleftrightarrow> covered TypeBlack rs x \<and> \<not> covered TypeWhite rs x" .
  show ?thesis
  proof (cases "bl_ranges (add_ranges rs b) = []")
    case True
    with * show ?thesis by (simp add: es_def collapse_def)
  next
    case False
    with * show ?thesis by (simp add: es_def collapse_def)
  qed
qed

subsection \<open>Properties of the lists\<close>

text \<open>
  C22: A list loaded from network strings matches an address exactly when the address is in the
  network of one of the entries that parse; entries that do not parse are skipped. The result
  is the same for the trie and for the slice of prefixes.
\<close>

theorem match_loaded_list:
  assumes "\<not> has_zone (unmap a)"
  shows "bl_match (bl_add_all cs (new_blacklist name message s)) a \<longleftrightarrow>
           (\<exists>c \<in> set cs. \<exists>p. parse_prefix c = Inr p \<and> prefix_contains p (unmap a))"
  using assms by (rule match_add_all)

theorem match_loaded_list_witness:
  "bl_match (bl_add_all [''bogus'', ''10.0.0.0/8''] (new_blacklist ''l'' ''m'' StorageTrie)) (Addr4 0x0a010203)"
proof -
  have "parse_prefix (dotted_quad 0x0a000000 @ CHR ''/'' # itoa 8) = Inr (masked (prefix_from (Addr4 0x0a000000) (int 8)))"
    by (rule parse_prefix_network) simp_all
  moreover have "dotted_quad 0x0a000000 @ CHR ''/'' # itoa 8 = ''10.0.0.0/8''" by code_simp
  moreover have "prefix_contains (masked (prefix_from (Addr4 0x0a000000) (int 8))) (Addr4 0x0a010203)"
    by (subst masked_contains) simp_all
  ultimately show ?thesis
    using match_loaded_list [of "Addr4 0x0a010203" "[''bogus'', ''10.0.0.0/8'']" "''l''" "''m''" StorageTrie]
    by simp
qed

text \<open>
  C9: \<open>Collapse\<close> is correct: read back as networks, its strings hold exactly the addresses that
  lie in a black range and in no white range, whatever the order and the overlaps of the ranges.
\<close>

theorem collapse_black_minus_white:
  "denotes (collapse (add_ranges rs (new_blacklist name message s))) x \<longleftrightarrow>
     (\<exists>(a, e, t) \<in> set rs. t = TypeBlack \<and> a \<le> x \<and> x < e) \<and>
     \<not> (\<exists>(a, e, t) \<in> set rs. t = TypeWhite \<and> a \<le> x \<and> x < e)"
  using collapse_denotes [of "new_blacklist name message s" rs x]
  by (auto simp: new_blacklist_def covered_def in_range_def list_ex_iff)

theorem collapse_black_minus_white_witness:
  "denotes (collapse (add_ranges [(10, 20, TypeBlack), (12, 14, TypeWhite)] (new_blacklist ''l'' ''m'' StorageList))) 15 \<and>
   \<not> denotes (collapse (add_ranges [(10, 20, TypeBlack), (12, 14, TypeWhite)] (new_blacklist ''l'' ''m'' StorageList))) 13"
  unfolding collapse_black_minus_white by simp

end
