(* ===== verification/Smtp_Reply.thy ===== *)
theory Smtp_Reply
  imports Blacklist
begin

text \<open>
  The text of the answers of \<open>internal/smtp\<close>: expansion of rejection messages, the multi-line
  reply and the summary of list names of \<open>reply.go\<close>, and the line ends of \<open>crlf\<close> in \<open>conn.go\<close>.
\<close>

abbreviation cr :: char where "cr \<equiv> CHR 0x0D"
abbreviation nl :: char where "nl \<equiv> CHR 0x0A"
abbreviation esc :: char where "esc \<equiv> CHR 0x5C"

abbreviation crnl :: string where "crnl \<equiv> [cr, nl]"

definition grey_reply :: string where
  "grey_reply = ''451 Temporary failure, please try again later.'' @ crnl"

subsection \<open>Rejection messages\<close>

text \<open>The loop of \<open>ExpandMessage\<close>; the pending escape character is an option.\<close>

fun expand_loop :: "string \<Rightarrow> char option \<Rightarrow> string \<Rightarrow> string" where
  "expand_loop src saved [] = []"
| "expand_loop src saved (c # cs) =
     (if c = esc \<or> c = CHR ''%'' then
        (case saved of
           None \<Rightarrow> expand_loop src (Some c) cs
         | Some e \<Rightarrow> e # expand_loop src None cs)
      else if c = CHR ''n'' \<and> saved = Some esc then nl # expand_loop src None cs
      else if c = CHR ''A'' \<and> saved = Some (CHR ''%'') then src @ expand_loop src None cs
      else (case saved of None \<Rightarrow> [] | Some e \<Rightarrow> [e]) @ c # expand_loop src None cs)"

definition expand_message :: "string \<Rightarrow> string \<Rightarrow> string" where
  "expand_message format src = expand_loop src None format"

definition message_lines :: "string \<Rightarrow> string \<Rightarrow> string list" where
  "message_lines src message =
     (let text = expand_message message src;
          text' = (if has_suffix text [nl] then text else text @ [nl])
      in butlast (split_on nl text'))"

fun number_lines :: "string \<Rightarrow> string list \<Rightarrow> string" where
  "number_lines code [] = []"
| "number_lines code (l # ls) = code @ (if ls = [] then '' '' else ''-'') @ l @ [nl] @ number_lines code ls"

definition format_reply :: "blacklist list \<Rightarrow> string \<Rightarrow> string \<Rightarrow> string" where
  "format_reply bls code src = number_lines code (concat (map (\<lambda>b. message_lines src (bl_message b)) bls))"

definition bl_summary_size :: nat where "bl_summary_size = 80"

definition bl_summary_etc :: string where "bl_summary_etc = '' ...''"

fun summarize_loop :: "string \<Rightarrow> bool \<Rightarrow> blacklist list \<Rightarrow> string" where
  "summarize_loop sb first [] = sb"
| "summarize_loop sb first (b # bs) =
     (if bl_summary_size - length bl_summary_etc \<le> length sb + length (bl_name b) + 1 then sb @ bl_summary_etc
      else summarize_loop (sb @ (if first then [] else '' '') @ bl_name b) False bs)"

definition summarize_lists :: "blacklist list \<Rightarrow> string" where
  "summarize_lists bls = summarize_loop [] True bls"

subsection \<open>Line ends\<close>

fun crlf_from :: "char option \<Rightarrow> string \<Rightarrow> string" where
  "crlf_from prev [] = []"
| "crlf_from prev (c # cs) = (if c = nl \<and> prev \<noteq> Some cr then [cr] else []) @ c # crlf_from (Some c) cs"

definition crlf :: "string \<Rightarrow> string" where
  "crlf s = crlf_from None s"

text \<open>Every line feed follows a carriage return.\<close>

fun crlf_ok :: "char option \<Rightarrow> string \<Rightarrow> bool" where
  "crlf_ok prev [] = True"
| "crlf_ok prev (c # cs) = ((c = nl \<longrightarrow> prev = Some cr) \<and> crlf_ok (Some c) cs)"

lemma crlf_from_ok: "crlf_ok prev (crlf_from prev s)"
  by (induction prev s rule: crlf_from.induct) auto

lemma crlf_from_id: "crlf_ok prev s \<Longrightarrow> crlf_from prev s = s"
  by (induction prev s rule: crlf_from.induct) auto

lemma crlf_ok_append: "crlf_ok prev (a @ b) \<longleftrightarrow> crlf_ok prev a \<and> crlf_ok (if a = [] then prev else Some (last a)) b"
  by (induction a arbitrary: prev) auto

lemma crlf_lines: "filter (\<lambda>c. c \<noteq> cr) (crlf_from prev s) = filter (\<lambda>c. c \<noteq> cr) s"
  by (induction prev s rule: crlf_from.induct) auto

subsection \<open>The form of a reply\<close>

text \<open>What a client reads as a multi-line reply: each line has the code, a dash except on the last.\<close>

fun reply_lines :: "string \<Rightarrow> string list \<Rightarrow> string list" where
  "reply_lines code [] = []"
| "reply_lines code [l] = [code @ '' '' @ l]"
| "reply_lines code (l # l' # ls) = (code @ ''-'' @ l) # reply_lines code (l' # ls)"

lemma split_on_lines:
  "list_all (\<lambda>l. nl \<notin> set l) ls \<Longrightarrow> split_on nl (concat (map (\<lambda>l. l @ [nl]) ls)) = ls @ [[]]"
proof (induction ls)
  case (Cons l ls)
  then show ?case using split_on_append [of nl l "concat (map (\<lambda>l. l @ [nl]) ls)"] by simp
qed simp

lemma split_on_no_sep: "list_all (\<lambda>l. c \<notin> set l) (split_on c s)"
  by (induction c s rule: split_on.induct) (auto split: list.splits)

lemma number_lines_eq: "number_lines code ls = concat (map (\<lambda>l. l @ [nl]) (reply_lines code ls))"
  by (induction code ls rule: reply_lines.induct) simp_all

lemma reply_lines_no_nl:
  "nl \<notin> set code \<Longrightarrow> list_all (\<lambda>l. nl \<notin> set l) ls \<Longrightarrow> list_all (\<lambda>l. nl \<notin> set l) (reply_lines code ls)"
  by (induction code ls rule: reply_lines.induct) simp_all

lemma list_all_butlast: "list_all P xs \<Longrightarrow> list_all P (butlast xs)"
  by (auto simp: list_all_iff dest: in_set_butlastD)

lemma message_lines_no_nl: "list_all (\<lambda>l. nl \<notin> set l) (message_lines src m)"
  unfolding message_lines_def Let_def by (intro list_all_butlast split_on_no_sep)

lemma list_all_concat: "list_all P (concat xss) \<longleftrightarrow> list_all (list_all P) xss"
  by (induction xss) auto

lemma split_on_snoc: "split_on c (s @ [c]) = split_on c s @ [[]]"
  by (induction c s rule: split_on.induct) (auto split: list.splits)

lemma message_lines_not_Nil: "message_lines src m \<noteq> []"
proof -
  have "\<exists>s. (if has_suffix t [nl] then t else t @ [nl]) = s @ [nl]" for t
    by (auto simp: has_suffix_iff) (metis append_take_drop_id)
  then obtain s where s: "(let t = expand_message m src in if has_suffix t [nl] then t else t @ [nl]) = s @ [nl]"
    by (auto simp: Let_def)
  then have "message_lines src m = split_on nl s" by (simp add: message_lines_def Let_def split_on_snoc)
  then show ?thesis by simp
qed

text \<open>
  C38: The rejection of a blacklisted client is a well-formed multi-line reply. Split at its line
  feeds it is one line per line of the expanded messages of the matched lists, in order, each with the code
  in front, followed by a dash on all lines but the last, which has a space; and it is never empty for a client on
  a list. After \<open>crlf\<close> every line feed follows a carriage return and nothing else has changed.
\<close>

theorem format_reply_form:
  assumes "nl \<notin> set code" "bls \<noteq> []"
  shows "split_on nl (format_reply bls code src) =
       reply_lines code (concat (map (\<lambda>b. message_lines src (bl_message b)) bls)) @ [[]] \<and>
     reply_lines code (concat (map (\<lambda>b. message_lines src (bl_message b)) bls)) \<noteq> [] \<and>
     crlf_ok None (crlf (format_reply bls code src)) \<and>
     filter (\<lambda>c. c \<noteq> cr) (crlf (format_reply bls code src)) = filter (\<lambda>c. c \<noteq> cr) (format_reply bls code src)"
proof -
  let ?ls = "concat (map (\<lambda>b. message_lines src (bl_message b)) bls)"
  have ne: "?ls \<noteq> []" using assms(2) message_lines_not_Nil by (cases bls) auto
  then have "reply_lines code ?ls \<noteq> []" by (cases ?ls rule: reply_lines.cases [of "(code, _)"]) auto
  moreover have "list_all (\<lambda>l. nl \<notin> set l) (reply_lines code ?ls)"
    by (intro reply_lines_no_nl [OF assms(1)]) (auto simp: list_all_concat list_all_iff dest: message_lines_no_nl [unfolded list_all_iff, rule_format])
  ultimately show ?thesis
    by (simp add: format_reply_def number_lines_eq split_on_lines crlf_def crlf_from_ok crlf_lines)
qed

theorem format_reply_form_witness:
  "split_on nl (format_reply [new_blacklist ''l'' ''Your address %A is listed'' StorageTrie] ''450'' ''192.0.2.7'') =
     [''450 Your address 192.0.2.7 is listed'', []]"
proof -
  have "message_lines ''192.0.2.7'' ''Your address %A is listed'' = [''Your address 192.0.2.7 is listed'']" by code_simp
  then show ?thesis
    using format_reply_form [of "''450''" "[new_blacklist ''l'' ''Your address %A is listed'' StorageTrie]" "''192.0.2.7''"]
    by (simp add: new_blacklist_def)
qed

end
