(* ===== verification/Smtp_Counters.thy ===== *)
theory Smtp_Counters
  imports Go_Netip "HOL-Library.Multiset"
begin

text \<open>
  The connection counters of \<open>internal/smtp/conn.go\<close>. They are shared by all connections under a
  lock, so each operation is a function on their state. The invariant ties them to the multiset of
  live connections, each with the source it holds a slot for and whether it is blacklisted.
\<close>

record totals =
  tt_accepted :: int
  tt_accepted_black :: int
  tt_refused_full :: int
  tt_refused_source :: int
  tt_grey_tuples :: int
  tt_replies_grey :: int
  tt_replies_black :: int
  tt_proxy_headers :: int

record counters =
  k_clients :: int
  k_black_clients :: int
  k_max_cons :: int
  k_max_black :: int
  k_max_cons_per_source :: int
  k_per_source :: "addr \<rightharpoonup> int"
  k_totals :: totals

definition no_totals :: totals where
  "no_totals =
     \<lparr>tt_accepted = 0, tt_accepted_black = 0, tt_refused_full = 0, tt_refused_source = 0, tt_grey_tuples = 0,
      tt_replies_grey = 0, tt_replies_black = 0, tt_proxy_headers = 0\<rparr>"

definition new_counters :: "int \<Rightarrow> int \<Rightarrow> counters" where
  "new_counters max_cons max_black =
     \<lparr>k_clients = 0, k_black_clients = 0, k_max_cons = max_cons, k_max_black = max_black,
      k_max_cons_per_source = 0, k_per_source = Map.empty, k_totals = no_totals\<rparr>"

definition client_tolerance :: int where "client_tolerance = 5"

definition source_count :: "counters \<Rightarrow> addr \<Rightarrow> int" where
  "source_count k src = (case k_per_source k src of None \<Rightarrow> 0 | Some n \<Rightarrow> n)"

definition add_total :: "((int \<Rightarrow> int) \<Rightarrow> totals \<Rightarrow> totals) \<Rightarrow> counters \<Rightarrow> counters" where
  "add_total f k = k\<lparr>k_totals := f (\<lambda>n. i64 (n + 1)) (k_totals k)\<rparr>"

definition count_refused :: "bool \<Rightarrow> counters \<Rightarrow> counters" where
  "count_refused per_source k =
     (if per_source then add_total tt_refused_source_update k else add_total tt_refused_full_update k)"

definition inc_source :: "addr \<Rightarrow> counters \<Rightarrow> counters" where
  "inc_source src k =
     (if is_valid src then k\<lparr>k_per_source := (k_per_source k)(src \<mapsto> source_count k src + 1)\<rparr> else k)"

definition dec_source :: "addr \<Rightarrow> counters \<Rightarrow> counters" where
  "dec_source src k =
     (if is_valid src then
        (if source_count k src \<le> 1 then k\<lparr>k_per_source := (k_per_source k)(src := None)\<rparr>
         else k\<lparr>k_per_source := (k_per_source k)(src \<mapsto> source_count k src - 1)\<rparr>)
      else k)"

definition reserve :: "addr \<Rightarrow> counters \<Rightarrow> bool \<times> counters" where
  "reserve src k =
     (if 0 < k_max_cons k \<and> k_max_cons k \<le> k_clients k then (False, add_total tt_refused_full_update k)
      else if 0 < k_max_cons_per_source k \<and> is_valid src \<and> k_max_cons_per_source k \<le> source_count k src
      then (False, add_total tt_refused_source_update k)
      else (True, inc_source src (add_total tt_accepted_update (k\<lparr>k_clients := k_clients k + 1\<rparr>))))"

definition mark_black :: "counters \<Rightarrow> int \<times> counters" where
  "mark_black k =
     (let k' = add_total tt_accepted_black_update (k\<lparr>k_black_clients := k_black_clients k + 1\<rparr>)
      in (k_black_clients k', k'))"

definition reassign_source :: "addr \<Rightarrow> addr \<Rightarrow> counters \<Rightarrow> counters" where
  "reassign_source old new k = (if old = new then k else inc_source new (dec_source old k))"

definition remove_conn :: "addr \<Rightarrow> bool \<Rightarrow> counters \<Rightarrow> counters" where
  "remove_conn src black k =
     dec_source src
       (let k1 = k\<lparr>k_clients := k_clients k - 1\<rparr>
        in if black then k1\<lparr>k_black_clients := k_black_clients k1 - 1\<rparr> else k1)"

definition snapshot :: "counters \<Rightarrow> int \<times> int \<times> int \<times> int" where
  "snapshot k = (k_clients k, k_black_clients k, k_max_cons k, k_max_black k)"

definition within_max :: "counters \<Rightarrow> bool" where
  "within_max k \<longleftrightarrow> k_clients k + client_tolerance < k_max_cons k"

definition full :: "counters \<Rightarrow> bool" where
  "full k \<longleftrightarrow> k_max_cons k \<le> k_clients k"

subsection \<open>The live connections\<close>

type_synonym live_conns = "(addr \<times> bool) multiset"

definition holders :: "addr \<Rightarrow> live_conns \<Rightarrow> nat" where
  "holders a L = size (filter_mset (\<lambda>x. fst x = a) L)"

definition tally :: "counters \<Rightarrow> live_conns \<Rightarrow> bool" where
  "tally k L \<longleftrightarrow>
     k_clients k = int (size L) \<and> k_black_clients k = int (size (filter_mset snd L)) \<and>
     (\<forall>a. k_per_source k a = (if is_valid a \<and> 0 < holders a L then Some (int (holders a L)) else None))"

lemma holders_simps [simp]:
  "holders a {#} = 0"
  "holders a (add_mset x L) = (if fst x = a then Suc (holders a L) else holders a L)"
  by (simp_all add: holders_def)

lemma tally_new [simp]: "tally (new_counters c b) {#}"
  by (simp add: tally_def new_counters_def)

lemma add_total_simps [simp]:
  "k_clients (add_total f k) = k_clients k" "k_black_clients (add_total f k) = k_black_clients k"
  "k_per_source (add_total f k) = k_per_source k" "k_max_cons (add_total f k) = k_max_cons k"
  "k_max_black (add_total f k) = k_max_black k" "k_max_cons_per_source (add_total f k) = k_max_cons_per_source k"
  "source_count (add_total f k) a = source_count k a"
  by (simp_all add: add_total_def source_count_def)

lemma tally_total [simp]: "tally (add_total f k) L = tally k L"
  by (simp add: tally_def)

lemma tally_source: "tally k L \<Longrightarrow> source_count k a = (if is_valid a then int (holders a L) else 0)"
  by (auto simp: tally_def source_count_def)

lemma limits_kept [simp]:
  "k_max_cons (inc_source a k) = k_max_cons k" "k_max_cons (dec_source a k) = k_max_cons k"
  "k_max_black (inc_source a k) = k_max_black k" "k_max_black (dec_source a k) = k_max_black k"
  "k_max_cons_per_source (inc_source a k) = k_max_cons_per_source k"
  "k_max_cons_per_source (dec_source a k) = k_max_cons_per_source k"
  "k_clients (inc_source a k) = k_clients k" "k_clients (dec_source a k) = k_clients k"
  "k_black_clients (inc_source a k) = k_black_clients k" "k_black_clients (dec_source a k) = k_black_clients k"
  by (simp_all add: inc_source_def dec_source_def)

text \<open>Each operation keeps the counters in step with the live connections.\<close>

lemma reserve_tally:
  assumes t: "tally k L"
  shows "reserve src k = (True, k') \<Longrightarrow> tally k' (add_mset (src, False) L) \<and>
      (0 < k_max_cons k \<longrightarrow> int (size L) < k_max_cons k) \<and>
      (0 < k_max_cons_per_source k \<and> is_valid src \<longrightarrow> int (holders src L) < k_max_cons_per_source k)"
    and "reserve src k = (False, k') \<Longrightarrow> tally k' L"
proof -
  let ?k = "add_total tt_accepted_update (k\<lparr>k_clients := k_clients k + 1\<rparr>)"
  have sc: "source_count k src = (if is_valid src then int (holders src L) else 0)" by (rule tally_source [OF t])
  then have "source_count ?k src = (if is_valid src then int (holders src L) else 0)" by (simp add: source_count_def)
  then have "k_per_source (inc_source src ?k) a =
      (if is_valid a \<and> 0 < holders a (add_mset (src, False) L) then Some (int (holders a (add_mset (src, False) L))) else None)" for a
    using t by (simp add: inc_source_def tally_def)
  then have "tally (inc_source src ?k) (add_mset (src, False) L)" using t by (simp add: tally_def)
  moreover have clients: "k_clients k = int (size L)" using t by (simp add: tally_def)
  ultimately show "reserve src k = (True, k') \<Longrightarrow> tally k' (add_mset (src, False) L) \<and>
      (0 < k_max_cons k \<longrightarrow> int (size L) < k_max_cons k) \<and>
      (0 < k_max_cons_per_source k \<and> is_valid src \<longrightarrow> int (holders src L) < k_max_cons_per_source k)"
    using sc clients by (auto simp: reserve_def split: if_splits)
  show "reserve src k = (False, k') \<Longrightarrow> tally k' L" using t by (auto simp: reserve_def split: if_splits)
qed

lemma dec_source_tally:
  assumes "tally k (add_mset (src, b) L)"
  shows "k_per_source (dec_source src k) a = (if is_valid a \<and> 0 < holders a L then Some (int (holders a L)) else None)"
  using assms tally_source [OF assms, of src] by (auto simp: dec_source_def tally_def)

lemma remove_tally: "tally k (add_mset (src, b) L) \<Longrightarrow> tally (remove_conn src b k) L"
proof -
  assume t: "tally k (add_mset (src, b) L)"
  have "k_per_source (dec_source src (k\<lparr>k_clients := x, k_black_clients := y\<rparr>)) a = k_per_source (dec_source src k) a" for x y a
    by (simp add: dec_source_def source_count_def)
  moreover have "k_per_source (dec_source src (k\<lparr>k_clients := x\<rparr>)) a = k_per_source (dec_source src k) a" for x a
    by (simp add: dec_source_def source_count_def)
  ultimately show ?thesis using t dec_source_tally [OF t] by (auto simp: tally_def remove_conn_def Let_def)
qed

lemma reassign_tally:
  assumes t: "tally k (add_mset (old, b) L)"
  shows "tally (reassign_source old new k) (add_mset (new, b) L)"
proof (cases "old = new")
  case False
  have "source_count (dec_source old k) new = (if is_valid new then int (holders new L) else 0)"
    using dec_source_tally [OF t, of new] by (simp add: source_count_def)
  then show ?thesis using False t dec_source_tally [OF t] by (auto simp: reassign_source_def tally_def inc_source_def)
qed (use t in \<open>simp add: reassign_source_def\<close>)

lemma mark_black_tally:
  "tally k (add_mset (src, False) L) \<Longrightarrow> tally (snd (mark_black k)) (add_mset (src, True) L)"
  by (auto simp: tally_def mark_black_def Let_def)

lemma unmark_black_tally:
  "tally k (add_mset (src, True) L) \<Longrightarrow> tally (k\<lparr>k_black_clients := k_black_clients k - 1\<rparr>) (add_mset (src, False) L)"
  by (auto simp: tally_def)

end
