(* ===== verification/Smtp_Conn.thy ===== *)
theory Smtp_Conn
  imports Smtp_Reply Smtp_Proxy Smtp_Counters Core_Model Ipc_Writer "HOL-Library.While_Combinator"
begin

text \<open>
  A connection of the fake SMTP server: \<open>internal/smtp/conn.go\<close> and \<open>state.go\<close>. The connection is
  a record, the counters and the stream to the greylister are shared state. The client is a list
  of chunks that reads deliver, a transcript of what was written, and the number of writes that
  succeed. Each handler reads the clock once. Logging, deadlines and the socket buffer size have
  no effect on the state and are left out.
\<close>

subsection \<open>States\<close>

datatype smtp_state =
    StateProxyIn | StateProxyOut | StateBannerIn | StateBannerOut | StateHeloIn | StateHeloOut
  | StateMailIn | StateMailOut | StateRcptIn | StateRcptOut | StateDataIn | StateDataOut
  | StateMessage | StateReply | StateClose

fun state_code :: "smtp_state \<Rightarrow> int" where
  "state_code StateProxyIn = -3"
| "state_code StateProxyOut = -2"
| "state_code StateBannerIn = -1"
| "state_code StateBannerOut = 0"
| "state_code StateHeloIn = 1"
| "state_code StateHeloOut = 2"
| "state_code StateMailIn = 3"
| "state_code StateMailOut = 4"
| "state_code StateRcptIn = 5"
| "state_code StateRcptOut = 6"
| "state_code StateDataIn = 50"
| "state_code StateDataOut = 60"
| "state_code StateMessage = 70"
| "state_code StateReply = 98"
| "state_code StateClose = 99"

lemma state_code_inject: "state_code s = state_code t \<Longrightarrow> s = t"
  by (cases s; cases t) simp_all

instantiation smtp_state :: linorder
begin

definition less_eq_smtp_state :: "smtp_state \<Rightarrow> smtp_state \<Rightarrow> bool" where
  "less_eq_smtp_state s t \<longleftrightarrow> state_code s \<le> state_code t"

definition less_smtp_state :: "smtp_state \<Rightarrow> smtp_state \<Rightarrow> bool" where
  "less_smtp_state s t \<longleftrightarrow> state_code s < state_code t"

instance
  by standard (auto simp: less_eq_smtp_state_def less_smtp_state_def intro: state_code_inject)

end

lemmas state_order = less_smtp_state_def less_eq_smtp_state_def

subsection \<open>Configuration and connection\<close>

type_synonym addr_port = "addr \<times> u16"

record config =
  cf_hostname :: string
  cf_banner :: string
  cf_error_code :: string
  cf_greylist :: bool
  cf_grey_stutter :: int
  cf_stutter :: int
  cf_verbose :: bool
  cf_window :: int
  cf_proxy_protocol :: bool
  cf_permitted_proxies :: "blacklist option"
  cf_max_line_length :: int
  cf_max_cons_per_source :: int

definition buf_size :: nat where "buf_size = 8192"

definition line_limit :: "config \<Rightarrow> nat" where
  "line_limit cfg = (if cf_max_line_length cfg \<le> 0 then buf_size - 1 else nat (cf_max_line_length cfg))"

text \<open>
  The collaborators: whether there is a stream to the greylister, the lookup of original
  destinations, and the rendering of a time in the zone of the host.
\<close>

record deps =
  dp_grey_out :: bool
  dp_orig_dst :: "(addr_port \<Rightarrow> addr_port \<Rightarrow> string) option"
  dp_date :: "int \<Rightarrow> string"

record shared =
  sh_counters :: counters
  sh_blacklists :: "blacklist list option"
  sh_grey :: string
  sh_grey_ok :: bool

record rw =
  rw_input :: "string list"
  rw_sent :: string
  rw_writes :: "nat option"

record conn =
  c_state :: smtp_state
  c_last_state :: smtp_state
  c_src :: addr_port
  c_reserved_src :: addr
  c_local :: addr_port
  c_src_addr :: string
  c_dst_addr :: string
  c_helo :: string
  c_mail :: string
  c_rcpt :: string
  c_lists :: "blacklist list"
  c_list_summary :: string
  c_stutter :: int
  c_start :: int
  c_in :: string
  c_in_buf :: string
  c_proxy_v2 :: "string option"
  c_out :: string
  c_out_pos :: nat
  c_seen_cr :: bool
  c_bad_cmd :: int
  c_data_body :: bool
  c_data_lines :: int
  c_r :: bool
  c_w :: bool
  c_closed :: bool
  c_black :: bool
  c_rw :: rw

type_synonym conn_state = "shared \<times> conn"

definition on_counters :: "(counters \<Rightarrow> counters) \<Rightarrow> shared \<Rightarrow> shared" where
  "on_counters f sh = sh\<lparr>sh_counters := f (sh_counters sh)\<rparr>"

definition set_out :: "string \<Rightarrow> conn \<Rightarrow> conn" where
  "set_out s c = c\<lparr>c_out := crlf s, c_out_pos := 0, c_seen_cr := False, c_w := True\<rparr>"

definition set_read :: "conn \<Rightarrow> conn" where
  "set_read c = c\<lparr>c_in := [], c_r := True\<rparr>"

definition go_to :: "smtp_state \<Rightarrow> conn \<Rightarrow> conn" where
  "go_to st c = c\<lparr>c_last_state := c_state c, c_state := st\<rparr>"

definition out_remaining :: "conn \<Rightarrow> nat" where
  "out_remaining c = length (c_out c) - c_out_pos c"

definition close_conn :: "shared \<Rightarrow> conn \<Rightarrow> conn_state" where
  "close_conn sh c =
     (if c_closed c then (sh, c)
      else (on_counters (remove_conn (c_reserved_src c) (c_black c)) sh,
            c\<lparr>c_closed := True, c_lists := [], c_list_summary := [], c_out := [], c_out_pos := 0\<rparr>))"

subsection \<open>Blacklists\<close>

definition match_addr :: "config \<Rightarrow> conn \<Rightarrow> addr" where
  "match_addr cfg c =
     (if cf_proxy_protocol cfg \<and> c_src_addr c \<noteq> []
      then (case parse_addr (c_src_addr c) of None \<Rightarrow> fst (c_src c) | Some a \<Rightarrow> a)
      else fst (c_src c))"

definition match_blacklists :: "config \<Rightarrow> shared \<Rightarrow> conn \<Rightarrow> conn" where
  "match_blacklists cfg sh c =
     (let a = match_addr cfg c;
          ls = (case sh_blacklists sh of None \<Rightarrow> []
                | Some bls \<Rightarrow> map (\<lambda>b. new_blacklist (bl_name b) (bl_message b) StorageTrie) (filter (\<lambda>b. bl_match b a) bls));
          black = (ls \<noteq> [])
      in c\<lparr>c_lists := ls, c_black := black,
           c_stutter := (if cf_greylist cfg \<and> cf_grey_stutter cfg = 0 \<and> \<not> black then 0 else cf_stutter cfg)\<rparr>)"

definition rematch_after_proxy :: "config \<Rightarrow> shared \<Rightarrow> conn \<Rightarrow> conn_state" where
  "rematch_after_proxy cfg sh c0 =
     (let c = match_blacklists cfg sh c0;
          (sh', c') =
            (if c_black c = c_black c0 then (sh, c)
             else let sh1 = on_counters (\<lambda>k. if c_black c then snd (mark_black k)
                                             else k\<lparr>k_black_clients := k_black_clients k - 1\<rparr>) sh;
                      k1 = sh_counters sh1
               in (sh1, if c_black c \<and> cf_greylist cfg \<and> k_max_black k1 < k_black_clients k1
                        then c\<lparr>c_stutter := 0\<rparr> else c))
      in (sh', c'\<lparr>c_list_summary := (if c_black c' then summarize_lists (c_lists c') else [])\<rparr>))"

subsection \<open>Commands\<close>

definition match :: "string \<Rightarrow> string \<Rightarrow> bool" where
  "match line cmd \<longleftrightarrow> length cmd \<le> length line \<and> equal_fold (take (length cmd) line) cmd"

definition first_field :: "string \<Rightarrow> string" where
  "first_field s = (case Go_Strings.fields s of [] \<Rightarrow> [] | f # _ \<Rightarrow> f)"

definition get_helo :: "string \<Rightarrow> string" where
  "get_helo line = (if length line < 4 then [] else first_field (drop 4 line))"

definition get_addr :: "string \<Rightarrow> string" where
  "get_addr line = (case index_byte line (CHR '':'') of None \<Rightarrow> [] | Some i \<Rightarrow> first_field (drop (Suc i) line))"

definition allow_proxy :: "config \<Rightarrow> conn \<Rightarrow> bool" where
  "allow_proxy cfg c = bl_match_ptr (cf_permitted_proxies cfg) (fst (c_src c))"

definition header_of :: "conn \<Rightarrow> proxy_error + (addr \<times> addr) option" where
  "header_of c =
     (case c_proxy_v2 c of
        Some h \<Rightarrow> parse_proxy_header_v2 h
      | None \<Rightarrow> (case parse_proxy_header (c_in_buf c) of Inl e \<Rightarrow> Inl e | Inr x \<Rightarrow> Inr (Some x)))"

definition adopt_header :: "config \<Rightarrow> proxy_error + (addr \<times> addr) option \<Rightarrow> shared \<Rightarrow> conn \<Rightarrow> bool \<times> conn_state" where
  "adopt_header cfg r sh c =
     (case r of
        Inl e \<Rightarrow> (False, sh, c)
      | Inr None \<Rightarrow> (True, on_counters (add_total tt_proxy_headers_update) sh, c)
      | Inr (Some (src, dst)) \<Rightarrow>
          (True,
           rematch_after_proxy cfg
             (on_counters (\<lambda>k. reassign_source (c_reserved_src c) (unmap src) (add_total tt_proxy_headers_update k)) sh)
             (c\<lparr>c_reserved_src := unmap src, c_src_addr := addr_string src, c_dst_addr := addr_string dst\<rparr>)))"

definition apply_proxy_header :: "config \<Rightarrow> shared \<Rightarrow> conn \<Rightarrow> bool \<times> conn_state" where
  "apply_proxy_header cfg sh c =
     (if c_proxy_v2 c = None \<and> \<not> match (c_in_buf c) ''PROXY'' \<or> \<not> allow_proxy cfg c
      then (False, sh, c\<lparr>c_proxy_v2 := None\<rparr>)
      else adopt_header cfg (header_of c) sh (c\<lparr>c_proxy_v2 := None\<rparr>))"

definition lookup_orig_dst :: "config \<Rightarrow> deps \<Rightarrow> conn \<Rightarrow> conn" where
  "lookup_orig_dst cfg dp c =
     (if cf_proxy_protocol cfg then c
      else c\<lparr>c_dst_addr := (case dp_orig_dst dp of None \<Rightarrow> [] | Some f \<Rightarrow> f (c_src c) (c_local c))\<rparr>)"

definition build_reply :: "string \<Rightarrow> shared \<Rightarrow> conn \<Rightarrow> conn_state" where
  "build_reply code sh c =
     (if c_black c
      then (on_counters (add_total tt_replies_black_update) sh, set_out (format_reply (c_lists c) code (c_src_addr c)) c)
      else (on_counters (add_total tt_replies_grey_update) sh, set_out grey_reply c))"

subsection \<open>The state machine\<close>

text \<open>
  \<open>NextState\<close> falls through from one state to the next when the input is another command. The
  cases are functions, the last first.
\<close>

definition max_bad_cmd :: int where "max_bad_cmd = 20"

definition ok_reply :: string where "ok_reply = ''250 OK'' @ crnl"

definition data_reply :: string where
  "data_reply = ''354 End data with <CR><LF>.<CR><LF>'' @ crnl"

definition state_reply :: "config \<Rightarrow> shared \<Rightarrow> conn \<Rightarrow> conn_state" where
  "state_reply cfg sh c =
     (let (sh', c') = build_reply (cf_error_code cfg) sh c in (sh', go_to StateClose c'))"

definition state_data_in :: "config \<Rightarrow> shared \<Rightarrow> conn \<Rightarrow> conn_state" where
  "state_data_in cfg sh c =
     (if match (c_in_buf c) ''DATA'' then
        (let c1 = (set_out data_reply c)\<lparr>c_state := StateDataOut, c_in := []\<rparr>
         in if cf_greylist cfg \<and> \<not> c_black c then state_reply cfg sh (go_to StateReply c1) else (sh, c1))
      else if match (c_in_buf c) ''NOOP'' then
        (let c1 = set_out ok_reply c in (sh, c1\<lparr>c_state := c_last_state c1, c_in := []\<rparr>))
      else
        (let c1 = (set_out (''500 Command unrecognized'' @ crnl) c)\<lparr>c_bad_cmd := c_bad_cmd c + 1\<rparr>
         in if max_bad_cmd < c_bad_cmd c1 then state_reply cfg sh (go_to StateReply c1)
            else (sh, c1\<lparr>c_state := c_last_state c1, c_in := []\<rparr>)))"

definition state_rcpt_in :: "config \<Rightarrow> deps \<Rightarrow> shared \<Rightarrow> conn \<Rightarrow> conn_state" where
  "state_rcpt_in cfg dp sh c =
     (if match (c_in_buf c) ''RCPT'' then
        (let c1 = go_to StateRcptOut (set_out ok_reply (c\<lparr>c_rcpt := normalize_email (get_addr (c_in_buf c))\<rparr>))
         in if c_mail c1 \<noteq> [] \<and> c_rcpt c1 \<noteq> [] \<and> cf_greylist cfg \<and> \<not> c_black c1 \<and> dp_grey_out dp then
              (let c2 = lookup_orig_dst cfg dp c1
               in if sh_grey_ok sh
                  then (on_counters (add_total tt_grey_tuples_update)
                          (sh\<lparr>sh_grey := sh_grey sh @
                             write_grey (c_dst_addr c2) (c_src_addr c2) (c_helo c2) (c_mail c2) (c_rcpt c2)\<rparr>), c2)
                  else (sh, c2))
            else (sh, c1))
      else state_data_in cfg sh c)"

definition state_mail_in :: "config \<Rightarrow> deps \<Rightarrow> shared \<Rightarrow> conn \<Rightarrow> conn_state" where
  "state_mail_in cfg dp sh c =
     (if match (c_in_buf c) ''MAIL''
      then (sh, go_to StateMailOut (set_out ok_reply (c\<lparr>c_mail := normalize_email (get_addr (c_in_buf c))\<rparr>)))
      else state_rcpt_in cfg dp sh c)"

definition state_helo_in :: "config \<Rightarrow> deps \<Rightarrow> shared \<Rightarrow> conn \<Rightarrow> conn_state" where
  "state_helo_in cfg dp sh c =
     (if match (c_in_buf c) ''HELO'' \<or> match (c_in_buf c) ''EHLO'' then
        (let c1 = c\<lparr>c_helo := get_helo (c_in_buf c)\<rparr>
         in if c_helo c1 = []
            then (sh, go_to StateBannerOut
                        (set_out (''501 Syntax: '' @ (if match (c_in_buf c) ''HELO'' then ''HELO'' else ''EHLO'') @
                                  '' hostname'' @ crnl) c1))
            else (sh, go_to StateHeloOut (set_out (''250 '' @ cf_hostname cfg @ crnl) c1)))
      else state_mail_in cfg dp sh c)"

definition state_banner_in :: "config \<Rightarrow> deps \<Rightarrow> int \<Rightarrow> shared \<Rightarrow> conn \<Rightarrow> conn_state" where
  "state_banner_in cfg dp now sh c =
     (sh, go_to StateBannerOut
            (set_out (''220 '' @ cf_hostname cfg @ '' ESMTP '' @ cf_banner cfg @ ''; '' @ dp_date dp now @ crnl) c))"

definition state_proxy_out :: "config \<Rightarrow> deps \<Rightarrow> int \<Rightarrow> shared \<Rightarrow> conn \<Rightarrow> conn_state" where
  "state_proxy_out cfg dp now sh c =
     (let (ok, sh', c') = apply_proxy_header cfg sh c
      in if ok then state_banner_in cfg dp now sh' c' else state_reply cfg sh' c')"

text \<open>The lines of a message: whether the message is over, and the two counters.\<close>

fun message_loop :: "string list \<Rightarrow> bool \<Rightarrow> int \<Rightarrow> bool \<times> bool \<times> int" where
  "message_loop [] body n = (False, body, n)"
| "message_loop (l # ls) body n =
     (let line = (if has_suffix l [cr] then butlast l else l);
          n' = (if body then n + 1 else n)
      in if line = ''.'' then (True, body, n)
         else if body \<and> 10 \<le> n' then (True, body, n')
         else message_loop ls (body \<or> line = []) n')"

definition state_message :: "config \<Rightarrow> shared \<Rightarrow> conn \<Rightarrow> conn_state" where
  "state_message cfg sh c =
     (let (over, body, n) = message_loop (split_on nl (c_in_buf c)) (c_data_body c) (c_data_lines c);
          c1 = c\<lparr>c_data_body := body, c_data_lines := n\<rparr>
      in if over then state_reply cfg sh (go_to StateReply c1) else (sh, set_read c1))"

definition dispatch :: "config \<Rightarrow> deps \<Rightarrow> int \<Rightarrow> shared \<Rightarrow> conn \<Rightarrow> conn_state" where
  "dispatch cfg dp now sh c =
     (case c_state c of
        StateProxyIn \<Rightarrow> (sh, set_read (go_to StateProxyOut c))
      | StateProxyOut \<Rightarrow> state_proxy_out cfg dp now sh c
      | StateBannerIn \<Rightarrow> state_banner_in cfg dp now sh c
      | StateBannerOut \<Rightarrow> (sh, set_read (go_to StateHeloIn c))
      | StateHeloIn \<Rightarrow> state_helo_in cfg dp sh c
      | StateHeloOut \<Rightarrow> (sh, set_read (go_to StateMailIn c))
      | StateMailIn \<Rightarrow> state_mail_in cfg dp sh c
      | StateMailOut \<Rightarrow> (sh, set_read (go_to StateRcptIn c))
      | StateRcptIn \<Rightarrow> state_rcpt_in cfg dp sh c
      | StateRcptOut \<Rightarrow> (sh, set_read (go_to StateRcptIn c))
      | StateDataIn \<Rightarrow> state_data_in cfg sh c
      | StateDataOut \<Rightarrow> (sh, set_read (go_to StateMessage c))
      | StateMessage \<Rightarrow> state_message cfg sh c
      | StateReply \<Rightarrow> state_reply cfg sh c
      | StateClose \<Rightarrow> close_conn sh c)"

definition quits :: "conn \<Rightarrow> bool" where
  "quits c \<longleftrightarrow> match (c_in_buf c) ''QUIT'' \<and> c_state c < StateClose"

definition resets :: "conn \<Rightarrow> bool" where
  "resets c \<longleftrightarrow> match (c_in_buf c) ''RSET'' \<and> StateHeloOut < c_state c \<and> c_state c < StateDataIn"

definition next_state :: "config \<Rightarrow> deps \<Rightarrow> int \<Rightarrow> shared \<Rightarrow> conn \<Rightarrow> conn_state" where
  "next_state cfg dp now sh c =
     (if c_closed c then (sh, c)
      else if quits c then (sh, go_to StateClose (set_out (''221 '' @ cf_hostname cfg @ crnl) c))
      else if resets c then (sh, go_to StateHeloOut (set_out ok_reply c))
      else dispatch cfg dp now sh c)"

end
