(* ===== verification/Smtp_Session.thy ===== *)
theory Smtp_Session
  imports Smtp_Conn
begin

text \<open>
  Reading and writing on a connection, its set-up, and the loop that drives it: the remaining
  operations of \<open>internal/smtp/conn.go\<close>. The theory shows that every dialogue comes to an end.
\<close>

subsection \<open>Reading\<close>

text \<open>
  One read of at most \<open>n\<close> bytes. A chunk that is longer is delivered in parts; without a chunk
  the client has gone.
\<close>

definition read_chunk :: "nat \<Rightarrow> shared \<Rightarrow> conn \<Rightarrow> bool \<times> conn_state" where
  "read_chunk n sh c =
     (case rw_input (c_rw c) of
        [] \<Rightarrow> (False, close_conn sh c)
      | x # xs \<Rightarrow>
          (let rest = drop n x;
               c1 = c\<lparr>c_in := c_in c @ take n x,
                      c_rw := (c_rw c)\<lparr>rw_input := (if rest = [] then xs else rest # xs)\<rparr>\<rparr>
           in if take n x = [] then (False, close_conn sh c1) else (True, sh, c1)))"

lemma read_chunk_length:
  "read_chunk n sh c = (True, sh', c') \<Longrightarrow> length (c_in c) < length (c_in c') \<and> length (c_in c') \<le> length (c_in c) + n"
  by (auto simp: read_chunk_def Let_def split: list.splits if_splits)

text \<open>The loop of \<open>HandleRead\<close>: until a chunk has a line feed or the limit is reached.\<close>

function read_line_loop :: "nat \<Rightarrow> shared \<Rightarrow> conn \<Rightarrow> bool \<times> conn_state" where
  "read_line_loop limit sh c =
     (if length (c_in c) < limit then
        (case read_chunk (limit - length (c_in c)) sh c of
           (False, s) \<Rightarrow> (False, s)
         | (True, sh', c') \<Rightarrow>
             if nl \<in> set (drop (length (c_in c)) (c_in c')) then (True, sh', c') else read_line_loop limit sh' c')
      else (True, sh, c))"
  by pat_completeness auto
termination
  by (relation "measure (\<lambda>(limit, sh, c). limit - length (c_in c))") (auto dest!: sym [of "(True, _, _)"] read_chunk_length)

text \<open>The loops of \<open>readProxyHeader\<close>: until \<open>n\<close> bytes are there or the condition fails.\<close>

function read_while :: "(string \<Rightarrow> bool) \<Rightarrow> nat \<Rightarrow> shared \<Rightarrow> conn \<Rightarrow> bool \<times> conn_state" where
  "read_while p n sh c =
     (if length (c_in c) < n \<and> p (c_in c) then
        (case read_chunk (n - length (c_in c)) sh c of
           (False, s) \<Rightarrow> (False, s)
         | (True, sh', c') \<Rightarrow> read_while p n sh' c')
      else (True, sh, c))"
  by pat_completeness auto
termination
  by (relation "measure (\<lambda>(p, n, sh, c). n - length (c_in c))") (auto dest!: sym [of "(True, _, _)"] read_chunk_length)

declare read_line_loop.simps [simp del] read_while.simps [simp del]

definition strip_line :: "string \<Rightarrow> string" where
  "strip_line s =
     (let line = (case index_byte s (CHR 0x00) of None \<Rightarrow> s | Some i \<Rightarrow> take i s)
      in rev (dropWhile (\<lambda>c. c = cr \<or> c = nl) (rev line)))"

definition finish_line :: "config \<Rightarrow> deps \<Rightarrow> int \<Rightarrow> shared \<Rightarrow> conn \<Rightarrow> conn_state" where
  "finish_line cfg dp now sh c = next_state cfg dp now sh (c\<lparr>c_in_buf := strip_line (c_in c), c_r := False\<rparr>)"

definition read_v1 :: "config \<Rightarrow> deps \<Rightarrow> int \<Rightarrow> shared \<Rightarrow> conn \<Rightarrow> conn_state" where
  "read_v1 cfg dp now sh c =
     (case read_while (\<lambda>s. nl \<notin> set s) (min (line_limit cfg) max_proxy_header) sh c of
        (False, s) \<Rightarrow> s
      | (True, sh1, c1) \<Rightarrow>
          finish_line cfg dp now sh1 (if nl \<in> set (c_in c1) then c1 else c1\<lparr>c_in := ''PROXY OVERLONG''\<rparr>))"

definition read_v2 :: "config \<Rightarrow> deps \<Rightarrow> int \<Rightarrow> shared \<Rightarrow> conn \<Rightarrow> conn_state" where
  "read_v2 cfg dp now sh c =
     (case read_while (\<lambda>_. True) proxy_v2_header_len sh c of
        (False, s) \<Rightarrow> s
      | (True, sh1, c1) \<Rightarrow>
          (let total = proxy_v2_header_len + declared_length (c_in c1)
           in if proxy_v2_header_len + max_proxy_v2_length < total then close_conn sh1 c1
              else case read_while (\<lambda>_. True) total sh1 c1 of
                  (False, s) \<Rightarrow> s
                | (True, sh2, c2) \<Rightarrow>
                    next_state cfg dp now sh2 (c2\<lparr>c_proxy_v2 := Some (c_in c2), c_in_buf := [], c_r := False\<rparr>)))"

definition read_proxy_header :: "config \<Rightarrow> deps \<Rightarrow> int \<Rightarrow> shared \<Rightarrow> conn \<Rightarrow> conn_state" where
  "read_proxy_header cfg dp now sh c =
     (case read_while (has_prefix proxy_v2_signature) (length proxy_v2_signature) sh c of
        (False, s) \<Rightarrow> s
      | (True, sh1, c1) \<Rightarrow>
          if has_prefix (c_in c1) proxy_v2_signature then read_v2 cfg dp now sh1 c1 else read_v1 cfg dp now sh1 c1)"

definition handle_read :: "config \<Rightarrow> deps \<Rightarrow> int \<Rightarrow> shared \<Rightarrow> conn \<Rightarrow> conn_state" where
  "handle_read cfg dp now sh c =
     (if c_closed c \<or> \<not> c_r c then (sh, c)
      else if c_state c = StateProxyOut then read_proxy_header cfg dp now sh c
      else case read_line_loop (line_limit cfg) sh c of
          (False, s) \<Rightarrow> s
        | (True, sh', c') \<Rightarrow> finish_line cfg dp now sh' c')"

subsection \<open>Writing\<close>

definition write_rw :: "string \<Rightarrow> rw \<Rightarrow> rw option" where
  "write_rw s w =
     (case rw_writes w of
        None \<Rightarrow> Some (w\<lparr>rw_sent := rw_sent w @ s\<rparr>)
      | Some 0 \<Rightarrow> None
      | Some (Suc n) \<Rightarrow> Some (w\<lparr>rw_sent := rw_sent w @ s, rw_writes := Some n\<rparr>))"

definition second_ns :: int where "second_ns = 1000000000"

text \<open>The difference of two times, as a 64-bit duration.\<close>

definition time_sub :: "int \<Rightarrow> int \<Rightarrow> int" where
  "time_sub t u = max (- (2 ^ 63)) (min (2 ^ 63 - 1) (t - u))"

definition stop_stutter :: "config \<Rightarrow> int \<Rightarrow> conn \<Rightarrow> conn" where
  "stop_stutter cfg now c =
     (if 0 < c_stutter c \<and> cf_greylist cfg \<and> \<not> c_black c \<and>
         i64 (cf_grey_stutter cfg * second_ns) < time_sub now (c_start c)
      then c\<lparr>c_stutter := 0\<rparr> else c)"

definition to_write :: "shared \<Rightarrow> conn \<Rightarrow> nat" where
  "to_write sh c = (if within_max (sh_counters sh) \<and> 0 < c_stutter c then 1 else out_remaining c)"

text \<open>One write of queued bytes, with the carriage return that a line feed needs, and whether it succeeds.\<close>

definition write_out :: "shared \<Rightarrow> conn \<Rightarrow> bool \<times> conn" where
  "write_out sh c =
     (let b = c_out c ! c_out_pos c; n = to_write sh c
      in case (if b = nl \<and> \<not> c_seen_cr c then write_rw [cr] (c_rw c) else Some (c_rw c)) of
           None \<Rightarrow> (False, c)
         | Some w1 \<Rightarrow>
             (let c1 = c\<lparr>c_seen_cr := (b = cr), c_rw := w1\<rparr>
              in case write_rw (take n (drop (c_out_pos c) (c_out c))) w1 of
                   None \<Rightarrow> (False, c1)
                 | Some w2 \<Rightarrow> (True, c1\<lparr>c_rw := w2, c_out_pos := c_out_pos c + n\<rparr>)))"

definition handle_write :: "config \<Rightarrow> deps \<Rightarrow> int \<Rightarrow> shared \<Rightarrow> conn \<Rightarrow> conn_state" where
  "handle_write cfg dp now sh c0 =
     (if c_closed c0 \<or> \<not> c_w c0 then (sh, c0)
      else let c = stop_stutter cfg now c0;
               (ok, c1) = (if 0 < out_remaining c then write_out sh c else (True, c))
        in if \<not> ok then close_conn sh c1
           else if out_remaining c1 = 0 then next_state cfg dp now sh (c1\<lparr>c_w := False\<rparr>)
           else (sh, c1))"

subsection \<open>A connection from its start to its end\<close>

definition initial_conn :: "config \<Rightarrow> int \<Rightarrow> rw \<Rightarrow> addr_port \<Rightarrow> addr_port \<Rightarrow> conn" where
  "initial_conn cfg now w src local =
     \<lparr>c_state = StateBannerOut, c_last_state = StateBannerOut, c_src = src, c_reserved_src = unmap (fst src),
      c_local = local, c_src_addr = addr_string (unmap (fst src)), c_dst_addr = [], c_helo = [], c_mail = [],
      c_rcpt = [], c_lists = [], c_list_summary = [], c_stutter = 0, c_start = now, c_in = [], c_in_buf = [],
      c_proxy_v2 = None, c_out = [], c_out_pos = 0, c_seen_cr = False, c_bad_cmd = 0, c_data_body = False,
      c_data_lines = 0, c_r = False, c_w = False, c_closed = False, c_black = False, c_rw = w\<rparr>"

definition new_conn :: "config \<Rightarrow> deps \<Rightarrow> int \<Rightarrow> shared \<Rightarrow> rw \<Rightarrow> addr_port \<Rightarrow> addr_port \<Rightarrow> conn_state" where
  "new_conn cfg dp now sh w src local =
     (let c = match_blacklists cfg sh (initial_conn cfg now w src local);
          (sh1, c1) =
            (if c_black c then
               (let (black, k) = mark_black (sh_counters sh)
                in (sh\<lparr>sh_counters := k\<rparr>,
                    c\<lparr>c_list_summary := summarize_lists (c_lists c),
                      c_stutter := (if cf_greylist cfg \<and> k_max_black k < black then 0 else c_stutter c)\<rparr>))
             else (sh, c))
      in next_state cfg dp now sh1
           (c1\<lparr>c_state := (if cf_proxy_protocol cfg then StateProxyIn else StateBannerIn)\<rparr>))"

definition serve_step :: "config \<Rightarrow> deps \<Rightarrow> int \<Rightarrow> shared \<Rightarrow> conn \<Rightarrow> conn_state" where
  "serve_step cfg dp now sh c =
     (if c_w c then handle_write cfg dp now sh c
      else if c_r c then handle_read cfg dp now sh c
      else close_conn sh c)"

definition serve_body :: "config \<Rightarrow> deps \<Rightarrow> (nat \<Rightarrow> int) \<Rightarrow> nat \<times> conn_state \<Rightarrow> nat \<times> conn_state" where
  "serve_body cfg dp clock s = (Suc (fst s), serve_step cfg dp (clock (fst s)) (fst (snd s)) (snd (snd s)))"

definition serve :: "config \<Rightarrow> deps \<Rightarrow> (nat \<Rightarrow> int) \<Rightarrow> nat \<times> conn_state \<Rightarrow> (nat \<times> conn_state) option" where
  "serve cfg dp clock = while_option (\<lambda>s. \<not> c_closed (snd (snd s))) (serve_body cfg dp clock)"

subsection \<open>Every dialogue ends\<close>

text \<open>
  Between two steps a connection is closed, or has a reply to write and is in a state that
  follows a reply, or waits for input in a state that reads.
\<close>

definition quiet :: "conn \<Rightarrow> bool" where
  "quiet c \<longleftrightarrow> (match (c_in_buf c) ''QUIT'' \<longrightarrow> c_state c = StateClose) \<and>
     (match (c_in_buf c) ''RSET'' \<longrightarrow> \<not> (StateHeloOut < c_state c \<and> c_state c < StateDataIn))"

definition writes :: "conn \<Rightarrow> bool" where
  "writes c \<longleftrightarrow> c_state c \<in> {StateBannerOut, StateHeloOut, StateMailOut, StateRcptOut, StateDataOut, StateClose} \<and> quiet c"

definition reads :: "conn \<Rightarrow> bool" where
  "reads c \<longleftrightarrow>
     c_state c \<in> {StateProxyOut, StateMessage} \<or>
     c_state c = StateHeloIn \<and> c_last_state c = StateBannerOut \<or>
     c_state c = StateMailIn \<and> c_last_state c = StateHeloOut \<or>
     c_state c = StateRcptIn \<and> c_last_state c \<in> {StateMailOut, StateRcptOut}"

definition flow_ok :: "conn \<Rightarrow> bool" where
  "flow_ok c \<longleftrightarrow> c_closed c \<or> c_w c \<and> \<not> c_r c \<and> writes c \<or> \<not> c_w c \<and> c_r c \<and> c_in c = [] \<and> reads c"

lemma match_same: "match l a \<Longrightarrow> match l b \<Longrightarrow> length a = length b \<Longrightarrow> equal_fold a b"
  by (auto simp: match_def equal_fold_def)

lemma match_commands:
  "match l ''DATA'' \<Longrightarrow> \<not> match l ''RSET''" "match l ''RCPT'' \<Longrightarrow> \<not> match l ''RSET''"
  "match l ''MAIL'' \<Longrightarrow> \<not> match l ''RSET''" "match l ''NOOP'' \<Longrightarrow> \<not> match l ''RSET''"
  using match_same [of l "''DATA''" "''RSET''"] match_same [of l "''RCPT''" "''RSET''"]
    match_same [of l "''MAIL''" "''RSET''"] match_same [of l "''NOOP''" "''RSET''"]
  by (auto simp: equal_fold_def to_lower_def lower_char_def)

lemmas moves = set_out_def set_read_def go_to_def
lemmas state_cases = state_reply_def build_reply_def state_data_in_def state_rcpt_in_def state_mail_in_def
  state_helo_in_def state_banner_in_def state_message_def lookup_orig_dst_def

lemma close_conn_closed [simp]: "c_closed (snd (close_conn sh c))"
  by (simp add: close_conn_def)

lemma reply_flow: "\<not> c_r c \<Longrightarrow> flow_ok (snd (state_reply cfg sh c)) \<and> c_rw (snd (state_reply cfg sh c)) = c_rw c"
  by (auto simp: state_reply_def build_reply_def moves flow_ok_def writes_def quiet_def state_order)

lemma data_in_flow:
  "\<not> c_r c \<Longrightarrow> \<not> match (c_in_buf c) ''QUIT'' \<Longrightarrow>
   c_last_state c \<in> {StateBannerOut, StateHeloOut} \<or> \<not> match (c_in_buf c) ''RSET'' \<and> c_last_state c \<in> {StateMailOut, StateRcptOut} \<Longrightarrow>
   flow_ok (snd (state_data_in cfg sh c)) \<and> c_rw (snd (state_data_in cfg sh c)) = c_rw c"
  using reply_flow match_commands
  by (auto simp: state_data_in_def moves flow_ok_def writes_def quiet_def state_order Let_def)

text \<open>The side conditions under which the command states are entered.\<close>

definition command_ok :: "conn \<Rightarrow> bool" where
  "command_ok c \<longleftrightarrow> \<not> c_r c \<and> \<not> match (c_in_buf c) ''QUIT'' \<and>
     (c_last_state c \<in> {StateBannerOut, StateHeloOut} \<or>
      \<not> match (c_in_buf c) ''RSET'' \<and> c_last_state c \<in> {StateMailOut, StateRcptOut})"

definition kept :: "conn \<Rightarrow> conn_state \<Rightarrow> bool" where
  "kept c s \<longleftrightarrow> flow_ok (snd s) \<and> c_rw (snd s) = c_rw c"

lemma data_in_kept: "command_ok c \<Longrightarrow> kept c (state_data_in cfg sh c)"
  using data_in_flow [of c cfg sh] by (simp add: command_ok_def kept_def)

lemma rcpt_in_kept: "command_ok c \<Longrightarrow> kept c (state_rcpt_in cfg dp sh c)"
  using data_in_kept match_commands(2)
  by (auto simp: state_rcpt_in_def kept_def command_ok_def lookup_orig_dst_def moves flow_ok_def writes_def quiet_def
      state_order Let_def)

lemma mail_in_kept: "command_ok c \<Longrightarrow> kept c (state_mail_in cfg dp sh c)"
  using rcpt_in_kept match_commands(3)
  by (auto simp: state_mail_in_def kept_def command_ok_def moves flow_ok_def writes_def quiet_def state_order)

lemma helo_in_kept: "command_ok c \<Longrightarrow> kept c (state_helo_in cfg dp sh c)"
  using mail_in_kept
  by (auto simp: state_helo_in_def kept_def command_ok_def moves flow_ok_def writes_def quiet_def state_order Let_def)

lemma message_kept: "\<not> c_r c \<Longrightarrow> \<not> c_w c \<Longrightarrow> c_state c = StateMessage \<Longrightarrow> kept c (state_message cfg sh c)"
proof -
  assume c: "\<not> c_r c" "\<not> c_w c" "c_state c = StateMessage"
  obtain d b n where m: "message_loop (split_on nl (c_in_buf c)) (c_data_body c) (c_data_lines c) = (d, b, n)"
    using prod_cases3 by blast
  let ?c = "c\<lparr>c_data_body := b, c_data_lines := n\<rparr>"
  have r: "\<not> c_r (go_to StateReply ?c)" "c_rw (go_to StateReply ?c) = c_rw c" using c by (simp_all add: go_to_def)
  show ?thesis
  proof (cases d)
    case True
    then have "state_message cfg sh c = state_reply cfg sh (go_to StateReply ?c)" by (simp add: state_message_def m)
    with reply_flow [OF r(1)] r(2) show ?thesis by (simp add: kept_def)
  next
    case False
    then show ?thesis using c by (simp add: state_message_def m kept_def set_read_def flow_ok_def reads_def)
  qed
qed

lemma rematch_kept [simp]:
  "c_rw (snd (rematch_after_proxy cfg sh c)) = c_rw c" "c_r (snd (rematch_after_proxy cfg sh c)) = c_r c"
  "c_w (snd (rematch_after_proxy cfg sh c)) = c_w c" "c_in_buf (snd (rematch_after_proxy cfg sh c)) = c_in_buf c"
  "c_state (snd (rematch_after_proxy cfg sh c)) = c_state c"
  by (simp_all add: rematch_after_proxy_def match_blacklists_def Let_def)

lemma apply_proxy_kept:
  assumes "apply_proxy_header cfg sh c = (ok, s)"
  shows "c_rw (snd s) = c_rw c" "c_r (snd s) = c_r c" "c_w (snd s) = c_w c" "c_in_buf (snd s) = c_in_buf c"
    "c_state (snd s) = c_state c"
  using assms by (auto simp: apply_proxy_header_def adopt_header_def split: if_splits option.splits sum.splits)

lemma proxy_out_kept:
  assumes "\<not> c_r c" "\<not> match (c_in_buf c) ''QUIT''" "c_state c = StateProxyOut"
  shows "kept c (state_proxy_out cfg dp now sh c)"
proof -
  obtain ok sh' c' where a: "apply_proxy_header cfg sh c = (ok, sh', c')" using prod_cases3 by blast
  note k = apply_proxy_kept [OF a, simplified]
  show ?thesis
    using assms k reply_flow [of c' cfg sh']
    by (cases ok) (auto simp: state_proxy_out_def a kept_def state_banner_in_def moves flow_ok_def writes_def quiet_def state_order)
qed

lemma next_state_after_read:
  assumes "\<not> c_closed c" "\<not> c_w c" "\<not> c_r c" "reads c"
  shows "kept c (next_state cfg dp now sh c)"
proof -
  have close: "c_state c < StateClose" using assms(4) by (auto simp: reads_def state_order)
  consider "match (c_in_buf c) ''QUIT''" | "\<not> match (c_in_buf c) ''QUIT''" "resets c"
    | "\<not> match (c_in_buf c) ''QUIT''" "\<not> resets c" by blast
  then show ?thesis
  proof cases
    case 1
    then show ?thesis using assms close
      by (simp add: next_state_def quits_def kept_def moves flow_ok_def writes_def quiet_def) (simp add: state_order)
  next
    case 2
    then show ?thesis using assms(1-3)
      by (simp add: next_state_def quits_def kept_def moves flow_ok_def writes_def quiet_def)
  next
    case 3
    then have n: "next_state cfg dp now sh c = dispatch cfg dp now sh c" using assms(1) by (simp add: next_state_def quits_def)
    have cmd: "command_ok c" if "c_state c \<in> {StateHeloIn, StateMailIn, StateRcptIn}"
      using that 3 assms(3,4) by (auto simp: command_ok_def reads_def resets_def state_order)
    have "c_state c \<in> {StateProxyOut, StateMessage, StateHeloIn, StateMailIn, StateRcptIn}" using assms(4) by (auto simp: reads_def)
    then show ?thesis unfolding n dispatch_def
      using cmd helo_in_kept mail_in_kept rcpt_in_kept message_kept [OF assms(3,2)] proxy_out_kept [OF assms(3) 3(1)]
      by (elim insertE emptyE) simp_all
  qed
qed

lemma next_state_after_write:
  assumes "\<not> c_closed c" "\<not> c_w c" "\<not> c_r c" "writes c"
  shows "c_closed (snd (next_state cfg dp now sh c)) \<or>
     (c_r (snd (next_state cfg dp now sh c)) \<and> kept c (next_state cfg dp now sh c))"
proof -
  have "\<not> quits c" "\<not> resets c" using assms(4) by (auto simp: writes_def quiet_def quits_def resets_def)
  then have n: "next_state cfg dp now sh c = dispatch cfg dp now sh c" using assms(1) by (simp add: next_state_def)
  have "c_state c \<in> {StateBannerOut, StateHeloOut, StateMailOut, StateRcptOut, StateDataOut, StateClose}"
    using assms(4) by (simp add: writes_def)
  then show ?thesis using assms(2,3) unfolding n dispatch_def
    by (elim insertE emptyE) (simp_all add: kept_def moves flow_ok_def reads_def)
qed

subsubsection \<open>Progress\<close>

definition input_left :: "conn \<Rightarrow> nat" where
  "input_left c = length (rw_input (c_rw c)) + length (concat (rw_input (c_rw c)))"

text \<open>What a read leaves alone.\<close>

definition no_input :: "conn \<Rightarrow> conn" where
  "no_input c = c\<lparr>c_in := [], c_rw := \<lparr>rw_input = [], rw_sent = [], rw_writes = None\<rparr>\<rparr>"

definition same_but_input :: "conn \<Rightarrow> conn \<Rightarrow> bool" where
  "same_but_input c c' \<longleftrightarrow> no_input c' = no_input c"

lemma same_but_input_trans: "same_but_input a b \<Longrightarrow> same_but_input b c \<Longrightarrow> same_but_input a c"
  by (simp add: same_but_input_def)

lemma same_but_input_refl [simp]: "same_but_input a a"
  by (simp add: same_but_input_def)

lemma same_but_input_update [simp]: "same_but_input c (c'\<lparr>c_in := i\<rparr>) = same_but_input c c'"
  "same_but_input c (c'\<lparr>c_rw := w\<rparr>) = same_but_input c c'"
  by (simp_all add: same_but_input_def no_input_def)

lemma same_but_input_fields:
  assumes "same_but_input c c'"
  shows "c_state c' = c_state c" "c_last_state c' = c_last_state c" "c_closed c' = c_closed c" "c_w c' = c_w c"
    "c_r c' = c_r c" "c_black c' = c_black c" "c_reserved_src c' = c_reserved_src c" "c_src c' = c_src c"
    "c_src_addr c' = c_src_addr c" "c_out c' = c_out c" "c_out_pos c' = c_out_pos c" "c_lists c' = c_lists c"
    "c_seen_cr c' = c_seen_cr c"
  using assms [unfolded same_but_input_def no_input_def, THEN arg_cong, of c_state]
    assms [unfolded same_but_input_def no_input_def, THEN arg_cong, of c_last_state]
    assms [unfolded same_but_input_def no_input_def, THEN arg_cong, of c_closed]
    assms [unfolded same_but_input_def no_input_def, THEN arg_cong, of c_w]
    assms [unfolded same_but_input_def no_input_def, THEN arg_cong, of c_r]
    assms [unfolded same_but_input_def no_input_def, THEN arg_cong, of c_black]
    assms [unfolded same_but_input_def no_input_def, THEN arg_cong, of c_reserved_src]
    assms [unfolded same_but_input_def no_input_def, THEN arg_cong, of c_src]
    assms [unfolded same_but_input_def no_input_def, THEN arg_cong, of c_src_addr]
    assms [unfolded same_but_input_def no_input_def, THEN arg_cong, of c_out]
    assms [unfolded same_but_input_def no_input_def, THEN arg_cong, of c_out_pos]
    assms [unfolded same_but_input_def no_input_def, THEN arg_cong, of c_lists]
    assms [unfolded same_but_input_def no_input_def, THEN arg_cong, of c_seen_cr]
  by simp_all

lemma read_chunk_progress:
  "read_chunk n sh c = (True, sh', c') \<Longrightarrow> sh' = sh \<and> same_but_input c c' \<and> input_left c' < input_left c"
  "read_chunk n sh c = (False, s) \<Longrightarrow> \<exists>c1. same_but_input c c1 \<and> s = close_conn sh c1"
proof -
  show "read_chunk n sh c = (True, sh', c') \<Longrightarrow> sh' = sh \<and> same_but_input c c' \<and> input_left c' < input_left c"
    by (auto simp: read_chunk_def Let_def input_left_def split: list.splits if_splits)
  assume r: "read_chunk n sh c = (False, s)"
  show "\<exists>c1. same_but_input c c1 \<and> s = close_conn sh c1"
  proof (cases "rw_input (c_rw c)")
    case Nil
    then show ?thesis using r by (intro exI [of _ c]) (simp add: read_chunk_def)
  next
    case (Cons x xs)
    then show ?thesis using r
      by (intro exI [of _ "c\<lparr>c_in := c_in c @ take n x,
          c_rw := (c_rw c)\<lparr>rw_input := (if drop n x = [] then xs else drop n x # xs)\<rparr>\<rparr>"])
        (simp add: read_chunk_def Let_def split: if_splits)
  qed
qed

lemma read_line_progress:
  "read_line_loop limit sh c = (ok, s) \<Longrightarrow> if ok then fst s = sh \<and> same_but_input c (snd s) \<and> input_left (snd s) \<le> input_left c \<and>
     (length (c_in c) < limit \<longrightarrow> input_left (snd s) < input_left c) else \<exists>c1. same_but_input c c1 \<and> s = close_conn sh c1"
proof (induction limit sh c arbitrary: s rule: read_line_loop.induct)
  case (1 limit sh c)
  show ?case
  proof (cases "length (c_in c) < limit")
    case True
    obtain ok' sh' c' where r: "read_chunk (limit - length (c_in c)) sh c = (ok', sh', c')" using prod_cases3 by blast
    show ?thesis
    proof (cases "ok' \<and> nl \<notin> set (drop (length (c_in c)) (c_in c'))")
      case again: True
      then have l: "read_line_loop limit sh' c' = (ok, s)"
        using "1.prems" True r by (simp add: read_line_loop.simps [of limit sh c])
      have ih: "if ok then fst s = sh' \<and> same_but_input c' (snd s) \<and> input_left (snd s) \<le> input_left c' \<and>
          (length (c_in c') < limit \<longrightarrow> input_left (snd s) < input_left c') else \<exists>c1. same_but_input c' c1 \<and> s = close_conn sh' c1"
        by (rule "1.IH" [OF True r [symmetric] _ refl]) (use again l in auto)
      have p: "sh' = sh" "same_but_input c c'" "input_left c' < input_left c"
        using read_chunk_progress(1) [of _ sh c sh' c'] r again by auto
      show ?thesis using ih p(1,3) same_but_input_trans [OF p(2)] by (cases ok) auto
    next
      case False
      then show ?thesis using "1.prems" True r read_chunk_progress [of "limit - length (c_in c)" sh c]
        by (cases ok') (auto simp: read_line_loop.simps [of limit sh c] split: if_splits)
    qed
  next
    case False
    then show ?thesis using "1.prems" by (auto simp: read_line_loop.simps [of limit sh c])
  qed
qed

lemma read_while_progress:
  "read_while p n sh c = (ok, s) \<Longrightarrow> if ok then fst s = sh \<and> same_but_input c (snd s) \<and> input_left (snd s) \<le> input_left c \<and>
     (length (c_in c) < n \<and> p (c_in c) \<longrightarrow> input_left (snd s) < input_left c) else \<exists>c1. same_but_input c c1 \<and> s = close_conn sh c1"
proof (induction p n sh c arbitrary: s rule: read_while.induct)
  case (1 p n sh c)
  show ?case
  proof (cases "length (c_in c) < n \<and> p (c_in c)")
    case True
    obtain ok' sh' c' where r: "read_chunk (n - length (c_in c)) sh c = (ok', sh', c')" using prod_cases3 by blast
    show ?thesis
    proof (cases ok')
      case again: True
      then have l: "read_while p n sh' c' = (ok, s)" using "1.prems" True r by (simp add: read_while.simps [of p n sh c])
      have ih: "if ok then fst s = sh' \<and> same_but_input c' (snd s) \<and> input_left (snd s) \<le> input_left c' \<and>
          (length (c_in c') < n \<and> p (c_in c') \<longrightarrow> input_left (snd s) < input_left c') else \<exists>c1. same_but_input c' c1 \<and> s = close_conn sh' c1"
        by (rule "1.IH" [OF True r [symmetric] _ refl]) (use again l in auto)
      have p: "sh' = sh" "same_but_input c c'" "input_left c' < input_left c"
        using read_chunk_progress(1) [of _ sh c sh' c'] r again by auto
      show ?thesis using ih p(1,3) same_but_input_trans [OF p(2)] by (cases ok) auto
    next
      case False
      then show ?thesis using "1.prems" True r read_chunk_progress(2) [of "n - length (c_in c)" sh c]
        by (auto simp: read_while.simps [of p n sh c])
    qed
  next
    case False
    then show ?thesis using "1.prems" by (auto simp: read_while.simps [of p n sh c])
  qed
qed

definition progressed :: "conn \<Rightarrow> conn_state \<Rightarrow> bool" where
  "progressed c s \<longleftrightarrow> flow_ok (snd s) \<and> (c_closed (snd s) \<or> input_left (snd s) < input_left c)"

lemma closed_progress: "\<exists>c1. same_but_input c' c1 \<and> s = close_conn sh c1 \<Longrightarrow> progressed c s"
  by (auto simp: progressed_def flow_ok_def)

lemma close_conn_progress: "progressed c (close_conn sh c')"
  by (simp add: progressed_def flow_ok_def)

lemma reads_same: "same_but_input c c' \<Longrightarrow> reads (c'\<lparr>c_proxy_v2 := p, c_in_buf := b, c_r := r\<rparr>) = reads c"
  using same_but_input_fields(1,2) [of c c'] by (simp add: reads_def)

lemma next_state_progress:
  assumes c: "\<not> c_closed c" "\<not> c_w c" "reads c" and c': "same_but_input c c'" "input_left c' < input_left c"
  shows "progressed c (next_state cfg dp now sh (c'\<lparr>c_proxy_v2 := p, c_in_buf := b, c_r := False\<rparr>))"
proof -
  let ?c = "c'\<lparr>c_proxy_v2 := p, c_in_buf := b, c_r := False\<rparr>"
  have "\<not> c_closed ?c" "\<not> c_w ?c" "\<not> c_r ?c" "reads ?c" "c_rw ?c = c_rw c'"
    using c same_but_input_fields(3,4) [OF c'(1)] reads_same [OF c'(1)] by simp_all
  from next_state_after_read [OF this(1-4), of cfg dp now sh] c'(2) this(5) show ?thesis
    by (simp add: kept_def progressed_def input_left_def)
qed

lemma finish_line_progress:
  assumes "\<not> c_closed c" "\<not> c_w c" "reads c" "same_but_input c c'" "input_left c' < input_left c"
  shows "progressed c (finish_line cfg dp now sh c')"
  using next_state_progress [OF assms, where p = "c_proxy_v2 c'" and b = "strip_line (c_in c')"]
  by (simp add: finish_line_def)

lemma read_v1_progress:
  assumes "\<not> c_closed c" "\<not> c_w c" "reads c" "same_but_input c c'" "input_left c' < input_left c"
  shows "progressed c (read_v1 cfg dp now sh c')"
proof -
  obtain ok sh1 c1 where r: "read_while (\<lambda>s. nl \<notin> set s) (min (line_limit cfg) max_proxy_header) sh c' = (ok, sh1, c1)"
    by (rule prod_cases3)
  note p = read_while_progress [OF r, simplified]
  show ?thesis
  proof (cases ok)
    case True
    let ?c = "if nl \<in> set (c_in c1) then c1 else c1\<lparr>c_in := ''PROXY OVERLONG''\<rparr>"
    have "same_but_input c c1" "input_left c1 < input_left c"
      using p True assms(5) same_but_input_trans [OF assms(4)] by auto
    then have "same_but_input c ?c" "input_left ?c < input_left c" by (auto simp: input_left_def)
    from finish_line_progress [OF assms(1-3) this] show ?thesis using True r by (simp add: read_v1_def)
  next
    case False
    then show ?thesis using p r closed_progress by (simp add: read_v1_def)
  qed
qed

lemma read_v2_progress:
  assumes "\<not> c_closed c" "\<not> c_w c" "reads c" "same_but_input c c'" "input_left c' < input_left c"
  shows "progressed c (read_v2 cfg dp now sh c')"
proof -
  obtain ok sh1 c1 where r: "read_while (\<lambda>_. True) proxy_v2_header_len sh c' = (ok, sh1, c1)" by (rule prod_cases3)
  note p = read_while_progress [OF r, simplified]
  show ?thesis
  proof (cases ok)
    case True
    let ?n = "proxy_v2_header_len + declared_length (c_in c1)"
    have s: "same_but_input c c1" "input_left c1 < input_left c"
      using p True assms(5) same_but_input_trans [OF assms(4)] by auto
    obtain ok2 sh2 c2 where r2: "read_while (\<lambda>_. True) ?n sh1 c1 = (ok2, sh2, c2)" by (rule prod_cases3)
    note p2 = read_while_progress [OF r2, simplified]
    have "progressed c (next_state cfg dp now sh2 (c2\<lparr>c_proxy_v2 := Some (c_in c2), c_in_buf := [], c_r := False\<rparr>))" if ok2
      using that p2 s same_but_input_trans [OF s(1)] by (intro next_state_progress [OF assms(1-3)]) auto
    then show ?thesis using True r r2 p2 closed_progress close_conn_progress by (cases ok2) (simp_all add: read_v2_def Let_def)
  next
    case False
    then show ?thesis using p r closed_progress by (simp add: read_v2_def)
  qed
qed

lemma line_limit_pos: "0 < line_limit cfg" by (simp add: line_limit_def buf_size_def)

lemma handle_read_progress:
  assumes "flow_ok c" "\<not> c_closed c" "c_r c"
  shows "progressed c (handle_read cfg dp now sh c)"
proof -
  have c: "\<not> c_w c" "reads c" "c_in c = []" using assms by (auto simp: flow_ok_def)
  show ?thesis
  proof (cases "c_state c = StateProxyOut")
    case True
    obtain ok sh1 c1 where r: "read_while (has_prefix proxy_v2_signature) (length proxy_v2_signature) sh c = (ok, sh1, c1)"
      by (rule prod_cases3)
    note p = read_while_progress [OF r, simplified]
    have "ok \<Longrightarrow> same_but_input c c1 \<and> input_left c1 < input_left c" using p c(3) by (simp add: has_prefix_def)
    then show ?thesis
      using True assms p r closed_progress read_v1_progress [OF assms(2) c(1,2), of c1] read_v2_progress [OF assms(2) c(1,2), of c1]
      by (cases ok) (simp_all add: handle_read_def read_proxy_header_def)
  next
    case False
    obtain ok sh1 c1 where r: "read_line_loop (line_limit cfg) sh c = (ok, sh1, c1)" by (rule prod_cases3)
    note p = read_line_progress [OF r, simplified]
    show ?thesis using False assms p r c(3) line_limit_pos [of cfg] closed_progress finish_line_progress [OF assms(2) c(1,2), of c1]
      by (cases ok) (simp_all add: handle_read_def)
  qed
qed

lemma stop_stutter_same [simp]:
  "c_state (stop_stutter cfg now c) = c_state c" "c_r (stop_stutter cfg now c) = c_r c" "c_w (stop_stutter cfg now c) = c_w c"
  "c_closed (stop_stutter cfg now c) = c_closed c" "c_in_buf (stop_stutter cfg now c) = c_in_buf c"
  "c_rw (stop_stutter cfg now c) = c_rw c" "c_out (stop_stutter cfg now c) = c_out c"
  "c_out_pos (stop_stutter cfg now c) = c_out_pos c" "c_black (stop_stutter cfg now c) = c_black c"
  "c_reserved_src (stop_stutter cfg now c) = c_reserved_src c" "out_remaining (stop_stutter cfg now c) = out_remaining c"
  "c_seen_cr (stop_stutter cfg now c) = c_seen_cr c" "c_src_addr (stop_stutter cfg now c) = c_src_addr c"
  "c_src (stop_stutter cfg now c) = c_src c" "c_lists (stop_stutter cfg now c) = c_lists c"
  by (simp_all add: stop_stutter_def out_remaining_def)

lemma write_rw_input: "write_rw s w = Some w' \<Longrightarrow> rw_input w' = rw_input w \<and> rw_sent w' = rw_sent w @ s"
  by (auto simp: write_rw_def split: option.splits nat.splits)

lemma write_out_same:
  assumes "write_out sh c = (ok, c1)"
  shows "\<exists>cr' w p. c1 = c\<lparr>c_seen_cr := cr', c_rw := w, c_out_pos := p\<rparr> \<and> rw_input w = rw_input (c_rw c) \<and>
     (ok \<longrightarrow> p = c_out_pos c + to_write sh c)"
proof -
  let ?b = "c_out c ! c_out_pos c"
  have id: "c = c\<lparr>c_seen_cr := c_seen_cr c, c_rw := c_rw c, c_out_pos := c_out_pos c\<rparr>" by simp
  show ?thesis
  proof (cases "if ?b = nl \<and> \<not> c_seen_cr c then write_rw [cr] (c_rw c) else Some (c_rw c)")
    case None
    then show ?thesis using assms by (intro exI [of _ "c_seen_cr c"] exI [of _ "c_rw c"] exI [of _ "c_out_pos c"]) (simp add: write_out_def)
  next
    case (Some w1)
    have w1: "rw_input w1 = rw_input (c_rw c)" using Some write_rw_input by (auto split: if_splits)
    show ?thesis
    proof (cases "write_rw (take (to_write sh c) (drop (c_out_pos c) (c_out c))) w1")
      case None
      then have "c1 = c\<lparr>c_seen_cr := (?b = cr), c_rw := w1, c_out_pos := c_out_pos c\<rparr>" "\<not> ok"
        using assms Some by (auto simp: write_out_def Let_def)
      with w1 show ?thesis by blast
    next
      case w2: (Some w2)
      then have "c1 = c\<lparr>c_seen_cr := (?b = cr), c_rw := w2, c_out_pos := c_out_pos c + to_write sh c\<rparr>"
        using assms Some by (simp add: write_out_def Let_def)
      with w1 write_rw_input [OF w2] show ?thesis by auto
    qed
  qed
qed

lemma to_write_bounds: "0 < out_remaining c \<Longrightarrow> 0 < to_write sh c \<and> to_write sh c \<le> out_remaining c"
  by (simp add: to_write_def)

text \<open>A write that does not close the connection sends some of the queued bytes.\<close>

lemma handle_write_progress:
  assumes "flow_ok c" "\<not> c_closed c" "c_w c"
  shows "flow_ok (snd (handle_write cfg dp now sh c)) \<and>
     (c_closed (snd (handle_write cfg dp now sh c)) \<or>
      input_left (snd (handle_write cfg dp now sh c)) = input_left c \<and>
      (c_r (snd (handle_write cfg dp now sh c)) \<or> out_remaining (snd (handle_write cfg dp now sh c)) < out_remaining c))"
proof -
  let ?c = "stop_stutter cfg now c"
  have c: "\<not> c_r c" "writes c" using assms by (auto simp: flow_ok_def)
  obtain ok c1 where w: "(if 0 < out_remaining ?c then write_out sh ?c else (True, ?c)) = (ok, c1)" by (rule prod.exhaust)
  obtain cr' v p where c1: "c1 = ?c\<lparr>c_seen_cr := cr', c_rw := v, c_out_pos := p\<rparr>" "rw_input v = rw_input (c_rw c)"
    "ok \<Longrightarrow> 0 < out_remaining c \<Longrightarrow> p = c_out_pos c + to_write sh ?c"
  proof (cases "0 < out_remaining c")
    case True
    then show ?thesis using that write_out_same [of sh ?c ok c1] w by auto
  next
    case False
    then have "c1 = ?c\<lparr>c_seen_cr := c_seen_cr ?c, c_rw := c_rw ?c, c_out_pos := c_out_pos ?c\<rparr>" using w by simp
    with False show ?thesis by (intro that) simp_all
  qed
  have same: "\<not> c_closed c1" "\<not> c_r c1" "c_w c1" "writes c1" "input_left c1 = input_left c"
    using assms c c1 by (simp_all add: writes_def quiet_def input_left_def)
  have less: "out_remaining c1 < out_remaining c" if "ok" "0 < out_remaining c1"
  proof -
    have "0 < out_remaining c" using that(2) w by (cases "0 < out_remaining c") auto
    then show ?thesis using c1(3) [OF that(1)] to_write_bounds [of ?c sh] c1(1) that(2) by (auto simp: out_remaining_def)
  qed
  have h: "handle_write cfg dp now sh c =
      (if \<not> ok then close_conn sh c1 else if out_remaining c1 = 0 then next_state cfg dp now sh (c1\<lparr>c_w := False\<rparr>) else (sh, c1))"
    using assms w by (simp add: handle_write_def)
  have n: "c_closed (snd (next_state cfg dp now sh (c1\<lparr>c_w := False\<rparr>))) \<or>
      c_r (snd (next_state cfg dp now sh (c1\<lparr>c_w := False\<rparr>))) \<and> kept (c1\<lparr>c_w := False\<rparr>) (next_state cfg dp now sh (c1\<lparr>c_w := False\<rparr>))"
    by (rule next_state_after_write) (use same in \<open>simp_all add: writes_def quiet_def\<close>)
  show ?thesis
  proof (cases "ok \<and> out_remaining c1 = 0")
    case True
    then show ?thesis using h n same(5) by (auto simp: kept_def flow_ok_def input_left_def)
  next
    case False
    then show ?thesis using h less same by (auto simp: flow_ok_def)
  qed
qed

lemma new_conn_flow: "flow_ok (snd (new_conn cfg dp now sh w src local))"
proof -
  have nm: "\<not> match [] ''QUIT''" "\<not> match [] ''RSET''" by (simp_all add: match_def)
  show ?thesis
    by (auto simp: new_conn_def initial_conn_def match_blacklists_def mark_black_def Let_def next_state_def quits_def resets_def
        nm dispatch_def state_banner_in_def moves flow_ok_def writes_def reads_def quiet_def)
qed

lemma serve_step_progress:
  assumes "flow_ok c" "\<not> c_closed c"
  shows "flow_ok (snd (serve_step cfg dp now sh c)) \<and>
     (snd (serve_step cfg dp now sh c), c) \<in>
       measures [\<lambda>c. if c_closed c then 0 else 1, input_left, \<lambda>c. if c_r c then 0 else 1, out_remaining]"
proof (cases "c_w c")
  case True
  then have "\<not> c_r c" using assms by (simp add: flow_ok_def)
  with True show ?thesis using handle_write_progress [OF assms True, of cfg dp now sh] assms(2) by (auto simp: serve_step_def)
next
  case False
  then have r: "c_r c" using assms by (simp add: flow_ok_def)
  with False show ?thesis using handle_read_progress [OF assms r, of cfg dp now sh] assms(2)
    by (auto simp: serve_step_def progressed_def)
qed

lemma serve_ends:
  assumes "flow_ok c"
  shows "\<exists>n s. serve cfg dp clock (k, sh, c) = Some (n, s) \<and> c_closed (snd s)"
proof -
  let ?P = "\<lambda>s :: nat \<times> conn_state. flow_ok (snd (snd s))"
  let ?b = "\<lambda>s :: nat \<times> conn_state. \<not> c_closed (snd (snd s))"
  let ?r = "measures [\<lambda>c. if c_closed c then 0 else 1, input_left, \<lambda>c. if c_r c then 0 else 1, out_remaining]"
  have "wf (inv_image ?r (\<lambda>s :: nat \<times> conn_state. snd (snd s)))" by simp
  then have wf: "wf {(t, s). (?P s \<and> ?b s) \<and> t = serve_body cfg dp clock s}"
    by (rule wf_subset) (use serve_step_progress in \<open>auto simp: serve_body_def simp del: in_measures\<close>)
  have "\<exists>t. while_option ?b (serve_body cfg dp clock) (k, sh, c) = Some t"
    by (rule wf_while_option_Some [OF wf]) (use assms serve_step_progress in \<open>auto simp: serve_body_def\<close>)
  then obtain t where t: "while_option ?b (serve_body cfg dp clock) (k, sh, c) = Some t" by blast
  moreover have "c_closed (snd (snd t))" using while_option_stop [OF t] by simp
  ultimately show ?thesis by (cases t) (auto simp: serve_def)
qed

subsection \<open>An example\<close>

text \<open>A configuration for the examples.\<close>

definition example_config :: config where
  "example_config =
     \<lparr>cf_hostname = ''mx.example.net'', cf_banner = ''greyd'', cf_error_code = ''450'', cf_greylist = True,
      cf_grey_stutter = 10, cf_stutter = 0, cf_verbose = False, cf_window = 0, cf_proxy_protocol = False,
      cf_permitted_proxies = None, cf_max_line_length = 64, cf_max_cons_per_source = 0\<rparr>"

definition example_deps :: deps where
  "example_deps = \<lparr>dp_grey_out = True, dp_orig_dst = None, dp_date = (\<lambda>_. ''now'')\<rparr>"

definition example_shared :: shared where
  "example_shared = \<lparr>sh_counters = new_counters 800 700, sh_blacklists = Some [], sh_grey = [], sh_grey_ok = True\<rparr>"

end
