(* ===== verification/Smtp_Dialogue.thy ===== *)
theory Smtp_Dialogue
  imports Smtp_Session
begin

text \<open>
  What a client can observe of a connection and what the connection reports: the bytes that are
  sent, the answers after the DATA command, the addresses taken from a proxy, and the tuples sent
  to the greylister.
\<close>

subsection \<open>The shape of a step\<close>

text \<open>The part of a connection that reading and writing leave alone.\<close>

definition core :: "conn \<Rightarrow> conn" where
  "core c = (no_input c)\<lparr>c_out_pos := 0, c_seen_cr := False, c_stutter := 0, c_r := False, c_w := False,
     c_in_buf := [], c_proxy_v2 := None\<rparr>"

lemma core_updates [simp]:
  "core (c\<lparr>c_in := i\<rparr>) = core c" "core (c\<lparr>c_rw := w\<rparr>) = core c" "core (c\<lparr>c_out_pos := n\<rparr>) = core c"
  "core (c\<lparr>c_seen_cr := b\<rparr>) = core c" "core (c\<lparr>c_stutter := k\<rparr>) = core c" "core (c\<lparr>c_r := b\<rparr>) = core c"
  "core (c\<lparr>c_w := b\<rparr>) = core c" "core (c\<lparr>c_in_buf := s\<rparr>) = core c" "core (c\<lparr>c_proxy_v2 := p\<rparr>) = core c"
  by (simp_all add: core_def no_input_def)

lemma core_fields:
  assumes "core c' = core c"
  shows "c_state c' = c_state c" "c_last_state c' = c_last_state c" "c_src c' = c_src c" "c_reserved_src c' = c_reserved_src c"
    "c_src_addr c' = c_src_addr c" "c_out c' = c_out c" "c_closed c' = c_closed c" "c_black c' = c_black c"
    "c_mail c' = c_mail c" "c_lists c' = c_lists c" "c_helo c' = c_helo c" "c_rcpt c' = c_rcpt c" "c_dst_addr c' = c_dst_addr c"
  using assms [THEN arg_cong, of c_state] assms [THEN arg_cong, of c_last_state] assms [THEN arg_cong, of c_src]
    assms [THEN arg_cong, of c_reserved_src] assms [THEN arg_cong, of c_src_addr] assms [THEN arg_cong, of c_out]
    assms [THEN arg_cong, of c_closed] assms [THEN arg_cong, of c_black] assms [THEN arg_cong, of c_mail]
    assms [THEN arg_cong, of c_lists] assms [THEN arg_cong, of c_helo] assms [THEN arg_cong, of c_rcpt]
    assms [THEN arg_cong, of c_dst_addr]
  by (simp_all add: core_def no_input_def)

lemma core_same: "same_but_input c c' \<Longrightarrow> core c' = core c"
  by (simp add: same_but_input_def core_def)

lemma core_stop_stutter [simp]: "core (stop_stutter cfg now c) = core c"
  by (simp add: stop_stutter_def)

text \<open>
  A step closes the connection, or writes a part of the reply, or goes to the next state after
  the reply or after some input. The input handed to the state machine has no NUL.
\<close>

definition closes :: "shared \<Rightarrow> conn \<Rightarrow> conn_state \<Rightarrow> bool" where
  "closes sh c s \<longleftrightarrow> (\<exists>c1. core c1 = core c \<and> s = close_conn sh c1)"

definition advances :: "config \<Rightarrow> deps \<Rightarrow> int \<Rightarrow> shared \<Rightarrow> conn \<Rightarrow> conn_state \<Rightarrow> bool" where
  "advances cfg dp now sh c s \<longleftrightarrow> (\<exists>c1. core c1 = core c \<and> \<not> c_w c1 \<and> \<not> c_r c1 \<and> CHR 0x00 \<notin> set (c_in_buf c1) \<and>
     s = next_state cfg dp now sh c1)"

lemma closes_same: "\<exists>c1. same_but_input c' c1 \<and> s = close_conn sh c1 \<Longrightarrow> core c' = core c \<Longrightarrow> closes sh c s"
  unfolding closes_def using core_same by metis

lemma strip_line_subset: "set (strip_line s) \<subseteq> set s - {CHR 0x00}"
proof -
  have "set (rev (dropWhile p (rev t))) \<subseteq> set t" for p and t :: string using set_dropWhileD by fastforce
  moreover have "set (case index_byte s (CHR 0x00) of None \<Rightarrow> s | Some i \<Rightarrow> take i s) \<subseteq> set s - {CHR 0x00}"
  proof (cases "index_byte s (CHR 0x00)")
    case None
    then show ?thesis using index_byte_None [of s "CHR 0x00"] unfolding None by auto
  next
    case (Some i)
    then show ?thesis using index_byte_Some [OF Some] set_take_subset [of i s] by auto
  qed
  ultimately show ?thesis unfolding strip_line_def Let_def by (meson order_trans)
qed

lemma finish_line_advances: "core c' = core c \<Longrightarrow> \<not> c_w c' \<Longrightarrow> advances cfg dp now sh c (finish_line cfg dp now sh c')"
  unfolding advances_def finish_line_def
  using strip_line_subset by (intro exI [of _ "c'\<lparr>c_in_buf := strip_line (c_in c'), c_r := False\<rparr>"]) auto

lemma read_v1_shape:
  assumes "core c' = core c" "\<not> c_w c'"
  shows "closes sh c (read_v1 cfg dp now sh c') \<or> advances cfg dp now sh c (read_v1 cfg dp now sh c')"
proof -
  obtain ok sh1 c1 where r: "read_while (\<lambda>s. nl \<notin> set s) (min (line_limit cfg) max_proxy_header) sh c' = (ok, sh1, c1)"
    by (rule prod_cases3)
  note p = read_while_progress [OF r, simplified]
  show ?thesis
  proof (cases ok)
    case True
    let ?c = "if nl \<in> set (c_in c1) then c1 else c1\<lparr>c_in := ''PROXY OVERLONG''\<rparr>"
    have "core ?c = core c" "\<not> c_w ?c" "sh1 = sh"
      using p True assms core_same [of c' c1] same_but_input_fields(4) [of c' c1] by auto
    then show ?thesis using True r finish_line_advances [of ?c c cfg dp now sh] by (simp add: read_v1_def)
  next
    case False
    then show ?thesis using p r closes_same [OF _ assms(1), of "(sh1, c1)" sh] by (simp add: read_v1_def)
  qed
qed

lemma read_v2_shape:
  assumes "core c' = core c" "\<not> c_w c'"
  shows "closes sh c (read_v2 cfg dp now sh c') \<or> advances cfg dp now sh c (read_v2 cfg dp now sh c')"
proof -
  obtain ok sh1 c1 where r: "read_while (\<lambda>_. True) proxy_v2_header_len sh c' = (ok, sh1, c1)" by (rule prod_cases3)
  note p = read_while_progress [OF r, simplified]
  show ?thesis
  proof (cases ok)
    case True
    let ?n = "proxy_v2_header_len + declared_length (c_in c1)"
    have c1: "core c1 = core c" "\<not> c_w c1" "sh1 = sh"
      using p True assms core_same [of c' c1] same_but_input_fields(4) [of c' c1] by auto
    obtain ok2 sh2 c2 where r2: "read_while (\<lambda>_. True) ?n sh1 c1 = (ok2, sh2, c2)" by (rule prod_cases3)
    note p2 = read_while_progress [OF r2, simplified]
    have "advances cfg dp now sh c (next_state cfg dp now sh2 (c2\<lparr>c_proxy_v2 := Some (c_in c2), c_in_buf := [], c_r := False\<rparr>))" if ok2
      unfolding advances_def using that p2 c1 core_same [of c1 c2] same_but_input_fields(4) [of c1 c2] by (intro exI conjI) auto
    moreover have "closes sh c (sh2, c2)" if "\<not> ok2" using that p2 c1 closes_same [of c1 "(sh2, c2)" sh c] by auto
    moreover have "closes sh c (close_conn sh1 c1)" using c1 by (auto simp: closes_def)
    ultimately show ?thesis using True r r2 by (cases ok2) (simp_all add: read_v2_def Let_def)
  next
    case False
    then show ?thesis using p r closes_same [OF _ assms(1), of "(sh1, c1)" sh] by (simp add: read_v2_def)
  qed
qed

lemma handle_read_shape:
  assumes "\<not> c_closed c" "c_r c" "\<not> c_w c"
  shows "closes sh c (handle_read cfg dp now sh c) \<or> advances cfg dp now sh c (handle_read cfg dp now sh c)"
proof (cases "c_state c = StateProxyOut")
  case True
  obtain ok sh1 c1 where r: "read_while (has_prefix proxy_v2_signature) (length proxy_v2_signature) sh c = (ok, sh1, c1)"
    by (rule prod_cases3)
  note p = read_while_progress [OF r, simplified]
  have h: "handle_read cfg dp now sh c = (if ok then if has_prefix (c_in c1) proxy_v2_signature then read_v2 cfg dp now sh1 c1
      else read_v1 cfg dp now sh1 c1 else (sh1, c1))"
    using True assms r by (simp add: handle_read_def read_proxy_header_def)
  show ?thesis
  proof (cases ok)
    case True
    then have "core c1 = core c" "\<not> c_w c1" "sh1 = sh"
      using p assms core_same [of c c1] same_but_input_fields(4) [of c c1] by auto
    then show ?thesis using True read_v1_shape [of c1 c sh cfg dp now] read_v2_shape [of c1 c sh cfg dp now] by (simp add: h)
  next
    case False
    then show ?thesis using p closes_same [of c "(sh1, c1)" sh c] by (simp add: h)
  qed
next
  case False
  obtain ok sh1 c1 where r: "read_line_loop (line_limit cfg) sh c = (ok, sh1, c1)" by (rule prod_cases3)
  note p = read_line_progress [OF r, simplified]
  have h: "handle_read cfg dp now sh c = (if ok then finish_line cfg dp now sh1 c1 else (sh1, c1))"
    using False assms r by (simp add: handle_read_def)
  show ?thesis using p h assms core_same [of c c1] same_but_input_fields(4) [of c c1]
      finish_line_advances [of c1 c cfg dp now sh] closes_same [of c "(sh1, c1)" sh c] by (cases ok) auto
qed

definition after_write :: "config \<Rightarrow> deps \<Rightarrow> int \<Rightarrow> shared \<Rightarrow> conn \<Rightarrow> conn_state \<Rightarrow> bool" where
  "after_write cfg dp now sh c s \<longleftrightarrow>
     (\<exists>c1. core c1 = core c \<and> c_in_buf c1 = c_in_buf c \<and> c_r c1 = c_r c \<and>
        (s = (sh, c1) \<and> c_w c1 \<or> s = next_state cfg dp now sh (c1\<lparr>c_w := False\<rparr>)))"

lemma handle_write_shape:
  assumes "\<not> c_closed c" "c_w c"
  shows "closes sh c (handle_write cfg dp now sh c) \<or> after_write cfg dp now sh c (handle_write cfg dp now sh c)"
proof -
  let ?c = "stop_stutter cfg now c"
  obtain ok c1 where w: "(if 0 < out_remaining ?c then write_out sh ?c else (True, ?c)) = (ok, c1)" by (rule prod.exhaust)
  have c1: "core c1 = core c" "c_in_buf c1 = c_in_buf c" "c_r c1 = c_r c" "c_w c1"
    using w write_out_same [of sh ?c ok c1] assms by (auto split: if_splits)
  have "handle_write cfg dp now sh c =
      (if \<not> ok then close_conn sh c1 else if out_remaining c1 = 0 then next_state cfg dp now sh (c1\<lparr>c_w := False\<rparr>) else (sh, c1))"
    using assms w by (simp add: handle_write_def)
  then show ?thesis using c1 unfolding closes_def after_write_def by (cases ok; cases "out_remaining c1 = 0") auto
qed

subsection \<open>Sessions\<close>

text \<open>
  The states of one connection, while other connections and the daemon change the shared state
  between its steps in any way.
\<close>

inductive session :: "config \<Rightarrow> deps \<Rightarrow> conn \<Rightarrow> bool" for cfg :: config and dp :: deps where
  start: "session cfg dp (snd (new_conn cfg dp now sh w src local))"
| step: "session cfg dp c \<Longrightarrow> \<not> c_closed c \<Longrightarrow> session cfg dp (snd (serve_step cfg dp now sh c))"

lemma session_flow: "session cfg dp c \<Longrightarrow> flow_ok c"
  by (induction rule: session.induct) (use new_conn_flow serve_step_progress in blast)+

definition goodbye :: "config \<Rightarrow> string" where
  "goodbye cfg = ''221 '' @ cf_hostname cfg @ crnl"

text \<open>The last words of the server: good bye, or the rejection that the client is due.\<close>

definition final_reply :: "config \<Rightarrow> conn \<Rightarrow> bool" where
  "final_reply cfg c \<longleftrightarrow> c_out c = crlf (goodbye cfg) \<or>
     c_out c = crlf (if c_lists c \<noteq> [] then format_reply (c_lists c) (cf_error_code cfg) (c_src_addr c) else grey_reply)"

definition reply_inv :: "config \<Rightarrow> conn \<Rightarrow> bool" where
  "reply_inv cfg c \<longleftrightarrow> (c_w c \<longrightarrow>
     (c_state c = StateDataOut \<longrightarrow> c_out c = crlf data_reply) \<and> (c_state c = StateClose \<longrightarrow> final_reply cfg c))"

definition client_inv :: "config \<Rightarrow> conn \<Rightarrow> bool" where
  "client_inv cfg c \<longleftrightarrow>
     (c_black c \<longleftrightarrow> c_lists c \<noteq> []) \<and> (c_state c \<in> {StateProxyIn, StateProxyOut} \<longrightarrow> cf_proxy_protocol cfg) \<and>
     (c_src_addr c = addr_string (unmap (fst (c_src c))) \<and> c_reserved_src c = unmap (fst (c_src c)) \<or>
      cf_proxy_protocol cfg \<and> bl_match_ptr (cf_permitted_proxies cfg) (fst (c_src c)))"

definition sess_inv :: "config \<Rightarrow> conn \<Rightarrow> bool" where
  "sess_inv cfg c \<longleftrightarrow> c_closed c \<or> reply_inv cfg c \<and> client_inv cfg c"

lemmas invs = sess_inv_def reply_inv_def client_inv_def

lemma reply_sess: "client_inv cfg c \<Longrightarrow> sess_inv cfg (snd (state_reply cfg sh c))"
  by (auto simp: state_reply_def build_reply_def moves invs final_reply_def)

lemma client_inv_updates [simp]:
  "client_inv cfg (set_out s c) = client_inv cfg c" "client_inv cfg (set_read c) = client_inv cfg c"
  "client_inv cfg (c\<lparr>c_in := i\<rparr>) = client_inv cfg c" "client_inv cfg (c\<lparr>c_rcpt := s\<rparr>) = client_inv cfg c"
  "client_inv cfg (c\<lparr>c_mail := s\<rparr>) = client_inv cfg c" "client_inv cfg (c\<lparr>c_helo := s\<rparr>) = client_inv cfg c"
  "client_inv cfg (c\<lparr>c_bad_cmd := n\<rparr>) = client_inv cfg c" "client_inv cfg (c\<lparr>c_dst_addr := s\<rparr>) = client_inv cfg c"
  "client_inv cfg (c\<lparr>c_data_body := b, c_data_lines := n\<rparr>) = client_inv cfg c"
  "client_inv cfg (c\<lparr>c_w := b\<rparr>) = client_inv cfg c" "client_inv cfg (lookup_orig_dst cfg dp c) = client_inv cfg c"
  by (simp_all add: client_inv_def moves lookup_orig_dst_def)

lemma client_inv_state:
  "client_inv cfg c \<Longrightarrow> st \<notin> {StateProxyIn, StateProxyOut} \<Longrightarrow> client_inv cfg (c\<lparr>c_state := st\<rparr>)"
  "client_inv cfg c \<Longrightarrow> st \<notin> {StateProxyIn, StateProxyOut} \<Longrightarrow> client_inv cfg (go_to st c)"
  by (auto simp: client_inv_def moves)

lemma reply_inv_state: "c_state c \<notin> {StateDataOut, StateClose} \<Longrightarrow> reply_inv cfg c"
  by (simp add: reply_inv_def)

lemma moves_state [simp]:
  "c_state (set_out s c) = c_state c" "c_state (set_read c) = c_state c" "c_state (go_to st c) = st"
  "c_state (lookup_orig_dst cfg dp c) = c_state c"
  by (simp_all add: moves lookup_orig_dst_def)

lemma moves_fields [simp]:
  "c_black (set_out s c) = c_black c" "c_last_state (set_out s c) = c_last_state c" "c_out (set_out s c) = crlf s"
  "c_bad_cmd (set_out s c) = c_bad_cmd c"
  by (simp_all add: moves)

lemma data_in_sess:
  assumes "command_ok c" "client_inv cfg c"
  shows "sess_inv cfg (snd (state_data_in cfg sh c))"
proof -
  let ?d = "(set_out data_reply c)\<lparr>c_state := StateDataOut, c_in := []\<rparr>"
  let ?e = "(set_out (''500 Command unrecognized'' @ crnl) c)\<lparr>c_bad_cmd := c_bad_cmd c + 1\<rparr>"
  have last: "c_last_state c \<in> {StateBannerOut, StateHeloOut, StateMailOut, StateRcptOut}"
    using assms(1) by (auto simp: command_ok_def)
  have bk: "sess_inv cfg (x\<lparr>c_state := c_last_state c, c_in := []\<rparr>)" if "client_inv cfg x" for x
    using that last client_inv_state(1) [OF that, of "c_last_state c"] by (auto simp: sess_inv_def reply_inv_def)
  have d: "client_inv cfg ?d" using client_inv_state(1) [of cfg "set_out data_reply c" StateDataOut] assms(2) by simp
  have "sess_inv cfg ?d" using d by (simp add: sess_inv_def reply_inv_def)
  moreover have "sess_inv cfg (snd (state_reply cfg sh (go_to StateReply ?d)))"
    by (intro reply_sess client_inv_state(2) [OF d]) simp
  moreover have "sess_inv cfg (snd (state_reply cfg sh (go_to StateReply ?e)))"
    by (intro reply_sess client_inv_state(2)) (simp_all add: assms(2))
  moreover have "sess_inv cfg (?e\<lparr>c_state := c_last_state c, c_in := []\<rparr>)" by (rule bk) (simp add: assms(2))
  moreover have "sess_inv cfg ((set_out ok_reply c)\<lparr>c_state := c_last_state c, c_in := []\<rparr>)" by (rule bk) (simp add: assms(2))
  ultimately show ?thesis by (simp add: state_data_in_def Let_def)
qed

lemma rcpt_in_sess: "command_ok c \<Longrightarrow> client_inv cfg c \<Longrightarrow> sess_inv cfg (snd (state_rcpt_in cfg dp sh c))"
  using data_in_sess [of c cfg sh]
  by (auto simp: state_rcpt_in_def Let_def sess_inv_def client_inv_state reply_inv_state)

lemma mail_in_sess: "command_ok c \<Longrightarrow> client_inv cfg c \<Longrightarrow> sess_inv cfg (snd (state_mail_in cfg dp sh c))"
  using rcpt_in_sess [of c cfg dp sh]
  by (auto simp: state_mail_in_def sess_inv_def client_inv_state reply_inv_state)

lemma helo_in_sess: "command_ok c \<Longrightarrow> client_inv cfg c \<Longrightarrow> sess_inv cfg (snd (state_helo_in cfg dp sh c))"
  using mail_in_sess [of c cfg dp sh]
  by (auto simp: state_helo_in_def Let_def sess_inv_def client_inv_state reply_inv_state)

lemma banner_sess: "client_inv cfg c \<Longrightarrow> sess_inv cfg (snd (state_banner_in cfg dp now sh c))"
  by (auto simp: state_banner_in_def sess_inv_def client_inv_state reply_inv_state)

lemma message_sess:
  assumes "client_inv cfg c" "\<not> c_w c"
  shows "sess_inv cfg (snd (state_message cfg sh c))"
proof -
  obtain d b n where m: "message_loop (split_on nl (c_in_buf c)) (c_data_body c) (c_data_lines c) = (d, b, n)"
    by (rule prod_cases3)
  let ?c = "c\<lparr>c_data_body := b, c_data_lines := n\<rparr>"
  have "sess_inv cfg (snd (state_reply cfg sh (go_to StateReply ?c)))"
    by (intro reply_sess client_inv_state(2)) (simp_all add: assms(1))
  moreover have "sess_inv cfg (set_read ?c)" using assms by (simp add: sess_inv_def) (simp add: reply_inv_def set_read_def)
  ultimately show ?thesis by (simp add: state_message_def m Let_def)
qed

lemma apply_proxy_cases:
  assumes "apply_proxy_header cfg sh c = (ok, s)"
  shows "snd s = c\<lparr>c_proxy_v2 := None\<rparr> \<or>
     (\<exists>sh' c'. s = rematch_after_proxy cfg sh' c' \<and> c_src c' = c_src c \<and> c_state c' = c_state c \<and> allow_proxy cfg c)"
proof (cases "c_proxy_v2 c = None \<and> \<not> match (c_in_buf c) ''PROXY'' \<or> \<not> allow_proxy cfg c")
  case True
  then show ?thesis using assms by (auto simp: apply_proxy_header_def)
next
  case False
  then have h: "adopt_header cfg (header_of c) sh (c\<lparr>c_proxy_v2 := None\<rparr>) = (ok, s)" "allow_proxy cfg c"
    using assms by (auto simp: apply_proxy_header_def)
  show ?thesis
  proof (cases "header_of c")
    case (Inr x)
    then show ?thesis using h by (cases x) (auto simp: adopt_header_def intro!: exI)
  qed (use h in \<open>auto simp: adopt_header_def\<close>)
qed

lemma apply_proxy_client:
  assumes "client_inv cfg c" "c_state c = StateProxyOut" "apply_proxy_header cfg sh c = (ok, s)"
  shows "client_inv cfg (snd s)"
proof -
  have pp: "cf_proxy_protocol cfg" using assms(1,2) by (simp add: client_inv_def)
  have r: "client_inv cfg (snd (rematch_after_proxy cfg sh' c'))"
    if "bl_match_ptr (cf_permitted_proxies cfg) (fst (c_src c'))" for sh' c'
    using that pp by (simp add: rematch_after_proxy_def match_blacklists_def Let_def client_inv_def)
  then show ?thesis using apply_proxy_cases [OF assms(3)] assms(1) by (auto simp: allow_proxy_def) (simp add: client_inv_def)
qed

lemma proxy_out_sess:
  assumes "client_inv cfg c" "c_state c = StateProxyOut"
  shows "sess_inv cfg (snd (state_proxy_out cfg dp now sh c))"
proof -
  obtain ok s where a: "apply_proxy_header cfg sh c = (ok, s)" by (rule prod.exhaust)
  show ?thesis using apply_proxy_client [OF assms a] banner_sess reply_sess by (cases s) (simp add: state_proxy_out_def a)
qed

lemma next_state_sess:
  assumes "\<not> c_w c" "\<not> c_r c" "reads c" "client_inv cfg c"
  shows "sess_inv cfg (snd (next_state cfg dp now sh c))"
proof -
  consider "c_closed c" | "\<not> c_closed c" "quits c" | "\<not> c_closed c" "\<not> quits c" "resets c"
    | "\<not> c_closed c" "\<not> quits c" "\<not> resets c" by blast
  then show ?thesis
  proof cases
    case 1
    then show ?thesis by (simp add: next_state_def sess_inv_def)
  next
    case 2
    then show ?thesis using assms(4)
      by (simp add: next_state_def sess_inv_def client_inv_state) (simp add: reply_inv_def moves final_reply_def goodbye_def)
  next
    case 3
    then show ?thesis using assms(4)
      by (simp add: next_state_def sess_inv_def client_inv_state) (simp add: reply_inv_def moves)
  next
    case 4
    then have n: "next_state cfg dp now sh c = dispatch cfg dp now sh c" by (simp add: next_state_def)
    have q: "\<not> match (c_in_buf c) ''QUIT''" using 4(2) assms(3) by (auto simp: quits_def reads_def state_order)
    have cmd: "command_ok c" if "c_state c \<in> {StateHeloIn, StateMailIn, StateRcptIn}"
      using that 4(3) q assms(2,3) by (auto simp: command_ok_def reads_def resets_def state_order)
    have "c_state c \<in> {StateProxyOut, StateMessage, StateHeloIn, StateMailIn, StateRcptIn}" using assms(3) by (auto simp: reads_def)
    then show ?thesis unfolding n dispatch_def
      using cmd helo_in_sess mail_in_sess rcpt_in_sess message_sess [OF assms(4,1)] proxy_out_sess [OF assms(4)] assms(4)
      by (elim insertE emptyE) simp_all
  qed
qed

lemma core_inv:
  assumes "core c' = core c"
  shows "client_inv cfg c' = client_inv cfg c" "reads c' = reads c" "final_reply cfg c' = final_reply cfg c"
  using core_fields [OF assms] by (simp_all add: client_inv_def reads_def final_reply_def)

lemma serve_step_sess:
  assumes c: "flow_ok c" "\<not> c_closed c" "sess_inv cfg c"
  shows "sess_inv cfg (snd (serve_step cfg dp now sh c))"
proof -
  have ci: "client_inv cfg c" "reply_inv cfg c" using c by (simp_all add: sess_inv_def)
  have closed: "closes sh c s \<Longrightarrow> sess_inv cfg (snd s)" for s by (auto simp: closes_def sess_inv_def)
  show ?thesis
  proof (cases "c_w c")
    case True
    then have w: "writes c" "\<not> c_r c" using c by (auto simp: flow_ok_def)
    have "sess_inv cfg (snd s)" if aw: "after_write cfg dp now sh c s" for s
    proof -
      from aw obtain c1 where c1: "core c1 = core c" "c_in_buf c1 = c_in_buf c" "c_r c1 = c_r c"
        "s = (sh, c1) \<and> c_w c1 \<or> s = next_state cfg dp now sh (c1\<lparr>c_w := False\<rparr>)" unfolding after_write_def by blast
      note f = core_fields [OF c1(1)] and i = core_inv [OF c1(1)]
      show ?thesis
      proof (cases "s = (sh, c1)")
        case True
        then show ?thesis using ci i f \<open>c_w c\<close> by (simp add: sess_inv_def reply_inv_def)
      next
        case False
        let ?c = "c1\<lparr>c_w := False\<rparr>"
        have "\<not> quits ?c" "\<not> resets ?c" using w f c1(2) by (auto simp: writes_def quiet_def quits_def resets_def)
        then have n: "s = dispatch cfg dp now sh ?c" using False c1(4) f(7) c(2) by (simp add: next_state_def)
        have "c_state ?c \<in> {StateBannerOut, StateHeloOut, StateMailOut, StateRcptOut, StateDataOut, StateClose}"
          using w(1) f by (simp add: writes_def)
        moreover have "client_inv cfg ?c" using ci(1) i(1) by simp
        ultimately show ?thesis unfolding n dispatch_def
          by (elim insertE emptyE) (simp_all add: sess_inv_def client_inv_state reply_inv_state)
      qed
    qed
    then show ?thesis using handle_write_shape [OF c(2) True, of sh cfg dp now] closed True unfolding serve_step_def by presburger
  next
    case False
    then have r: "c_r c" "reads c" using c by (auto simp: flow_ok_def)
    have "sess_inv cfg (snd s)" if ad: "advances cfg dp now sh c s" for s
    proof -
      from ad obtain c1 where c1: "core c1 = core c" "\<not> c_w c1" "\<not> c_r c1" "s = next_state cfg dp now sh c1"
        unfolding advances_def by blast
      then show ?thesis using next_state_sess [OF c1(2,3)] core_inv [OF c1(1)] r(2) ci(1) by simp
    qed
    then show ?thesis using handle_read_shape [OF c(2) r(1) False, of sh cfg dp now] closed False r unfolding serve_step_def by presburger
  qed
qed

lemma new_conn_sess: "sess_inv cfg (snd (new_conn cfg dp now sh w src local))"
proof -
  let ?c = "match_blacklists cfg sh (initial_conn cfg now w src local)"
  let ?st = "if cf_proxy_protocol cfg then StateProxyIn else StateBannerIn"
  have n: "sess_inv cfg (snd (next_state cfg dp now sh' x))"
    if "c_in_buf x = []" "\<not> c_closed x" "c_state x = ?st" "client_inv cfg x" "\<not> c_w x" for sh' x
  proof -
    have "\<not> quits x" "\<not> resets x" using that(1) by (simp_all add: quits_def resets_def match_def)
    then have nx: "next_state cfg dp now sh' x = dispatch cfg dp now sh' x" using that(2) by (simp add: next_state_def)
    show ?thesis
    proof (cases "cf_proxy_protocol cfg")
      case True
      then have "client_inv cfg (set_read (go_to StateProxyOut x))" using that(4) by (auto simp: client_inv_def moves)
      then show ?thesis using True that(3) by (simp add: nx dispatch_def sess_inv_def reply_inv_state)
    next
      case False
      then show ?thesis using banner_sess [OF that(4)] that(3) by (simp add: nx dispatch_def)
    qed
  qed
  have f: "c_in_buf ?c = []" "\<not> c_closed ?c" "\<not> c_w ?c" "c_black ?c \<longleftrightarrow> c_lists ?c \<noteq> []"
    "c_src_addr ?c = addr_string (unmap (fst (c_src ?c)))" "c_reserved_src ?c = unmap (fst (c_src ?c))"
    by (simp_all add: match_blacklists_def initial_conn_def Let_def)
  have ci: "client_inv cfg (?c\<lparr>c_list_summary := l, c_stutter := k, c_state := ?st\<rparr>)" "client_inv cfg (?c\<lparr>c_state := ?st\<rparr>)"
    "client_inv cfg (?c\<lparr>c_list_summary := l, c_state := ?st\<rparr>)" for l k
    using f by (simp_all add: client_inv_def)
  show ?thesis using f ci by (auto simp: new_conn_def Let_def split: prod.splits intro!: n)
qed

lemma session_inv: "session cfg dp c \<Longrightarrow> sess_inv cfg c"
proof (induction rule: session.induct)
  case start
  then show ?case by (rule new_conn_sess)
next
  case (step c)
  then show ?case using serve_step_sess session_flow by blast
qed

subsection \<open>No message is ever accepted\<close>

definition data_phase :: "conn \<Rightarrow> bool" where
  "data_phase c \<longleftrightarrow> c_state c \<in> {StateDataOut, StateMessage, StateClose}"

lemma reply_state: "c_state (snd (state_reply cfg sh c)) = StateClose"
  by (simp add: state_reply_def build_reply_def)

lemma message_state: "c_state c = StateMessage \<Longrightarrow> data_phase (snd (state_message cfg sh c))"
  by (auto simp: state_message_def data_phase_def reply_state Let_def split: prod.splits)

lemma close_state [simp]: "c_state (snd (close_conn sh c)) = c_state c"
  by (simp add: close_conn_def)

lemma data_phase_close [simp]: "data_phase (snd (close_conn sh c)) = data_phase c"
  by (simp add: data_phase_def)

lemma next_state_data_phase:
  assumes "data_phase c"
  shows "data_phase (snd (next_state cfg dp now sh c))"
proof -
  have r: "\<not> resets c" using assms by (auto simp: data_phase_def resets_def state_order)
  have "data_phase (snd (dispatch cfg dp now sh c))"
    using assms message_state [of c cfg sh] by (auto simp: data_phase_def dispatch_def)
  then show ?thesis using assms r by (auto simp: next_state_def) (simp add: data_phase_def)
qed

lemma serve_step_data_phase:
  assumes "\<not> c_closed c" "flow_ok c" "data_phase c"
  shows "data_phase (snd (serve_step cfg dp now sh c))"
proof -
  have k: "data_phase c1" if "core c1 = core c" for c1 using core_fields(1) [OF that] assms(3) by (simp add: data_phase_def)
  have cl: "closes sh c s \<Longrightarrow> data_phase (snd s)" for s using k by (auto simp: closes_def)
  have aw: "after_write cfg dp now sh c s \<Longrightarrow> data_phase (snd s)" for s
    using k next_state_data_phase by (auto simp: after_write_def)
  have ad: "advances cfg dp now sh c s \<Longrightarrow> data_phase (snd s)" for s
    using k next_state_data_phase by (auto simp: advances_def)
  show ?thesis
  proof (cases "c_w c")
    case True
    then show ?thesis using handle_write_shape [OF assms(1) True, of sh cfg dp now] cl aw unfolding serve_step_def by presburger
  next
    case False
    then have r: "c_r c" using assms by (auto simp: flow_ok_def)
    then show ?thesis using handle_read_shape [OF assms(1) r False, of sh cfg dp now] cl ad False unfolding serve_step_def by presburger
  qed
qed

text \<open>
  C10: The server never accepts a message. Once a client has given the DATA command, all later states of its
  connection stay in the final phase, and the only things written there are the request to send the message, the
  rejection (the temporary failure for a client on no list, the messages of the lists with the
  configured code otherwise), and the good bye after QUIT. No reply tells the client that
  its message was taken.
\<close>

theorem never_accepts_mail:
  assumes "session cfg dp c" "\<not> c_closed c" "data_phase c"
  shows "(c_w c \<longrightarrow> c_state c = StateDataOut \<and> c_out c = crlf data_reply \<or> c_state c = StateClose \<and> final_reply cfg c) \<and>
     data_phase (snd (serve_step cfg dp now sh c))"
proof -
  have "sess_inv cfg c" "flow_ok c" using session_inv session_flow assms(1) by blast+
  then show ?thesis using assms(2,3) serve_step_data_phase [OF assms(2) _ assms(3)]
    by (auto simp: sess_inv_def reply_inv_def data_phase_def flow_ok_def writes_def)
qed

text \<open>
  C13: Addresses are adopted from permitted proxies only. In every state of a connection the address
  that is reported to the greylister and the address that is charged with the connection are
  those of the TCP peer, unless the proxy protocol is enabled and the peer is on the list of
  permitted proxies; and a client counts as blacklisted exactly when some list matched.
\<close>

theorem proxy_addresses_authorised:
  assumes "session cfg dp c" "\<not> c_closed c"
  shows "(c_src_addr c = addr_string (unmap (fst (c_src c))) \<and> c_reserved_src c = unmap (fst (c_src c)) \<or>
      cf_proxy_protocol cfg \<and> bl_match_ptr (cf_permitted_proxies cfg) (fst (c_src c))) \<and>
     (c_black c \<longleftrightarrow> c_lists c \<noteq> [])"
  using session_inv [OF assms(1)] assms(2) by (auto simp: sess_inv_def client_inv_def)

text \<open>A client that goes straight to the DATA command.\<close>

definition hasty_client :: conn where
  "hasty_client = snd (new_conn example_config example_deps 0 example_shared
     \<lparr>rw_input = [''DA'', ''TA'' @ crnl], rw_sent = [], rw_writes = None\<rparr> (Addr4 0xc0000207, 4000) (Addr4 0xc0000219, 25))"

definition hasty_step :: "conn \<Rightarrow> conn" where
  "hasty_step c = snd (serve_step example_config example_deps 1 example_shared c)"

definition outline :: "conn \<Rightarrow> bool \<times> bool \<times> smtp_state" where
  "outline c = (c_closed c, c_w c, c_state c)"

lemma hasty_client_open: "\<not> c_closed hasty_client" by code_simp

lemma hasty_first: "\<not> c_closed (hasty_step hasty_client)" by code_simp

lemma hasty_second: "outline (hasty_step (hasty_step hasty_client)) = (False, True, StateClose)" by code_simp

lemmas hasty_session = hasty_client_open hasty_first hasty_second [unfolded outline_def prod.inject]

theorem never_accepts_mail_witness:
  "final_reply example_config (hasty_step (hasty_step hasty_client))"
proof -
  have "session example_config example_deps (hasty_step (hasty_step hasty_client))"
    using hasty_session by (auto simp: hasty_step_def hasty_client_def intro: session.intros)
  moreover have "data_phase (hasty_step (hasty_step hasty_client))" using hasty_session by (simp add: data_phase_def)
  ultimately show ?thesis
    using never_accepts_mail [of example_config example_deps "hasty_step (hasty_step hasty_client)" 0 example_shared] hasty_session
    by simp
qed

theorem proxy_addresses_authorised_witness:
  "c_reserved_src (hasty_step hasty_client) = unmap (fst (c_src (hasty_step hasty_client)))"
proof -
  have "session example_config example_deps (hasty_step hasty_client)"
    using hasty_session(1) by (auto simp: hasty_step_def hasty_client_def intro: session.intros)
  from proxy_addresses_authorised [OF this hasty_first] show ?thesis by (simp add: example_config_def)
qed

subsection \<open>The transcript\<close>

text \<open>
  The bytes a client has been sent and is still owed. Between steps the carriage return flag
  tells whether the byte before the next one is a carriage return.
\<close>

definition owed :: "conn \<Rightarrow> string" where
  "owed c = rw_sent (c_rw c) @ drop (c_out_pos c) (c_out c)"

definition out_sync :: "conn \<Rightarrow> bool" where
  "out_sync c \<longleftrightarrow> crlf_ok None (c_out c) \<and>
     (c_w c \<and> c_out_pos c < length (c_out c) \<longrightarrow> (c_seen_cr c \<longleftrightarrow> 0 < c_out_pos c \<and> c_out c ! (c_out_pos c - 1) = cr))"

lemma crlf_ok_nth: "crlf_ok p s \<Longrightarrow> i < length s \<Longrightarrow> s ! i = nl \<Longrightarrow> (if i = 0 then p = Some cr else s ! (i - 1) = cr)"
proof (induction p s arbitrary: i rule: crlf_ok.induct)
  case (2 prev c cs)
  show ?case
  proof (cases i)
    case (Suc k)
    then have "if k = 0 then Some c = Some cr else cs ! (k - 1) = cr" using 2(1) [of k] 2(2-4) by simp
    with Suc show ?thesis by (cases k) simp_all
  qed (use 2 in simp)
qed simp

lemma out_sync_updates [simp]:
  "out_sync (set_out s c)" "out_sync (set_read c) = out_sync c" "out_sync (go_to st c) = out_sync c"
  "out_sync (c\<lparr>c_state := st\<rparr>) = out_sync c" "out_sync (c\<lparr>c_in := i\<rparr>) = out_sync c"
  "out_sync (c\<lparr>c_bad_cmd := n\<rparr>) = out_sync c" "out_sync (lookup_orig_dst cfg dp c) = out_sync c"
  "out_sync (c\<lparr>c_data_body := b, c_data_lines := n\<rparr>) = out_sync c" "out_sync c \<Longrightarrow> out_sync (c\<lparr>c_w := False\<rparr>)"
  "out_sync (c\<lparr>c_in_buf := s\<rparr>) = out_sync c" "out_sync (c\<lparr>c_r := b\<rparr>) = out_sync c" "out_sync (c\<lparr>c_proxy_v2 := p\<rparr>) = out_sync c"
  "out_sync (snd (rematch_after_proxy cfg sh c)) = out_sync c" "out_sync (stop_stutter cfg now c) = out_sync c"
  by (simp_all add: out_sync_def moves lookup_orig_dst_def crlf_def crlf_from_ok rematch_after_proxy_def match_blacklists_def
      Let_def stop_stutter_def)

lemma close_sync [simp]: "out_sync c \<Longrightarrow> out_sync (snd (close_conn sh c))"
  by (auto simp: close_conn_def out_sync_def)

lemma reply_sync [simp]: "out_sync (snd (state_reply cfg sh c))"
  by (simp add: state_reply_def build_reply_def)

lemma data_in_sync [simp]: "out_sync (snd (state_data_in cfg sh c))"
  by (simp add: state_data_in_def Let_def)

lemma rcpt_in_sync [simp]: "out_sync (snd (state_rcpt_in cfg dp sh c))"
  by (simp add: state_rcpt_in_def Let_def)

lemma mail_in_sync [simp]: "out_sync (snd (state_mail_in cfg dp sh c))"
  by (simp add: state_mail_in_def)

lemma helo_in_sync [simp]: "out_sync (snd (state_helo_in cfg dp sh c))"
  by (simp add: state_helo_in_def Let_def)

lemma message_sync [simp]: "out_sync c \<Longrightarrow> out_sync (snd (state_message cfg sh c))"
  by (simp add: state_message_def Let_def split: prod.splits)

lemma banner_sync [simp]: "out_sync (snd (state_banner_in cfg dp now sh c))"
  by (simp add: state_banner_in_def)

lemma proxy_out_sync [simp]: "out_sync (snd (state_proxy_out cfg dp now sh c))"
  by (simp add: state_proxy_out_def split: prod.splits)

lemma next_state_sync: "out_sync c \<Longrightarrow> out_sync (snd (next_state cfg dp now sh c))"
  by (cases "c_state c") (simp_all add: next_state_def dispatch_def)

lemma write_out_sync:
  assumes c: "out_sync c" "c_w c" "0 < out_remaining c" and w: "write_out sh c = (ok, c1)"
  shows "ok \<Longrightarrow> out_sync c1 \<and> owed c1 = owed c" "rw_writes (c_rw c) = None \<Longrightarrow> ok"
proof -
  let ?p = "c_out_pos c" let ?b = "c_out c ! ?p" let ?n = "to_write sh c"
  have p: "?p < length (c_out c)" "0 < ?n" "?n \<le> length (c_out c) - ?p"
    using c(3) to_write_bounds [OF c(3), of sh] by (simp_all add: out_remaining_def)
  have "\<not> (?b = nl \<and> \<not> c_seen_cr c)"
    using c(1,2) p(1) crlf_ok_nth [of None "c_out c" ?p] by (auto simp: out_sync_def split: if_splits)
  then have e: "write_out sh c = (case write_rw (take ?n (drop ?p (c_out c))) (c_rw c) of
      None \<Rightarrow> (False, c\<lparr>c_seen_cr := (?b = cr), c_rw := c_rw c\<rparr>)
    | Some w2 \<Rightarrow> (True, c\<lparr>c_seen_cr := (?b = cr), c_rw := w2, c_out_pos := ?p + ?n\<rparr>))"
    by (auto simp: write_out_def Let_def split: option.splits)
  show ok if "rw_writes (c_rw c) = None" using that e w by (auto simp: write_rw_def)
  assume ok
  then obtain v where v: "write_rw (take ?n (drop ?p (c_out c))) (c_rw c) = Some v"
    and c1: "c1 = c\<lparr>c_seen_cr := (?b = cr), c_rw := v, c_out_pos := ?p + ?n\<rparr>"
    using e w by (cases "write_rw (take ?n (drop ?p (c_out c))) (c_rw c)") auto
  have one: "?n = 1" if "?p + ?n < length (c_out c)" using that p(3) by (auto simp: to_write_def out_remaining_def split: if_splits)
  have "owed c1 = owed c" using append_take_drop_id [of ?n "drop ?p (c_out c)"] write_rw_input [OF v]
    by (simp add: c1 owed_def add.commute)
  moreover have "out_sync c1" using c(1) one by (auto simp: c1 out_sync_def)
  ultimately show "out_sync c1 \<and> owed c1 = owed c" by blast
qed

lemma close_open_sync: "\<not> c_closed c \<Longrightarrow> out_sync (snd (close_conn sh c))"
  by (simp add: close_conn_def out_sync_def)

text \<open>Going on after a reply is complete adds nothing to what the client is owed.\<close>

lemma owed_close: "c_out_pos c = length (c_out c) \<or> c_closed c \<Longrightarrow> owed (snd (close_conn sh c)) = owed c"
  by (auto simp: close_conn_def owed_def)

lemma handle_write_sync:
  assumes c: "out_sync c" "flow_ok c" "\<not> c_closed c" "c_w c"
  shows "out_sync (snd (handle_write cfg dp now sh c))"
    "rw_writes (c_rw c) = None \<Longrightarrow> owed (snd (handle_write cfg dp now sh c)) = owed c"
proof -
  let ?c = "stop_stutter cfg now c"
  have w0: "writes c" "\<not> c_r c" using c by (auto simp: flow_ok_def)
  obtain ok c1 where w: "(if 0 < out_remaining ?c then write_out sh ?c else (True, ?c)) = (ok, c1)" by (rule prod.exhaust)
  have s: "ok \<Longrightarrow> out_sync c1 \<and> owed c1 = owed c" "rw_writes (c_rw c) = None \<Longrightarrow> ok"
    using write_out_sync [of ?c sh ok c1] w c by (auto simp: owed_def split: if_splits)
  have f: "core c1 = core c" "c_in_buf c1 = c_in_buf c" "c_r c1 = c_r c"
    using w write_out_same [of sh ?c ok c1] by (auto split: if_splits)
  have h: "handle_write cfg dp now sh c =
      (if \<not> ok then close_conn sh c1 else if out_remaining c1 = 0 then next_state cfg dp now sh (c1\<lparr>c_w := False\<rparr>) else (sh, c1))"
    using c w by (simp add: handle_write_def)
  have cl: "\<not> c_closed c1" using core_fields [OF f(1)] c(3) by simp
  show "out_sync (snd (handle_write cfg dp now sh c))"
    using s(1) close_open_sync [OF cl] next_state_sync by (simp add: h)
  assume n: "rw_writes (c_rw c) = None"
  let ?d = "c1\<lparr>c_w := False\<rparr>"
  have q: "\<not> quits ?d" "\<not> resets ?d"
    using w0 core_fields [OF f(1)] f(2) by (auto simp: writes_def quiet_def quits_def resets_def)
  have st: "c_state ?d \<in> {StateBannerOut, StateHeloOut, StateMailOut, StateRcptOut, StateDataOut, StateClose}"
    using w0 core_fields [OF f(1)] by (simp add: writes_def)
  have "owed (snd (dispatch cfg dp now sh ?d)) = owed c1" if "out_remaining c1 = 0"
    using st that cl unfolding dispatch_def
    by (elim insertE emptyE) (simp_all add: owed_def moves close_conn_def out_remaining_def)
  then show "owed (snd (handle_write cfg dp now sh c)) = owed c"
    using s n q cl by (simp add: h next_state_def)
qed

lemma serve_step_sync:
  assumes "out_sync c" "flow_ok c" "\<not> c_closed c"
  shows "out_sync (snd (serve_step cfg dp now sh c))"
proof (cases "c_w c")
  case True
  then show ?thesis using handle_write_sync(1) [OF assms True] by (simp add: serve_step_def)
next
  case False
  then have r: "c_r c" using assms by (auto simp: flow_ok_def)
  have "closes sh c s \<Longrightarrow> out_sync (snd s)" for s
  proof -
    assume "closes sh c s"
    then obtain c1 where c1: "core c1 = core c" "s = close_conn sh c1" by (auto simp: closes_def)
    then show ?thesis using close_open_sync core_fields(7) [OF c1(1)] assms(3) by simp
  qed
  moreover have "advances cfg dp now sh c s \<Longrightarrow> out_sync (snd s)" for s
  proof -
    assume "advances cfg dp now sh c s"
    then obtain c1 where c1: "core c1 = core c" "\<not> c_w c1" "s = next_state cfg dp now sh c1" by (auto simp: advances_def)
    have "out_sync c1" using core_fields(6) [OF c1(1)] c1(2) assms(1) by (simp add: out_sync_def)
    then show ?thesis using c1(3) next_state_sync by simp
  qed
  ultimately show ?thesis
    using handle_read_shape [OF assms(3) r False, of sh cfg dp now] False r unfolding serve_step_def by presburger
qed

lemma session_sync: "session cfg dp c \<Longrightarrow> out_sync c"
proof (induction rule: session.induct)
  case (start now sh w src local)
  have m: "out_sync ((match_blacklists cfg sh (initial_conn cfg now w src local))\<lparr>c_list_summary := l, c_stutter := k, c_state := st\<rparr>)"
    "out_sync ((match_blacklists cfg sh (initial_conn cfg now w src local))\<lparr>c_list_summary := l, c_state := st\<rparr>)"
    "out_sync ((match_blacklists cfg sh (initial_conn cfg now w src local))\<lparr>c_state := st\<rparr>)" for l k st
    by (simp_all add: out_sync_def match_blacklists_def initial_conn_def Let_def)
  show ?case using m by (auto simp: new_conn_def Let_def simp del: out_sync_updates split: prod.splits intro!: next_state_sync)
next
  case (step c)
  then show ?case using serve_step_sync session_flow by blast
qed

text \<open>
  C28: Stuttering does not change what a client reads. Each write step, however many bytes it sends,
  whatever the load, the stutter setting and the clock, leaves the sequence of bytes sent and still
  owed as it is: a reply arrives byte for byte as it was queued, with no carriage return added
  or lost on the way.
\<close>

theorem stutter_keeps_transcript:
  assumes "session cfg dp c" "\<not> c_closed c" "c_w c" "rw_writes (c_rw c) = None"
  shows "owed (snd (serve_step cfg dp now sh c)) = owed c \<and> crlf_ok None (c_out c)"
  using handle_write_sync(2) [OF session_sync session_flow] session_sync [OF assms(1)] assms
  by (auto simp: serve_step_def out_sync_def)

lemma hasty_client_writes: "c_w hasty_client \<and> rw_writes (c_rw hasty_client) = None" by code_simp

theorem stutter_keeps_transcript_witness: "owed (hasty_step hasty_client) = owed hasty_client"
proof -
  have "session example_config example_deps hasty_client" unfolding hasty_client_def by (rule session.start)
  then show ?thesis
    using stutter_keeps_transcript [of example_config example_deps hasty_client 1 example_shared] hasty_client_open hasty_client_writes
    by (simp add: hasty_step_def)
qed

subsection \<open>Lines in pieces\<close>

lemma read_line_pieces:
  assumes "concat xs = s @ [nl]" "nl \<notin> set s" "list_all (\<lambda>x. x \<noteq> []) xs" "nl \<notin> set (c_in c)"
    and "length (c_in c) + length s < limit" "rw_input (c_rw c) = xs @ rest"
  shows "read_line_loop limit sh c = (True, sh, c\<lparr>c_in := c_in c @ s @ [nl], c_rw := (c_rw c)\<lparr>rw_input := rest\<rparr>\<rparr>)"
  using assms
proof (induction xs arbitrary: c s)
  case (Cons x xs)
  let ?n = "limit - length (c_in c)"
  let ?c = "c\<lparr>c_in := c_in c @ x, c_rw := (c_rw c)\<lparr>rw_input := xs @ rest\<rparr>\<rparr>"
  have xl: "length x + length (concat xs) = length s + 1" using Cons.prems(1) by (metis concat.simps(2) length_append length_append_singleton Suc_eq_plus1)
  then have r: "read_chunk ?n sh c = (True, sh, ?c)"
    using Cons.prems by (auto simp: read_chunk_def Let_def)
  have step: "read_line_loop limit sh c = (if nl \<in> set x then (True, sh, ?c) else read_line_loop limit sh ?c)"
    using r Cons.prems(5) by (simp add: read_line_loop.simps [of limit sh c])
  show ?case
  proof (cases "xs = []")
    case True
    then show ?thesis using Cons.prems step by auto
  next
    case False
    then have ne: "concat xs \<noteq> []" using Cons.prems(3) by (cases xs) auto
    then obtain t where t: "concat xs = t @ [nl]" "s = x @ t"
      using Cons.prems(1) by (metis append_assoc append_butlast_last_id butlast_append butlast_snoc concat.simps(2) last_append last_snoc)
    have "read_line_loop limit sh ?c = (True, sh, ?c\<lparr>c_in := c_in ?c @ t @ [nl], c_rw := (c_rw ?c)\<lparr>rw_input := rest\<rparr>\<rparr>)"
      by (rule Cons.IH [OF t(1)]) (use Cons.prems t(2) in auto)
    then show ?thesis using step t(2) Cons.prems(2) by auto
  qed
qed simp

text \<open>
  C27: How a line is cut into packets makes no difference. A command line that arrives in any number
  of pieces is handled exactly as if it had arrived at once, up to the line limit.
\<close>

theorem line_in_pieces:
  assumes "session cfg dp c" "\<not> c_closed c" "c_r c" "c_state c \<noteq> StateProxyOut"
    and "concat xs = line @ [nl]" "nl \<notin> set line" "list_all (\<lambda>x. x \<noteq> []) xs" "length line < line_limit cfg"
    and "rw_input (c_rw c) = xs @ rest"
  shows "serve_step cfg dp now sh c =
     serve_step cfg dp now sh (c\<lparr>c_rw := (c_rw c)\<lparr>rw_input := (line @ [nl]) # rest\<rparr>\<rparr>)"
proof -
  have c: "c_in c = []" "\<not> c_w c" using session_flow [OF assms(1)] assms(2,3) by (auto simp: flow_ok_def)
  let ?d = "c\<lparr>c_rw := (c_rw c)\<lparr>rw_input := (line @ [nl]) # rest\<rparr>\<rparr>"
  have "read_line_loop (line_limit cfg) sh c = (True, sh, c\<lparr>c_in := line @ [nl], c_rw := (c_rw c)\<lparr>rw_input := rest\<rparr>\<rparr>)"
    using read_line_pieces [of xs line c] assms c(1) by simp
  moreover have "read_line_loop (line_limit cfg) sh ?d = (True, sh, c\<lparr>c_in := line @ [nl], c_rw := (c_rw c)\<lparr>rw_input := rest\<rparr>\<rparr>)"
    using read_line_pieces [of "[line @ [nl]]" line ?d] assms c(1) by simp
  ultimately show ?thesis using assms(2-4) c(2) by (simp add: serve_step_def handle_read_def)
qed

lemma hasty_first_reads:
  "(c_r (hasty_step hasty_client), c_state (hasty_step hasty_client), rw_input (c_rw (hasty_step hasty_client))) =
     (True, StateHeloIn, [''DA'', ''TA'' @ crnl])"
  by code_simp

theorem line_in_pieces_witness:
  "hasty_step (hasty_step hasty_client) =
     hasty_step ((hasty_step hasty_client)\<lparr>c_rw := (c_rw (hasty_step hasty_client))\<lparr>rw_input := [''DATA'' @ crnl]\<rparr>\<rparr>)"
proof -
  have s: "session example_config example_deps (hasty_step hasty_client)"
    using hasty_session by (auto simp: hasty_step_def hasty_client_def intro: session.intros)
  have "length (''DATA'' @ [cr]) < line_limit example_config" by code_simp
  then show ?thesis
    using line_in_pieces [OF s, of "[''DA'', ''TA'' @ crnl]" "''DATA'' @ [cr]" "[]" 1 example_shared] hasty_first hasty_first_reads
    by (simp add: hasty_step_def)
qed

subsection \<open>Reports to the greylister\<close>

definition grey_frame :: "conn \<Rightarrow> string" where
  "grey_frame c = write_grey (c_dst_addr c) (c_src_addr c) (c_helo c) (c_mail c) (c_rcpt c)"

definition reportable :: "config \<Rightarrow> deps \<Rightarrow> conn \<Rightarrow> bool" where
  "reportable cfg dp c \<longleftrightarrow> cf_greylist cfg \<and> dp_grey_out dp \<and> \<not> c_black c \<and> c_mail c \<noteq> [] \<and> c_rcpt c \<noteq> [] \<and>
     match (c_in_buf c) ''RCPT'' \<and> c_rcpt c = normalize_email (get_addr (c_in_buf c))"

text \<open>The stream to the greylister is unchanged, or has one more frame for the envelope at hand.\<close>

definition report_ok :: "config \<Rightarrow> deps \<Rightarrow> shared \<Rightarrow> conn_state \<Rightarrow> bool" where
  "report_ok cfg dp sh s \<longleftrightarrow> sh_grey (fst s) = sh_grey sh \<or>
     reportable cfg dp (snd s) \<and> sh_grey (fst s) = sh_grey sh @ grey_frame (snd s)"

lemma sh_grey_counters [simp]: "sh_grey (on_counters f sh) = sh_grey sh"
  by (simp add: on_counters_def)

lemma grey_same [simp]:
  "sh_grey (fst (state_reply cfg sh c)) = sh_grey sh" "sh_grey (fst (state_data_in cfg sh c)) = sh_grey sh"
  "sh_grey (fst (state_message cfg sh c)) = sh_grey sh" "sh_grey (fst (close_conn sh c)) = sh_grey sh"
  "sh_grey (fst (rematch_after_proxy cfg sh c)) = sh_grey sh" "sh_grey (fst (state_banner_in cfg dp now sh c)) = sh_grey sh"
proof -
  show r: "sh_grey (fst (state_reply cfg sh c)) = sh_grey sh" for c by (simp add: state_reply_def build_reply_def)
  show "sh_grey (fst (state_data_in cfg sh c)) = sh_grey sh" by (simp add: state_data_in_def Let_def r)
  show "sh_grey (fst (state_message cfg sh c)) = sh_grey sh" by (simp add: state_message_def Let_def r split: prod.splits)
  show "sh_grey (fst (close_conn sh c)) = sh_grey sh" by (simp add: close_conn_def)
  show "sh_grey (fst (rematch_after_proxy cfg sh c)) = sh_grey sh" by (simp add: rematch_after_proxy_def Let_def)
  show "sh_grey (fst (state_banner_in cfg dp now sh c)) = sh_grey sh" by (simp add: state_banner_in_def)
qed

lemma proxy_out_grey [simp]: "sh_grey (fst (state_proxy_out cfg dp now sh c)) = sh_grey sh"
proof -
  obtain ok s where a: "apply_proxy_header cfg sh c = (ok, s)" by (rule prod.exhaust)
  have "sh_grey (fst s) = sh_grey sh"
    using a by (auto simp: apply_proxy_header_def adopt_header_def split: if_splits sum.splits option.splits)
  then show ?thesis by (cases s) (simp add: state_proxy_out_def a)
qed

lemma rcpt_in_report: "report_ok cfg dp sh (state_rcpt_in cfg dp sh c)"
proof (cases "match (c_in_buf c) ''RCPT''")
  case True
  let ?c1 = "go_to StateRcptOut (set_out ok_reply (c\<lparr>c_rcpt := normalize_email (get_addr (c_in_buf c))\<rparr>))"
  let ?c2 = "lookup_orig_dst cfg dp ?c1"
  show ?thesis
  proof (cases "c_mail ?c1 \<noteq> [] \<and> c_rcpt ?c1 \<noteq> [] \<and> cf_greylist cfg \<and> \<not> c_black ?c1 \<and> dp_grey_out dp")
    case rep: True
    have "reportable cfg dp ?c2" using rep True by (simp add: reportable_def lookup_orig_dst_def moves)
    then show ?thesis using True rep by (simp add: state_rcpt_in_def report_ok_def grey_frame_def Let_def)
  next
    case False
    then show ?thesis using True by (auto simp: state_rcpt_in_def report_ok_def Let_def)
  qed
qed (simp add: state_rcpt_in_def report_ok_def)

lemma next_state_report: "report_ok cfg dp sh (next_state cfg dp now sh c)"
proof -
  have m: "report_ok cfg dp sh (state_mail_in cfg dp sh c)"
    using rcpt_in_report [of cfg dp sh c] by (simp add: state_mail_in_def report_ok_def)
  then have h: "report_ok cfg dp sh (state_helo_in cfg dp sh c)" by (simp add: state_helo_in_def report_ok_def Let_def)
  show ?thesis
  proof (cases "c_closed c \<or> quits c \<or> resets c")
    case False
    then have n: "next_state cfg dp now sh c = dispatch cfg dp now sh c" by (simp add: next_state_def)
    have "c_state c \<in> {StateHeloIn, StateMailIn, StateRcptIn} \<or> sh_grey (fst (dispatch cfg dp now sh c)) = sh_grey sh"
      by (cases "c_state c") (simp_all add: dispatch_def)
    then show ?thesis unfolding n using m h rcpt_in_report [of cfg dp sh c] by (auto simp: dispatch_def report_ok_def)
  qed (auto simp: next_state_def report_ok_def)
qed

lemma serve_step_report:
  assumes "\<not> c_closed c" "flow_ok c"
  shows "report_ok cfg dp sh (serve_step cfg dp now sh c)"
proof -
  have cl: "closes sh c s \<Longrightarrow> report_ok cfg dp sh s" for s by (auto simp: closes_def report_ok_def)
  have idle: "report_ok cfg dp sh (sh, c1)" for c1 by (simp add: report_ok_def)
  have aw: "after_write cfg dp now sh c s \<Longrightarrow> report_ok cfg dp sh s" for s
    unfolding after_write_def using idle next_state_report by blast
  have ad: "advances cfg dp now sh c s \<Longrightarrow> report_ok cfg dp sh s" for s
    unfolding advances_def using next_state_report by blast
  show ?thesis
  proof (cases "c_w c")
    case True
    then show ?thesis using handle_write_shape [OF assms(1) True, of sh cfg dp now] cl aw unfolding serve_step_def by presburger
  next
    case False
    then have r: "c_r c" using assms by (auto simp: flow_ok_def)
    then show ?thesis using handle_read_shape [OF assms(1) r False, of sh cfg dp now] cl ad False unfolding serve_step_def by presburger
  qed
qed

text \<open>
  C14: Only genuine envelopes are reported. A step of a connection leaves the stream to the greylister alone,
  or appends exactly one frame: greylisting is on, the client is on no list, the input was an RCPT command, sender and
  recipient are not empty, and the frame carries the address of the client, its HELO
  name, the sender it gave and the normalised recipient of this very command.
\<close>

theorem reports_are_envelopes:
  assumes "session cfg dp c" "\<not> c_closed c" "serve_step cfg dp now sh c = (sh', c')"
  shows "sh_grey sh' = sh_grey sh \<or>
     cf_greylist cfg \<and> dp_grey_out dp \<and> \<not> c_black c' \<and> match (c_in_buf c') ''RCPT'' \<and> c_mail c' \<noteq> [] \<and> c_rcpt c' \<noteq> [] \<and>
     c_rcpt c' = normalize_email (get_addr (c_in_buf c')) \<and>
     sh_grey sh' = sh_grey sh @ write_grey (c_dst_addr c') (c_src_addr c') (c_helo c') (c_mail c') (c_rcpt c')"
proof -
  have "report_ok cfg dp sh (sh', c')" using serve_step_report [OF assms(2) session_flow [OF assms(1)]] assms(3) by metis
  then show ?thesis by (auto simp: report_ok_def reportable_def grey_frame_def)
qed

theorem reports_are_envelopes_witness:
  "sh_grey (fst (serve_step example_config example_deps 1 example_shared hasty_client)) = sh_grey example_shared"
proof -
  have s: "session example_config example_deps hasty_client" unfolding hasty_client_def by (rule session.start)
  obtain sh' c' where r: "serve_step example_config example_deps 1 example_shared hasty_client = (sh', c')" by (rule prod.exhaust)
  have "c' = hasty_step hasty_client" using r by (simp add: hasty_step_def)
  moreover have "c_rcpt (hasty_step hasty_client) = []" by code_simp
  ultimately show ?thesis using reports_are_envelopes [OF s hasty_client_open r] r by simp
qed

subsection \<open>The RCPT command\<close>

lemma strip_line_crnl:
  assumes "CHR 0x00 \<notin> set line" "line \<noteq> []" "last line \<notin> {cr, nl}"
  shows "strip_line (line @ crnl) = line"
proof -
  have n: "index_byte (line @ crnl) (CHR 0x00) = None" using assms(1) by (simp only: index_byte_None) simp
  have "dropWhile (\<lambda>c. c = cr \<or> c = nl) (rev line) = rev line"
    using assms(2,3) by (simp add: dropWhile_eq_self_iff hd_rev)
  then show ?thesis unfolding strip_line_def n by simp
qed

text \<open>What a reported RCPT line does in one step.\<close>

lemma rcpt_step:
  assumes c: "flow_ok c" "\<not> c_closed c" "c_r c" "c_state c = StateRcptIn" "\<not> c_black c" "c_mail c \<noteq> []"
    and line: "CHR 0x00 \<notin> set line" "nl \<notin> set line" "last line \<noteq> cr" "match line ''RCPT''" "length line + 1 < line_limit cfg"
      "normalize_email (get_addr line) \<noteq> []" "rw_input (c_rw c) = (line @ crnl) # rest"
    and env: "cf_greylist cfg" "dp_grey_out dp" "sh_grey_ok sh" "cf_proxy_protocol cfg \<or> dp_orig_dst dp = None"
  shows "\<exists>sh' c'. serve_step cfg dp now sh c = (sh', c') \<and> c_state c' = StateRcptOut \<and> c_out c' = crlf ok_reply \<and>
     sh_grey sh' = sh_grey sh @ write_grey (if cf_proxy_protocol cfg then c_dst_addr c else []) (c_src_addr c) (c_helo c)
       (c_mail c) (normalize_email (get_addr line))"
proof -
  have i: "c_in c = []" "\<not> c_w c" using c by (auto simp: flow_ok_def)
  have ne: "line \<noteq> []" using line(4) by (auto simp: match_def)
  have q: "\<not> match line ''QUIT''" "\<not> match line ''RSET''"
    using match_same [OF line(4), of "''QUIT''"] match_commands(2) [OF line(4)]
    by (auto simp: equal_fold_def to_lower_def lower_char_def)
  have "last line \<noteq> nl" using line(2) ne last_in_set by metis
  then have st: "strip_line (line @ crnl) = line" using strip_line_crnl line ne by simp
  let ?c = "c\<lparr>c_in := line @ crnl, c_rw := (c_rw c)\<lparr>rw_input := rest\<rparr>\<rparr>"
  have "read_line_loop (line_limit cfg) sh c = (True, sh, ?c)"
    using read_line_pieces [of "[line @ crnl]" "line @ [cr]" c "line_limit cfg" rest sh] line i by simp
  then have s: "serve_step cfg dp now sh c = state_rcpt_in cfg dp sh (?c\<lparr>c_in_buf := line, c_r := False\<rparr>)"
    using c i q st by (simp add: serve_step_def handle_read_def finish_line_def next_state_def quits_def resets_def dispatch_def)
  show ?thesis using c line env unfolding s
    by (simp add: state_rcpt_in_def Let_def moves lookup_orig_dst_def) auto
qed

end
