(* ===== verification/Smtp_Report.thy ===== *)
theory Smtp_Report
  imports Smtp_Dialogue Greylister
begin

text \<open>
  From a client of the SMTP server to the greylister. The words a client can put into a report
  never hold a byte that would break the frame or the key of the database, and a report has
  exactly the effect of the tuple on the entries.
\<close>

subsection \<open>Clean words\<close>

definition clean :: "string \<Rightarrow> bool" where
  "clean s \<longleftrightarrow> lf \<notin> set s \<and> nul \<notin> set s"

lemma clean_simps [simp]:
  "clean []" "clean (c # s) \<longleftrightarrow> c \<noteq> lf \<and> c \<noteq> nul \<and> clean s" "clean (s @ t) \<longleftrightarrow> clean s \<and> clean t"
  by (auto simp: clean_def)

lemma clean_subset: "clean s \<Longrightarrow> set t \<subseteq> set s \<Longrightarrow> clean t"
  by (auto simp: clean_def)

lemma fields_acc_sets:
  "lf \<notin> set cur \<Longrightarrow> w \<in> set (fields_acc s cur) \<Longrightarrow> lf \<notin> set w \<and> set w \<subseteq> set s \<union> set cur"
proof (induction s cur rule: fields_acc.induct)
  case (2 c s cur)
  have space: "space_len (c # s) = 0 \<Longrightarrow> c \<noteq> lf" by (auto simp: ascii_space_def)
  show ?case
  proof (cases "space_len (c # s) = 0")
    case True
    then show ?thesis using 2 space by (auto simp del: space_len.simps)
  next
    case False
    have "set (drop n (c # s)) \<subseteq> set (c # s)" for n by (rule set_drop_subset)
    then show ?thesis using 2 False by (fastforce simp del: space_len.simps split: if_splits)
  qed
qed (auto split: if_splits)

lemma fields_clean: "nul \<notin> set s \<Longrightarrow> w \<in> set (Go_Strings.fields s) \<Longrightarrow> clean w"
  using fields_acc_sets [of "[]" w s] by (auto simp: Go_Strings.fields_def clean_def)

lemma first_field_clean: "nul \<notin> set s \<Longrightarrow> clean (first_field s)"
  using fields_clean [of s] by (cases "Go_Strings.fields s") (auto simp: first_field_def)

lemma get_helo_clean: "nul \<notin> set s \<Longrightarrow> clean (get_helo s)"
  using first_field_clean [of "drop 4 s"] in_set_dropD [of nul 4 s] by (auto simp: get_helo_def)

lemma get_addr_clean: "nul \<notin> set s \<Longrightarrow> clean (get_addr s)"
  using first_field_clean in_set_dropD by (fastforce simp: get_addr_def split: option.split)

lemma lower_char_clean: "lower_char c \<in> {lf, nul} \<Longrightarrow> lower_char c = c"
proof -
  assume "lower_char c \<in> {lf, nul}"
  then have "byte_at (lower_char c) \<in> {10, 0}" by auto
  then show ?thesis unfolding byte_lower by (auto simp: lower_char_def split: if_splits)
qed

lemma normalize_email_clean: "clean s \<Longrightarrow> clean (normalize_email s)"
proof -
  assume "clean s"
  then have "x \<notin> set (map lower_char (filter (\<lambda>c. \<not> address_noise c) s))" if "x \<in> {lf, nul}" for x
    using that lower_char_clean by (force simp: clean_def)
  then show ?thesis
    unfolding normalize_email_def normalize_loop_take clean_def using in_set_takeD by (metis insertCI)
qed

lemma itoa_clean [simp]: "clean (itoa n)"
  using itoa_set [of lf n] itoa_set [of nul n] by (auto simp: clean_def is_digit_def)

lemma dotted_quad_clean [simp]: "clean (dotted_quad w)"
  by (simp add: dotted_quad_def)

lemma hex_digit_clean: "n < 16 \<Longrightarrow> clean [hex_digit n]"
proof -
  assume "n < 16"
  then have "list_all (\<lambda>k. clean [hex_digit k]) [0..<16] \<and> n \<in> set [0..<16]" by (simp, code_simp)
  then show ?thesis by (simp add: list_all_iff)
qed

lemma hex_string_clean [simp]: "clean (hex_string n)"
proof (induction n rule: hex_string.induct)
  case (1 n)
  have "n mod 16 < 16" by simp
  from hex_digit_clean [OF this] hex_digit_clean [of n] 1 show ?case by (simp add: hex_string.simps [of n])
qed

lemma join_groups_clean [simp]: "clean (join_groups gs)"
  by (induction gs rule: join_groups.induct) simp_all

fun zone_of :: "addr \<Rightarrow> string" where
  "zone_of (Addr6 _ z) = z"
| "zone_of _ = []"

lemma addr_string_clean: "clean (zone_of a) \<Longrightarrow> clean (addr_string a)"
  by (cases a) (simp_all add: addr6_string_def Let_def split: prod.splits)

lemma unmap_zone: "clean (zone_of a) \<Longrightarrow> clean (zone_of (unmap a))"
  by (cases a) simp_all

lemma parse_ipv6_zone: "parse_ipv6 s = Some a \<Longrightarrow> set (zone_of a) \<subseteq> set s"
  using in_set_dropD [of _ _ s]
  by (auto simp: parse_ipv6_def Let_def with_zone_def split: option.splits if_splits prod.splits)

lemma addr_from_zone [simp]: "zone_of (addr_from4 bs) = []" "zone_of (addr_from16 bs) = []"
  by (simp_all add: addr_from4_def addr_from16_def)

lemma parse_addr_zone: "parse_addr s = Some a \<Longrightarrow> set (zone_of a) \<subseteq> set s"
proof -
  have "parse_addr_scan s t = Some a \<Longrightarrow> set (zone_of a) \<subseteq> set s" for t
    by (induction t) (auto simp: parse_ipv4_def dest: parse_ipv6_zone split: if_splits option.splits)
  then show "parse_addr s = Some a \<Longrightarrow> ?thesis" by (simp add: parse_addr_def)
qed

lemma parse_family_zone: "parse_family s b = Inr a \<Longrightarrow> set (zone_of a) \<subseteq> set s"
  using parse_addr_zone [of s a] by (auto simp: parse_family_def split: option.splits if_splits)

lemma parse_proxy_header_clean:
  assumes "parse_proxy_header line = Inr (src, dst)" "nul \<notin> set line"
  shows "clean (zone_of src) \<and> clean (zone_of dst)"
proof -
  let ?fs = "Go_Strings.fields line"
  obtain b where "parse_pair ?fs b = Inr (src, dst)"
    using assms(1) by (auto simp: parse_proxy_header_def Let_def split: if_splits)
  then have f: "4 \<le> length ?fs" "parse_family (?fs ! 2) b = Inr src" "parse_family (?fs ! 3) b = Inr dst"
    by (auto simp: parse_pair_def split: if_splits sum.splits)
  then have "clean (?fs ! 2)" "clean (?fs ! 3)" using fields_clean [OF assms(2)] by simp_all
  then show ?thesis using parse_family_zone [OF f(2)] parse_family_zone [OF f(3)] clean_subset by blast
qed

lemma header_of_clean:
  assumes "header_of c = Inr (Some (src, dst))" "nul \<notin> set (c_in_buf c)"
  shows "clean (zone_of src) \<and> clean (zone_of dst)"
proof (cases "c_proxy_v2 c")
  case None
  then show ?thesis using assms parse_proxy_header_clean by (auto simp: header_of_def split: sum.splits)
next
  case (Some h)
  then have "parse_proxy_header_v2 h = Inr (Some (src, dst))" using assms(1) by (simp add: header_of_def)
  then show ?thesis by (auto simp: parse_proxy_header_v2_def Let_def split: if_splits)
qed

subsection \<open>The words of a connection\<close>

definition words_ok :: "conn \<Rightarrow> bool" where
  "words_ok c \<longleftrightarrow> nul \<notin> set (c_in_buf c) \<and> clean (c_helo c) \<and> clean (c_mail c) \<and> clean (c_rcpt c) \<and>
     clean (c_src_addr c) \<and> clean (c_dst_addr c)"

text \<open>The lookup of original destinations gives one line without NUL.\<close>

definition dst_clean :: "deps \<Rightarrow> bool" where
  "dst_clean dp \<longleftrightarrow> (case dp_orig_dst dp of None \<Rightarrow> True | Some f \<Rightarrow> \<forall>src local. clean (f src local))"

lemma words_moves [simp]:
  "words_ok (set_out s c) = words_ok c" "words_ok (set_read c) = words_ok c" "words_ok (go_to st c) = words_ok c"
  "words_ok (c\<lparr>c_state := st\<rparr>) = words_ok c" "words_ok (c\<lparr>c_in := i\<rparr>) = words_ok c"
  "words_ok (c\<lparr>c_bad_cmd := n\<rparr>) = words_ok c" "words_ok (c\<lparr>c_proxy_v2 := p\<rparr>) = words_ok c"
  "words_ok (c\<lparr>c_data_body := b, c_data_lines := n\<rparr>) = words_ok c" "words_ok (c\<lparr>c_w := b\<rparr>) = words_ok c"
  by (simp_all add: words_ok_def moves)

lemma words_reply [simp]: "words_ok (snd (state_reply cfg sh c)) = words_ok c"
  by (simp add: state_reply_def build_reply_def)

lemma words_close [simp]: "words_ok (snd (close_conn sh c)) = words_ok c"
  by (simp add: close_conn_def words_ok_def)

lemma words_data [simp]: "words_ok (snd (state_data_in cfg sh c)) = words_ok c"
  by (simp add: state_data_in_def Let_def)

lemma words_message [simp]: "words_ok (snd (state_message cfg sh c)) = words_ok c"
  by (simp add: state_message_def Let_def split: prod.splits)

lemma words_banner [simp]: "words_ok (snd (state_banner_in cfg dp now sh c)) = words_ok c"
  by (simp add: state_banner_in_def)

lemma words_rematch: "words_ok c \<Longrightarrow> words_ok (snd (rematch_after_proxy cfg sh c))"
  by (simp add: rematch_after_proxy_def match_blacklists_def Let_def words_ok_def)

lemma words_lookup: "words_ok c \<Longrightarrow> dst_clean dp \<Longrightarrow> words_ok (lookup_orig_dst cfg dp c)"
  by (cases "dp_orig_dst dp") (simp_all add: lookup_orig_dst_def dst_clean_def words_ok_def del: split_paired_All)

lemma words_commands:
  assumes "words_ok c" "dst_clean dp"
  shows "words_ok (snd (state_rcpt_in cfg dp sh c))" "words_ok (snd (state_mail_in cfg dp sh c))"
    "words_ok (snd (state_helo_in cfg dp sh c))"
proof -
  let ?e = "normalize_email (get_addr (c_in_buf c))"
  have n: "nul \<notin> set (c_in_buf c)" using assms(1) by (simp add: words_ok_def)
  have e: "clean ?e" by (rule normalize_email_clean [OF get_addr_clean [OF n]])
  have w: "words_ok (c\<lparr>c_rcpt := ?e\<rparr>)" "words_ok (c\<lparr>c_mail := ?e\<rparr>)" "words_ok (c\<lparr>c_helo := get_helo (c_in_buf c)\<rparr>)"
    using assms(1) e get_helo_clean [OF n] by (simp_all add: words_ok_def)
  show r: "words_ok (snd (state_rcpt_in cfg dp sh c))"
    using w(1) assms words_lookup [of "go_to StateRcptOut (set_out ok_reply (c\<lparr>c_rcpt := ?e\<rparr>))" dp cfg]
    by (simp add: state_rcpt_in_def Let_def)
  then show m: "words_ok (snd (state_mail_in cfg dp sh c))" using w(2) by (simp add: state_mail_in_def)
  then show "words_ok (snd (state_helo_in cfg dp sh c))" using w(3) by (auto simp: state_helo_in_def Let_def)
qed

lemma words_proxy:
  assumes "words_ok c"
  shows "words_ok (snd (state_proxy_out cfg dp now sh c))"
proof -
  obtain ok s where a: "apply_proxy_header cfg sh c = (ok, s)" by (rule prod.exhaust)
  have "words_ok (snd s)"
  proof (cases "c_proxy_v2 c = None \<and> \<not> match (c_in_buf c) ''PROXY'' \<or> \<not> allow_proxy cfg c")
    case True
    then show ?thesis using a assms by (auto simp: apply_proxy_header_def)
  next
    case False
    then have h: "adopt_header cfg (header_of c) sh (c\<lparr>c_proxy_v2 := None\<rparr>) = (ok, s)" using a by (auto simp: apply_proxy_header_def)
    show ?thesis
    proof (cases "\<exists>src dst. header_of c = Inr (Some (src, dst))")
      case True
      then obtain src dst where d: "header_of c = Inr (Some (src, dst))" by blast
      then have z: "clean (addr_string src)" "clean (addr_string dst)"
        using header_of_clean [OF d] assms addr_string_clean by (auto simp: words_ok_def)
      then have "words_ok (c\<lparr>c_proxy_v2 := None, c_reserved_src := unmap src, c_src_addr := addr_string src, c_dst_addr := addr_string dst\<rparr>)"
        using assms by (simp add: words_ok_def)
      with words_rematch [OF this] h d show ?thesis by (auto simp: adopt_header_def)
    next
      case False
      then show ?thesis using h assms by (auto simp: adopt_header_def split: sum.splits option.splits)
    qed
  qed
  then show ?thesis by (cases s) (simp add: state_proxy_out_def a)
qed

lemma words_next_state:
  assumes "words_ok c" "dst_clean dp"
  shows "words_ok (snd (next_state cfg dp now sh c))"
  using assms words_commands [OF assms] words_proxy [OF assms(1)]
  by (simp add: next_state_def) (simp add: dispatch_def split: smtp_state.split)

lemma words_core: "core c1 = core c \<Longrightarrow> nul \<notin> set (c_in_buf c1) \<Longrightarrow> words_ok c \<Longrightarrow> words_ok c1"
  using core_fields [of c1 c] by (simp add: words_ok_def)

lemma words_serve_step:
  assumes "words_ok c" "dst_clean dp" "\<not> c_closed c" "flow_ok c"
  shows "c_closed (snd (serve_step cfg dp now sh c)) \<and> sh_grey (fst (serve_step cfg dp now sh c)) = sh_grey sh \<or>
    words_ok (snd (serve_step cfg dp now sh c))"
proof -
  have ad: "advances cfg dp now sh c s \<Longrightarrow> words_ok (snd s)" for s
    unfolding advances_def using words_core [OF _ _ assms(1)] words_next_state [OF _ assms(2)] by blast
  have aw: "after_write cfg dp now sh c s \<Longrightarrow> words_ok (snd s)" for s
    unfolding after_write_def using words_core [OF _ _ assms(1)] words_next_state [OF _ assms(2)] assms(1)
    by (auto simp: words_ok_def)
  have cl: "closes sh c s \<Longrightarrow> c_closed (snd s) \<and> sh_grey (fst s) = sh_grey sh" for s by (auto simp: closes_def close_conn_def)
  show ?thesis
  proof (cases "c_w c")
    case True
    then show ?thesis using handle_write_shape [OF assms(3) True, of sh cfg dp now] cl aw unfolding serve_step_def by presburger
  next
    case False
    then have r: "c_r c" using assms(3,4) by (auto simp: flow_ok_def)
    then show ?thesis using handle_read_shape [OF assms(3) r False, of sh cfg dp now] cl ad False unfolding serve_step_def by presburger
  qed
qed

text \<open>The address of the peer stays.\<close>

lemma src_moves [simp]:
  "c_src (set_out s c) = c_src c" "c_src (set_read c) = c_src c" "c_src (go_to st c) = c_src c"
  "c_src (snd (close_conn sh c)) = c_src c" "c_src (snd (build_reply code sh c)) = c_src c"
  "c_src (lookup_orig_dst cfg dp c) = c_src c" "c_src (snd (rematch_after_proxy cfg sh c)) = c_src c"
  by (simp_all add: moves close_conn_def build_reply_def lookup_orig_dst_def rematch_after_proxy_def match_blacklists_def Let_def)

lemma src_states [simp]:
  "c_src (snd (state_reply cfg sh c)) = c_src c" "c_src (snd (state_data_in cfg sh c)) = c_src c"
  "c_src (snd (state_rcpt_in cfg dp sh c)) = c_src c" "c_src (snd (state_mail_in cfg dp sh c)) = c_src c"
  "c_src (snd (state_helo_in cfg dp sh c)) = c_src c" "c_src (snd (state_message cfg sh c)) = c_src c"
  "c_src (snd (state_banner_in cfg dp now sh c)) = c_src c" "c_src (snd (state_proxy_out cfg dp now sh c)) = c_src c"
proof -
  show r: "c_src (snd (state_reply cfg sh c)) = c_src c" for sh c
    by (simp add: state_reply_def build_reply_def)
  show d: "c_src (snd (state_data_in cfg sh c)) = c_src c" by (simp add: state_data_in_def Let_def r)
  show e: "c_src (snd (state_rcpt_in cfg dp sh c)) = c_src c" by (simp add: state_rcpt_in_def Let_def d)
  show m: "c_src (snd (state_mail_in cfg dp sh c)) = c_src c" by (simp add: state_mail_in_def e)
  show "c_src (snd (state_helo_in cfg dp sh c)) = c_src c" by (simp add: state_helo_in_def Let_def m)
  show "c_src (snd (state_message cfg sh c)) = c_src c" by (simp add: state_message_def Let_def r split: prod.splits)
  show b: "c_src (snd (state_banner_in cfg dp now sh c)) = c_src c" for sh c by (simp add: state_banner_in_def)
  obtain ok sh' c' where a: "apply_proxy_header cfg sh c = (ok, sh', c')" by (rule prod_cases3)
  have "c_src c' = c_src c" using apply_proxy_cases [OF a] src_moves(7) by (auto, metis snd_conv)
  then show "c_src (snd (state_proxy_out cfg dp now sh c)) = c_src c" by (simp add: state_proxy_out_def a r b)
qed

lemma src_next_state [simp]: "c_src (snd (next_state cfg dp now sh c)) = c_src c"
  by (simp add: next_state_def) (simp add: dispatch_def split: smtp_state.split)

lemma src_serve_step:
  assumes "\<not> c_closed c" "flow_ok c"
  shows "c_src (snd (serve_step cfg dp now sh c)) = c_src c"
proof -
  have core: "c_src c1 = c_src c" if "core c1 = core c" for c1 by (rule core_fields(3) [OF that])
  have cl: "closes sh c s \<Longrightarrow> c_src (snd s) = c_src c" for s unfolding closes_def using core src_moves(4) by metis
  have ad: "advances cfg dp now sh c s \<Longrightarrow> c_src (snd s) = c_src c" for s unfolding advances_def using core src_next_state by metis
  have up: "core (c1\<lparr>c_w := False\<rparr>) = core c" if "core c1 = core c" for c1 using that by simp
  have aw: "after_write cfg dp now sh c s \<Longrightarrow> c_src (snd s) = c_src c" for s
    unfolding after_write_def using core [OF up] core src_next_state by (metis snd_conv)
  show ?thesis
  proof (cases "c_w c")
    case True
    then show ?thesis using handle_write_shape [OF assms(1) True, of sh cfg dp now] cl aw unfolding serve_step_def by presburger
  next
    case False
    then have r: "c_r c" using assms by (auto simp: flow_ok_def)
    then show ?thesis using handle_read_shape [OF assms(1) r False, of sh cfg dp now] cl ad False unfolding serve_step_def by presburger
  qed
qed

lemma session_words_ok:
  "session cfg dp c \<Longrightarrow> dst_clean dp \<Longrightarrow> clean (zone_of (fst (c_src c))) \<Longrightarrow> c_closed c \<or> words_ok c"
proof (induction rule: session.induct)
  case (start now sh w src local)
  let ?i = "initial_conn cfg now w src local"
  have s: "c_src (snd (new_conn cfg dp now sh w src local)) = src"
    by (simp add: new_conn_def Let_def match_blacklists_def initial_conn_def split: prod.splits)
  then have "clean (addr_string (unmap (fst src)))" using start addr_string_clean unmap_zone by metis
  then have "words_ok (match_blacklists cfg sh ?i)" by (simp add: words_ok_def match_blacklists_def initial_conn_def Let_def)
  then show ?case using words_next_state [OF _ start(1)]
    by (auto simp: new_conn_def Let_def words_ok_def split: prod.splits intro!: words_next_state [OF _ start(1)])
next
  case (step c now sh)
  then show ?case using words_serve_step [OF _ step.prems(1) step.hyps(2) session_flow [OF step.hyps(1)]]
      src_serve_step [OF step.hyps(2) session_flow [OF step.hyps(1)]] by metis
qed

text \<open>
  C18: The words of a connection are well formed. In every state a client can bring its open
  connection to, the HELO name, the sender, the recipient and both addresses are single lines
  without NUL, whatever bytes it sent and however it framed them. So none of them can split a
  frame of the message stream or the key of a database entry. The zone in the address of the TCP
  peer and the result of the lookup of original destinations are assumed to have this form.
\<close>

theorem words_are_clean:
  assumes "session cfg dp c" "\<not> c_closed c" "dst_clean dp" "clean (zone_of (fst (c_src c)))"
  shows "clean (c_helo c) \<and> clean (c_mail c) \<and> clean (c_rcpt c) \<and> clean (c_src_addr c) \<and> clean (c_dst_addr c)"
  using session_words_ok [OF assms(1,3,4)] assms(2) by (simp add: words_ok_def)

theorem words_are_clean_witness: "clean (c_src_addr hasty_client) \<and> clean (c_helo hasty_client)"
proof -
  have s: "session example_config example_deps hasty_client" unfolding hasty_client_def by (rule session.start)
  have "zone_of (fst (c_src hasty_client)) = []" by code_simp
  moreover have "dst_clean example_deps" by (simp add: dst_clean_def example_deps_def)
  ultimately show ?thesis using words_are_clean [OF s hasty_client_open] by simp
qed

subsection \<open>From the client to the database\<close>

lemma strip_runes_nul: "nul \<notin> set v \<Longrightarrow> nul \<notin> set (strip_runes v)"
proof (induction v rule: strip_runes.induct)
  case (2 c cs)
  have "nul \<notin> set (take (rune_len (c # cs)) (c # cs))" "nul \<notin> set (drop (rune_len (c # cs)) (c # cs))"
    using "2.prems" by (meson in_set_takeD in_set_dropD)+
  with 2 show ?case by (auto simp: Let_def replacement_def)
qed simp

lemma sanitize_nul: "clean v \<Longrightarrow> nul \<notin> set (sanitize v)"
  by (simp add: sanitize_def clean_def strip_runes_nul)

definition reported_tuple :: "conn \<Rightarrow> tuple" where
  "reported_tuple c =
     \<lparr>t_ip = sanitize (c_src_addr c), t_helo = sanitize (c_helo c), t_from = sanitize (c_mail c), t_to = sanitize (c_rcpt c)\<rparr>"

lemma read_report:
  assumes "words_ok c" "length (grey_frame c) \<le> m"
  shows "next_message m (grey_frame c @ r) = (Inr (GreyMessage (reported_tuple c) (sanitize (c_dst_addr c)) True), r)"
    and "tuple_ok (reported_tuple c)"
  using assms read_grey sanitize_nul
  by (simp_all add: grey_frame_def reported_tuple_def words_ok_def clean_def tuple_ok_def)

lemma run_reader_one:
  assumes "next_message default_max_frame f = (Inr (GreyMessage t dst so), [])" "tuple_ok t" "is_i64 (unix (clock n))" "mem_db.good s"
  shows "\<exists>s' evs. run_reader memory_ops g clock n f s = (s', evs) \<and> mem_db.good s' \<and>
     mem_contents s' = grey_effect g (clock n) t so dst (mem_contents s)"
proof -
  obtain s' evs where p: "process_grey memory_ops g None (clock n) t so dst s = (None, s', evs)" "mem_db.good s'"
    "mem_contents s' = grey_effect g (clock n) t so dst (mem_contents s)"
    using mem_db.process_grey_effect [OF assms(4,2,3)] by blast
  have "run_reader memory_ops g clock (Suc n) [] s' = (s', [])"
    by (simp add: run_reader.simps [of _ _ _ _ "[]"] next_message_EOF)
  then show ?thesis using p assms(1) by (simp add: run_reader.simps [of _ _ _ n f] process_message_def)
qed

text \<open>
  C8: A report arrives. When a step of a connection reports an envelope, the greylister that reads
  the stream decodes it and updates the database exactly as the rules of greylisting say for the
  tuple of this client, sanitised, at the time of reading. No client can make the report
  unreadable, and nothing else changes.
\<close>

theorem report_reaches_database:
  assumes "session cfg dp c" "\<not> c_closed c" "dst_clean dp" "clean (zone_of (fst (c_src c)))"
    and "serve_step cfg dp now sh c = (sh', c')" "sh_grey sh = []" "sh_grey sh' \<noteq> []" "length (sh_grey sh') \<le> default_max_frame"
    and "runs memory_ops g mem_new h s" "is_i64 (unix (clock n))"
  shows "\<exists>s' evs. run_reader memory_ops g clock n (sh_grey sh') s = (s', evs) \<and>
     mem_contents s' = grey_effect g (clock n) (reported_tuple c') True (sanitize (c_dst_addr c')) (mem_contents s)"
proof -
  note flow = session_flow [OF assms(1)]
  have "words_ok c" using session_words_ok [OF assms(1,3,4)] assms(2) by simp
  then have w: "words_ok c'" using words_serve_step [OF _ assms(3,2) flow, of cfg now sh] assms(5-7) by auto
  have f: "sh_grey sh' = grey_frame c'"
    using serve_step_report [OF assms(2) flow, of cfg dp sh now] assms(5-7) by (simp add: report_ok_def)
  have "next_message default_max_frame (grey_frame c') = (Inr (GreyMessage (reported_tuple c') (sanitize (c_dst_addr c')) True), [])"
    using read_report(1) [OF w, of default_max_frame "[]"] assms(8) f by simp
  then show ?thesis unfolding f
    using run_reader_one [of "grey_frame c'" _ _ _ clock n s g] read_report(2) [OF w] assms(8,10) mem_runs_inv [OF assms(9)] f by metis
qed

definition new_client :: conn where
  "new_client = snd (new_conn example_config example_deps 0 example_shared
     \<lparr>rw_input = [''MAIL FROM:<a@b>'' @ crnl, ''RCPT TO:<c@d>'' @ crnl], rw_sent = [], rw_writes = None\<rparr>
     (Addr4 0xc0000207, 4000) (Addr4 0xc0000219, 25))"

definition mail_client :: conn where
  "mail_client = hasty_step (hasty_step (hasty_step new_client))"

lemma mail_client_steps: "\<not> c_closed new_client" "\<not> c_closed (hasty_step new_client)" "\<not> c_closed (hasty_step (hasty_step new_client))"
  "(c_closed mail_client, fst (c_src mail_client), c_mail mail_client) = (False, Addr4 0xc0000207, ''a@b'')"
  by code_simp+

lemma mail_client_report:
  "(let (sh, c) = serve_step example_config example_deps 1 example_shared mail_client
    in (sh_grey sh = grey_frame c, length (grey_frame c) < 200, sh_grey sh = [], reported_tuple c)) =
   (True, True, False, \<lparr>t_ip = ''192.0.2.7'', t_helo = [], t_from = ''a@b'', t_to = ''c@d''\<rparr>)"
  by code_simp

theorem report_reaches_database_witness:
  "\<exists>sh c s evs. serve_step example_config example_deps 1 example_shared mail_client = (sh, c) \<and>
     run_reader memory_ops default_greylister (\<lambda>_. 0) 0 (sh_grey sh) mem_new = (s, evs) \<and>
     mem_contents s = grey_effect default_greylister 0 \<lparr>t_ip = ''192.0.2.7'', t_helo = [], t_from = ''a@b'', t_to = ''c@d''\<rparr>
       True (sanitize (c_dst_addr c)) Map.empty"
proof -
  obtain sh c where r: "serve_step example_config example_deps 1 example_shared mail_client = (sh, c)" by (rule prod.exhaust)
  have m: "mail_client = hasty_step (hasty_step (hasty_step new_client))" by (simp add: mail_client_def)
  have "session example_config example_deps new_client" unfolding new_client_def by (rule session.start)
  then have s: "session example_config example_deps mail_client"
    unfolding m hasty_step_def using mail_client_steps(1-3) by (intro session.step) (simp_all add: hasty_step_def)
  note p = mail_client_report [unfolded r, simplified]
  have "length (sh_grey sh) \<le> default_max_frame" using p by (simp add: default_max_frame_def)
  moreover have "sh_grey example_shared = []" "dst_clean example_deps"
    by (simp_all add: example_shared_def dst_clean_def example_deps_def)
  moreover have "is_i64 (unix 0)" by (simp add: unix_def is_i64_def)
  ultimately show ?thesis
    using report_reaches_database [OF s _ _ _ r _ _ _ runs.start, of "\<lambda>_. 0" 0 default_greylister] mail_client_steps(4) p r mem_new_good(2)
    by auto
qed

end
