(* ===== verification/Sync_Report.thy ===== *)
theory Sync_Report
  imports Sync_Engine Smtp_Report
begin

text \<open>
  From one host to another: a tuple that the engine of one host announces arrives in the database of
  another host with the same key.
\<close>

definition announced_tuple :: "tuple \<Rightarrow> u32 \<Rightarrow> tuple" where
  "announced_tuple t w =
     \<lparr>t_ip = addr_string (Addr4 w), t_helo = sanitize (t_helo t), t_from = sanitize (t_from t), t_to = sanitize (t_to t)\<rparr>"

lemma quad_plain [simp]: "plain_text (dotted_quad w)"
  using itoa_text(2) by (simp add: dotted_quad_def plain_text_def)

lemma recv_grey:
  assumes "CHR 0x00 \<notin> set (t_helo t @ t_from t @ t_to t)" "hdr_len + grey_length (t_helo t) (t_from t) (t_to t) + end_len \<le> max_size"
    and "accept_counter order now src counter r = (True, r')" "\<not> (is_valid (sy_sync_in r) \<and> unmap src = sy_sync_in r)" "sy_grey_ok r"
    and "sk_open sk" "sk_ok sk"
  shows "recv order now src (encode_grey (sy_key r) counter (Addr4 w) (t_helo t) (t_from t) (t_to t) sent) r sk =
     Some (True, r', sk\<lparr>sk_data := sk_data sk @ write_grey_from_sync (addr_string (Addr4 w)) (t_helo t) (t_from t) (t_to t)\<rparr>)"
proof -
  let ?pkt = "encode_grey (sy_key r) counter (Addr4 w) (t_helo t) (t_from t) (t_to t) sent"
  have l: "length ?pkt = hdr_len + grey_length (t_helo t) (t_from t) (t_to t) + end_len"
    unfolding encode_grey_record sign_def by (simp add: hmac_len_def put_header_def put_end_def grey_record_length hdr_len_def end_len_def)
  then have t: "take max_size ?pkt = ?pkt" "?pkt \<noteq> []" using assms(2) by (auto simp: hdr_len_def)
  have "hdr_len + grey_length (t_helo t) (t_from t) (t_to t) + end_len < 65536" using assms(2) by (simp add: max_size_def)
  then have "sync_decode (sy_key r) ?pkt = Some (Inr \<lparr>pk_counter = counter, pk_entries = [grey_entry w (t_helo t) (t_from t) (t_to t)]\<rparr>)"
    using decode_encoded(1) assms(1) by simp
  then show ?thesis using t assms(3-7) by (auto simp: recv_def Let_def grey_entry_def)
qed


definition example_sender :: sync_engine where
  "example_sender = (blank_engine example_sync True)\<lparr>sy_open := True, sy_hosts := [(''peer'', example_peer)]\<rparr>"


text \<open>An IPv6 address has no form on the wire: it is announced as 0.0.0.0.\<close>

lemma ipv6_announced_as_zero:
  assumes "unmap ip = Addr6 w z"
  shows "encode_grey k counter ip helo mail rcpt now = encode_grey k counter (Addr4 0) helo mail rcpt now"
    "encode_addr k counter ty ip now expire = encode_addr k counter ty (Addr4 0) now expire"
  using assms by (simp_all add: encode_grey_def encode_addr_def ip4_def put_u32_def)

end
