(* ===== verification/Smtp_Server.thy ===== *)
theory Smtp_Server
  imports Smtp_Session
begin

text \<open>
  The server of \<open>internal/smtp/server.go\<close>: connections are accepted under the limits, and the
  handlers of all live connections run interleaved on the shared counters. The theory shows that
  slots are neither leaked nor released twice and that the limits hold at every moment.
\<close>

subsection \<open>What a connection holds\<close>

definition held :: "conn \<Rightarrow> live_conns" where
  "held c = (if c_closed c then {#} else {#(c_reserved_src c, c_black c)#})"

definition accounted :: "live_conns \<Rightarrow> conn_state \<Rightarrow> bool" where
  "accounted L s \<longleftrightarrow> tally (sh_counters (fst s)) (held (snd s) + L)"

definition limits :: "shared \<Rightarrow> int \<times> int \<times> int" where
  "limits sh = (k_max_cons (sh_counters sh), k_max_black (sh_counters sh), k_max_cons_per_source (sh_counters sh))"

text \<open>An operation keeps the books: what is accounted for before is accounted for after it.\<close>

definition books_kept :: "shared \<Rightarrow> conn \<Rightarrow> conn_state \<Rightarrow> bool" where
  "books_kept sh c s \<longleftrightarrow> limits (fst s) = limits sh \<and> (\<forall>L. accounted L (sh, c) \<longrightarrow> accounted L s)"

lemma books_kept_refl [simp]: "books_kept sh c (sh, c)" by (simp add: books_kept_def)

lemma books_kept_trans:
  "books_kept sh c s \<Longrightarrow> books_kept (fst s) (snd s) s' \<Longrightarrow> books_kept sh c s'"
  by (simp add: books_kept_def)

lemma books_kept_same:
  assumes "held c' = held c" "sh_counters sh' = sh_counters sh"
  shows "books_kept sh c (sh', c')"
  using assms by (simp add: books_kept_def accounted_def limits_def)

lemma books_kept_total:
  assumes "held c' = held c" "sh_counters sh' = add_total f (sh_counters sh)"
  shows "books_kept sh c (sh', c')"
  using assms by (simp add: books_kept_def accounted_def limits_def)

lemma limits_ops [simp]:
  "k_max_cons (remove_conn a b k) = k_max_cons k" "k_max_black (remove_conn a b k) = k_max_black k"
  "k_max_cons_per_source (remove_conn a b k) = k_max_cons_per_source k"
  "k_max_cons (reassign_source a a' k) = k_max_cons k" "k_max_black (reassign_source a a' k) = k_max_black k"
  "k_max_cons_per_source (reassign_source a a' k) = k_max_cons_per_source k"
  "k_max_cons (snd (mark_black k)) = k_max_cons k" "k_max_black (snd (mark_black k)) = k_max_black k"
  "k_max_cons_per_source (snd (mark_black k)) = k_max_cons_per_source k"
  by (simp_all add: remove_conn_def reassign_source_def mark_black_def Let_def)

lemma close_books: "books_kept sh c (close_conn sh c)"
  using remove_tally
  by (simp add: books_kept_def close_conn_def accounted_def held_def limits_def on_counters_def)

lemma held_moves [simp]:
  "held (set_out s c) = held c" "held (set_read c) = held c" "held (go_to st c) = held c"
  by (simp_all add: held_def moves)

lemma held_updates [simp]:
  "held (c\<lparr>c_state := st\<rparr>) = held c" "held (c\<lparr>c_in := i\<rparr>) = held c" "held (c\<lparr>c_rcpt := s\<rparr>) = held c"
  "held (c\<lparr>c_mail := s\<rparr>) = held c" "held (c\<lparr>c_helo := s\<rparr>) = held c" "held (c\<lparr>c_bad_cmd := n\<rparr>) = held c"
  "held (c\<lparr>c_data_body := b\<rparr>) = held c" "held (c\<lparr>c_data_lines := n\<rparr>) = held c" "held (c\<lparr>c_w := b\<rparr>) = held c"
  "held (c\<lparr>c_r := b\<rparr>) = held c" "held (c\<lparr>c_in_buf := s\<rparr>) = held c" "held (c\<lparr>c_proxy_v2 := p\<rparr>) = held c"
  "held (c\<lparr>c_dst_addr := s\<rparr>) = held c" "held (c\<lparr>c_rw := w\<rparr>) = held c" "held (c\<lparr>c_seen_cr := b\<rparr>) = held c"
  "held (c\<lparr>c_out_pos := q\<rparr>) = held c" "held (c\<lparr>c_src_addr := s\<rparr>) = held c" "held (c\<lparr>c_stutter := k\<rparr>) = held c"
  "held (c\<lparr>c_list_summary := s\<rparr>) = held c" "held (lookup_orig_dst cfg dp c) = held c" "held (stop_stutter cfg now c) = held c"
  by (simp_all add: held_def lookup_orig_dst_def stop_stutter_def)

lemma reply_books: "held c' = held c \<Longrightarrow> books_kept sh c (state_reply cfg sh c')"
  by (auto simp: state_reply_def build_reply_def on_counters_def intro: books_kept_total)

lemma data_in_books: "books_kept sh c (state_data_in cfg sh c)"
  by (auto simp: state_data_in_def Let_def intro: books_kept_same reply_books)

lemma rcpt_in_books: "books_kept sh c (state_rcpt_in cfg dp sh c)"
  using data_in_books by (auto simp: state_rcpt_in_def Let_def on_counters_def intro: books_kept_same books_kept_total)

lemma mail_in_books: "books_kept sh c (state_mail_in cfg dp sh c)"
  using rcpt_in_books by (auto simp: state_mail_in_def intro: books_kept_same)

lemma helo_in_books: "books_kept sh c (state_helo_in cfg dp sh c)"
  using mail_in_books by (auto simp: state_helo_in_def Let_def intro: books_kept_same)

lemma message_books: "books_kept sh c (state_message cfg sh c)"
  by (auto simp: state_message_def Let_def intro: books_kept_same reply_books split: prod.splits)

lemma banner_books: "held c' = held c \<Longrightarrow> books_kept sh c (state_banner_in cfg dp now sh c')"
  by (auto simp: state_banner_in_def intro: books_kept_same)

lemma rematch_books:
  assumes "\<not> c_closed c"
  shows "books_kept sh c (rematch_after_proxy cfg sh c)"
proof -
  let ?b = "c_black (match_blacklists cfg sh c)"
  have m: "c_closed (match_blacklists cfg sh c) = c_closed c" "c_reserved_src (match_blacklists cfg sh c) = c_reserved_src c"
    by (simp_all add: match_blacklists_def Let_def)
  consider "?b = c_black c" | "?b" "\<not> c_black c" | "\<not> ?b" "c_black c" by blast
  then show ?thesis
  proof cases
    case 1
    then show ?thesis using assms m
      by (simp add: rematch_after_proxy_def books_kept_def accounted_def held_def Let_def)
  next
    case 2
    then show ?thesis using assms m mark_black_tally
      by (simp add: rematch_after_proxy_def books_kept_def accounted_def held_def limits_def on_counters_def Let_def)
  next
    case 3
    then show ?thesis using assms m unmark_black_tally
      by (simp add: rematch_after_proxy_def books_kept_def accounted_def held_def limits_def on_counters_def Let_def)
  qed
qed

lemma reassign_books:
  assumes "\<not> c_closed c"
  shows "books_kept sh c
     (on_counters (\<lambda>k. reassign_source (c_reserved_src c) a (add_total f k)) sh, c\<lparr>c_reserved_src := a, c_src_addr := s, c_dst_addr := d\<rparr>)"
  using assms reassign_tally by (simp add: books_kept_def accounted_def held_def limits_def on_counters_def)

lemma apply_proxy_books:
  assumes "\<not> c_closed c"
  shows "books_kept sh c (snd (apply_proxy_header cfg sh c))"
proof -
  let ?c = "c\<lparr>c_proxy_v2 := None\<rparr>"
  have none: "books_kept sh c (sh, ?c)" by (rule books_kept_same) simp_all
  have local: "books_kept sh c (on_counters (add_total tt_proxy_headers_update) sh, ?c)"
    by (rule books_kept_total [where f = tt_proxy_headers_update]) (simp_all add: on_counters_def)
  have moved: "books_kept sh c (rematch_after_proxy cfg
      (on_counters (\<lambda>k. reassign_source (c_reserved_src ?c) (unmap src) (add_total tt_proxy_headers_update k)) sh)
      (?c\<lparr>c_reserved_src := unmap src, c_src_addr := x, c_dst_addr := y\<rparr>))" for src x y
  proof (rule books_kept_trans [OF books_kept_trans [OF none]])
    show "books_kept (fst (sh, ?c)) (snd (sh, ?c)) (on_counters (\<lambda>k. reassign_source (c_reserved_src ?c) (unmap src)
        (add_total tt_proxy_headers_update k)) sh, ?c\<lparr>c_reserved_src := unmap src, c_src_addr := x, c_dst_addr := y\<rparr>)"
      using reassign_books [where c = ?c and s = x and d = y] assms by simp
  qed (use assms in \<open>simp add: rematch_books\<close>)
  show ?thesis using none local moved
    by (auto simp: apply_proxy_header_def adopt_header_def split: option.splits sum.splits)
qed

lemma proxy_out_books:
  assumes "\<not> c_closed c"
  shows "books_kept sh c (state_proxy_out cfg dp now sh c)"
proof -
  obtain ok sh' c' where a: "apply_proxy_header cfg sh c = (ok, sh', c')" by (rule prod_cases3)
  have "books_kept sh c (sh', c')" using apply_proxy_books [OF assms, of sh cfg] a by simp
  then show ?thesis using books_kept_trans [of sh c "(sh', c')"] banner_books reply_books
    by (simp add: state_proxy_out_def a)
qed

lemma next_state_books: "books_kept sh c (next_state cfg dp now sh c)"
proof (cases "c_closed c \<or> quits c \<or> resets c")
  case True
  then show ?thesis by (auto simp: next_state_def intro: books_kept_same)
next
  case False
  then have n: "next_state cfg dp now sh c = dispatch cfg dp now sh c" by (simp add: next_state_def)
  show ?thesis unfolding n dispatch_def
    using False proxy_out_books banner_books helo_in_books mail_in_books rcpt_in_books data_in_books message_books
      reply_books close_books
    by (cases "c_state c") (simp_all add: books_kept_same)
qed

lemma held_same_but_input: "same_but_input c c' \<Longrightarrow> held c' = held c"
  using same_but_input_fields [of c c'] by (simp add: held_def)

text \<open>The reading loops close the connection or only take input.\<close>

lemma close_books_same: "held c' = held c \<Longrightarrow> books_kept sh c (close_conn sh c')"
  using books_kept_trans [OF books_kept_same [of c' c sh sh]] close_books by simp

lemma read_chunk_books: "books_kept sh c (snd (read_chunk n sh c))"
  by (auto simp: read_chunk_def Let_def intro: books_kept_same close_books_same split: list.splits)

lemma read_line_books: "books_kept sh c (snd (read_line_loop limit sh c))"
proof (induction limit sh c rule: read_line_loop.induct)
  case (1 limit sh c)
  obtain ok sh' c' where r: "read_chunk (limit - length (c_in c)) sh c = (ok, sh', c')" by (rule prod_cases3)
  have b: "books_kept sh c (sh', c')" using read_chunk_books [of sh c "limit - length (c_in c)"] r by simp
  show ?case
  proof (cases "length (c_in c) < limit \<and> ok \<and> nl \<notin> set (drop (length (c_in c)) (c_in c'))")
    case True
    then have "books_kept sh' c' (snd (read_line_loop limit sh' c'))" using "1.IH" [OF _ r [symmetric] _ refl] by simp
    then have "books_kept sh c (snd (read_line_loop limit sh' c'))" using books_kept_trans [OF b] by simp
    then show ?thesis using True r by (simp add: read_line_loop.simps [of limit sh c])
  next
    case False
    then show ?thesis using b r by (cases ok) (auto simp: read_line_loop.simps [of limit sh c])
  qed
qed

lemma read_while_books: "books_kept sh c (snd (read_while p n sh c))"
proof (induction p n sh c rule: read_while.induct)
  case (1 p n sh c)
  obtain ok sh' c' where r: "read_chunk (n - length (c_in c)) sh c = (ok, sh', c')" by (rule prod_cases3)
  have b: "books_kept sh c (sh', c')" using read_chunk_books [of sh c "n - length (c_in c)"] r by simp
  show ?case
  proof (cases "(length (c_in c) < n \<and> p (c_in c)) \<and> ok")
    case True
    then have "books_kept sh' c' (snd (read_while p n sh' c'))" using "1.IH" [OF _ r [symmetric] _ refl] by simp
    then have "books_kept sh c (snd (read_while p n sh' c'))" using books_kept_trans [OF b] by simp
    then show ?thesis using True r by (simp add: read_while.simps [of p n sh c])
  next
    case False
    then show ?thesis using b r by (cases ok) (auto simp: read_while.simps [of p n sh c])
  qed
qed

lemma then_next_state: "books_kept sh c (sh', c') \<Longrightarrow> held c'' = held c' \<Longrightarrow> books_kept sh c (next_state cfg dp now sh' c'')"
proof -
  assume b: "books_kept sh c (sh', c')" and h: "held c'' = held c'"
  have "books_kept sh c (sh', c'')" using books_kept_trans [OF b] books_kept_same [OF h refl] by simp
  then show ?thesis using books_kept_trans next_state_books by fastforce
qed

lemma finish_line_books: "books_kept sh c (sh', c') \<Longrightarrow> books_kept sh c (finish_line cfg dp now sh' c')"
  unfolding finish_line_def by (rule then_next_state) simp_all

lemma read_v1_books:
  assumes "books_kept sh c (sh', c')"
  shows "books_kept sh c (read_v1 cfg dp now sh' c')"
proof -
  obtain ok sh1 c1 where r: "read_while (\<lambda>s. nl \<notin> set s) (min (line_limit cfg) max_proxy_header) sh' c' = (ok, sh1, c1)"
    by (rule prod_cases3)
  have b: "books_kept sh c (sh1, c1)" using books_kept_trans [OF assms] read_while_books [of sh' c'] r by (metis fst_conv snd_conv)
  have "books_kept sh c (sh1, c1\<lparr>c_in := i\<rparr>)" for i using books_kept_trans [OF b] books_kept_same by simp
  then show ?thesis using b r finish_line_books by (cases ok) (auto simp: read_v1_def)
qed

lemma read_v2_books:
  assumes "books_kept sh c (sh', c')"
  shows "books_kept sh c (read_v2 cfg dp now sh' c')"
proof -
  obtain ok sh1 c1 where r: "read_while (\<lambda>_. True) proxy_v2_header_len sh' c' = (ok, sh1, c1)" by (rule prod_cases3)
  have b: "books_kept sh c (sh1, c1)" using books_kept_trans [OF assms] read_while_books [of sh' c'] r by (metis fst_conv snd_conv)
  let ?n = "proxy_v2_header_len + declared_length (c_in c1)"
  obtain ok2 sh2 c2 where r2: "read_while (\<lambda>_. True) ?n sh1 c1 = (ok2, sh2, c2)" by (rule prod_cases3)
  have b2: "books_kept sh c (sh2, c2)" using books_kept_trans [OF b] read_while_books [of sh1 c1] r2 by (metis fst_conv snd_conv)
  have "books_kept sh c (close_conn sh1 c1)" using books_kept_trans [OF b] close_books by simp
  moreover have "books_kept sh c (next_state cfg dp now sh2 (c2\<lparr>c_proxy_v2 := Some (c_in c2), c_in_buf := [], c_r := False\<rparr>))"
    by (rule then_next_state [OF b2]) simp
  ultimately show ?thesis using b b2 r r2 by (cases ok; cases ok2) (simp_all add: read_v2_def Let_def)
qed

lemma handle_read_books: "books_kept sh c (handle_read cfg dp now sh c)"
proof -
  obtain ok sh1 c1 where r: "read_line_loop (line_limit cfg) sh c = (ok, sh1, c1)" by (rule prod_cases3)
  have b: "books_kept sh c (sh1, c1)" using read_line_books [of sh c "line_limit cfg"] r by simp
  obtain ok2 sh2 c2 where r2: "read_while (has_prefix proxy_v2_signature) (length proxy_v2_signature) sh c = (ok2, sh2, c2)"
    by (rule prod_cases3)
  have b2: "books_kept sh c (sh2, c2)" using read_while_books [of sh c] r2 by (metis snd_conv)
  have "books_kept sh c (read_proxy_header cfg dp now sh c)"
    using b2 r2 read_v1_books [OF b2] read_v2_books [OF b2] by (cases ok2) (simp_all add: read_proxy_header_def)
  then show ?thesis using b r finish_line_books [OF b] by (cases ok) (auto simp: handle_read_def)
qed

lemma handle_write_books: "books_kept sh c (handle_write cfg dp now sh c)"
proof -
  let ?c = "stop_stutter cfg now c"
  obtain ok c1 where w: "(if 0 < out_remaining ?c then write_out sh ?c else (True, ?c)) = (ok, c1)" by (rule prod.exhaust)
  have "held c1 = held c" using w write_out_same [of sh ?c ok c1] by (auto split: if_splits)
  then have b: "books_kept sh c (sh, c1)" by (rule books_kept_same) simp
  show ?thesis using b books_kept_trans [OF b] close_books then_next_state [OF b] w by (auto simp: handle_write_def)
qed

lemma serve_step_books: "books_kept sh c (serve_step cfg dp now sh c)"
  by (simp add: serve_step_def handle_write_books handle_read_books close_books)

subsection \<open>Accepting and serving\<close>

text \<open>
  \<open>ServeListener\<close> takes a slot before it starts the goroutine of a connection, so a connection
  may hold a slot before \<open>NewConn\<close> has run: it is pending.
\<close>

type_synonym pending_conn = "addr_port \<times> addr_port \<times> rw"

record server =
  sv_shared :: shared
  sv_pending :: "pending_conn list"
  sv_conns :: "conn list"

definition new_server :: "config \<Rightarrow> shared \<Rightarrow> server" where
  "new_server cfg sh =
     \<lparr>sv_shared = on_counters (\<lambda>k. k\<lparr>k_max_cons_per_source := cf_max_cons_per_source cfg\<rparr>) sh,
      sv_pending = [], sv_conns = []\<rparr>"

text \<open>The body of the accept loop for an accepted connection: it is refused or becomes pending.\<close>

definition accept_conn :: "pending_conn \<Rightarrow> server \<Rightarrow> server" where
  "accept_conn p sv =
     (let (ok, k) = reserve (unmap (fst (fst p))) (sh_counters (sv_shared sv));
          sv1 = sv\<lparr>sv_shared := (sv_shared sv)\<lparr>sh_counters := k\<rparr>\<rparr>
      in if ok then sv1\<lparr>sv_pending := sv_pending sv1 @ [p]\<rparr> else sv1)"

text \<open>
  One step of the server: a connection arrives, a pending one is set up, a live one handles its
  next read or write, a closed one is forgotten, or the daemon installs new blacklists or finds
  the state of its stream to the greylister changed.
\<close>

inductive server_step :: "config \<Rightarrow> deps \<Rightarrow> server \<Rightarrow> server \<Rightarrow> bool" for cfg :: config and dp :: deps where
  accept: "server_step cfg dp sv (accept_conn p sv)"
| handle: "sv_pending sv = ps @ (src, local, w) # qs \<Longrightarrow> new_conn cfg dp now (sv_shared sv) w src local = (sh, c) \<Longrightarrow>
    server_step cfg dp sv (sv\<lparr>sv_shared := sh, sv_pending := ps @ qs, sv_conns := sv_conns sv @ [c]\<rparr>)"
| serve: "sv_conns sv = cs @ c # ds \<Longrightarrow> \<not> c_closed c \<Longrightarrow> serve_step cfg dp now (sv_shared sv) c = (sh, c') \<Longrightarrow>
    server_step cfg dp sv (sv\<lparr>sv_shared := sh, sv_conns := cs @ c' # ds\<rparr>)"
| finish: "sv_conns sv = cs @ c # ds \<Longrightarrow> c_closed c \<Longrightarrow> server_step cfg dp sv (sv\<lparr>sv_conns := cs @ ds\<rparr>)"
| environment: "sh_counters sh = sh_counters (sv_shared sv) \<Longrightarrow> server_step cfg dp sv (sv\<lparr>sv_shared := sh\<rparr>)"

definition waiting :: "pending_conn \<Rightarrow> live_conns" where
  "waiting p = {#(unmap (fst (fst p)), False)#}"

definition live_set :: "server \<Rightarrow> live_conns" where
  "live_set sv = sum_list (map waiting (sv_pending sv)) + sum_list (map held (sv_conns sv))"

lemma initial_held:
  "held (initial_conn cfg now w src local) = {#(unmap (fst src), False)#}"
  by (simp add: held_def initial_conn_def)

lemma new_conn_books:
  assumes "tally (sh_counters sh) (add_mset (unmap (fst src), False) L)"
  shows "limits (fst (new_conn cfg dp now sh w src local)) = limits sh \<and> accounted L (new_conn cfg dp now sh w src local)"
proof -
  let ?c = "match_blacklists cfg sh (initial_conn cfg now w src local)"
  have c: "c_closed ?c = False" "c_reserved_src ?c = unmap (fst src)" by (simp_all add: match_blacklists_def initial_conn_def Let_def)
  show ?thesis
  proof (cases "c_black ?c")
    case True
    obtain b k where k: "mark_black (sh_counters sh) = (b, k)" by (rule prod.exhaust)
    let ?st = "if cf_proxy_protocol cfg then StateProxyIn else StateBannerIn"
    let ?c2 = "?c\<lparr>c_list_summary := summarize_lists (c_lists ?c),
      c_stutter := (if cf_greylist cfg \<and> k_max_black k < b then 0 else c_stutter ?c), c_state := ?st\<rparr>"
    have n: "new_conn cfg dp now sh w src local = next_state cfg dp now (sh\<lparr>sh_counters := k\<rparr>) ?c2"
      using True k by (simp add: new_conn_def Let_def)
    have "accounted L (sh\<lparr>sh_counters := k\<rparr>, ?c2)"
      using mark_black_tally [OF assms] k True c by (simp add: accounted_def held_def)
    moreover have "limits (sh\<lparr>sh_counters := k\<rparr>) = limits sh" using k limits_ops(7-9) [of "sh_counters sh"] by (simp add: limits_def)
    ultimately show ?thesis using next_state_books [of "sh\<lparr>sh_counters := k\<rparr>" ?c2 cfg dp now] by (simp add: n books_kept_def)
  next
    case False
    let ?c2 = "?c\<lparr>c_state := (if cf_proxy_protocol cfg then StateProxyIn else StateBannerIn)\<rparr>"
    have n: "new_conn cfg dp now sh w src local = next_state cfg dp now sh ?c2" using False by (simp add: new_conn_def Let_def)
    have "accounted L (sh, ?c2)" using assms False c by (simp add: accounted_def held_def)
    then show ?thesis using next_state_books [of sh ?c2 cfg dp now] by (simp add: n books_kept_def)
  qed
qed

definition server_inv :: "int \<Rightarrow> server \<Rightarrow> bool" where
  "server_inv max_cons sv \<longleftrightarrow> tally (sh_counters (sv_shared sv)) (live_set sv) \<and>
     k_max_cons (sh_counters (sv_shared sv)) = max_cons \<and> (0 < max_cons \<longrightarrow> int (size (live_set sv)) \<le> max_cons)"

lemma accept_inv:
  assumes "server_inv n sv"
  shows "server_inv n (accept_conn p sv)"
proof -
  let ?k = "sh_counters (sv_shared sv)"
  obtain ok k where r: "reserve (unmap (fst (fst p))) ?k = (ok, k)" by (rule prod.exhaust)
  have t: "tally ?k (live_set sv)" using assms by (simp add: server_inv_def)
  have m: "k_max_cons k = k_max_cons ?k" using r by (auto simp: reserve_def split: if_splits)
  have live: "live_set (accept_conn p sv) = (if ok then add_mset (unmap (fst (fst p)), False) (live_set sv) else live_set sv)"
    using r by (simp add: accept_conn_def live_set_def waiting_def)
  have sh: "sh_counters (sv_shared (accept_conn p sv)) = k" using r by (simp add: accept_conn_def Let_def)
  show ?thesis using assms reserve_tally [OF t, of "unmap (fst (fst p))" k] r m live sh
    by (cases ok) (auto simp: server_inv_def)
qed

lemma server_step_inv:
  assumes "server_step cfg dp sv sv'" "server_inv n sv"
  shows "server_inv n sv'"
  using assms
proof cases
  case (accept p)
  then show ?thesis using accept_inv [OF assms(2)] by simp
next
  case (handle ps src local w qs now sh c)
  let ?L = "sum_list (map waiting (ps @ qs)) + sum_list (map held (sv_conns sv))"
  have l: "live_set sv = add_mset (unmap (fst src), False) ?L" using handle by (simp add: live_set_def waiting_def)
  have "limits sh = limits (sv_shared sv) \<and> accounted ?L (sh, c)"
    using new_conn_books [of "sv_shared sv" src ?L cfg dp now w local] handle assms(2) l by (simp add: server_inv_def)
  then show ?thesis using assms(2) l handle
    by (auto simp: server_inv_def limits_def accounted_def live_set_def held_def ac_simps)
next
  case (serve cs c ds now sh c')
  let ?L = "sum_list (map waiting (sv_pending sv)) + sum_list (map held (cs @ ds))"
  have l: "live_set sv = held c + ?L" using serve by (simp add: live_set_def ac_simps)
  have "limits sh = limits (sv_shared sv) \<and> accounted ?L (sh, c')"
    using serve_step_books [of "sv_shared sv" c cfg dp now] serve assms(2) l by (auto simp: server_inv_def books_kept_def accounted_def)
  then show ?thesis using assms(2) l serve
    by (auto simp: server_inv_def limits_def accounted_def live_set_def held_def ac_simps)
next
  case (finish cs c ds)
  then have "live_set sv' = live_set sv" by (simp add: live_set_def held_def)
  then show ?thesis using assms(2) finish by (simp add: server_inv_def)
next
  case (environment sh)
  then show ?thesis using assms(2) by (simp add: server_inv_def live_set_def)
qed

lemma sum_list_size: "size (sum_list (map f xs)) = sum_list (map (\<lambda>x. size (f x)) xs)" for f :: "'a \<Rightarrow> 'b multiset"
  by (induction xs) simp_all

lemma sum_list_filter_mset: "filter_mset P (sum_list (map f xs)) = sum_list (map (\<lambda>x. filter_mset P (f x)) xs)"
  by (induction xs) simp_all

lemma sum_list_length_filter: "sum_list (map (\<lambda>x. if P x then 1 else 0) xs) = length (filter P xs)" for P :: "'a \<Rightarrow> bool"
  by (induction xs) simp_all

definition open_conns :: "server \<Rightarrow> conn list" where
  "open_conns sv = filter (\<lambda>c. \<not> c_closed c) (sv_conns sv)"

lemma size_live:
  "size (live_set sv) = length (sv_pending sv) + length (open_conns sv)"
  "size (filter_mset snd (live_set sv)) = length (filter c_black (open_conns sv))"
  "holders a (live_set sv) = length (filter (\<lambda>p. unmap (fst (fst p)) = a) (sv_pending sv)) +
     length (filter (\<lambda>c. c_reserved_src c = a) (open_conns sv))"
proof -
  have 1: "size (held c) = (if \<not> c_closed c then 1 else 0)" for c by (simp add: held_def)
  have 2: "size (filter_mset snd (held c)) = (if \<not> c_closed c \<and> c_black c then 1 else 0)" for c by (simp add: held_def)
  have 3: "size (filter_mset (\<lambda>x. fst x = a) (held c)) = (if \<not> c_closed c \<and> c_reserved_src c = a then 1 else 0)" for c
    by (simp add: held_def)
  have 4: "size (filter_mset (\<lambda>x. fst x = a) (waiting p)) = (if unmap (fst (fst p)) = a then 1 else 0)" for p
    by (simp add: waiting_def)
  show "size (live_set sv) = length (sv_pending sv) + length (open_conns sv)"
    by (simp add: live_set_def sum_list_size 1 sum_list_length_filter open_conns_def waiting_def sum_list_triv)
  show "size (filter_mset snd (live_set sv)) = length (filter c_black (open_conns sv))"
    by (simp add: live_set_def sum_list_filter_mset sum_list_size 2 sum_list_length_filter open_conns_def waiting_def conj_commute)
  show "holders a (live_set sv) = length (filter (\<lambda>p. unmap (fst (fst p)) = a) (sv_pending sv)) +
     length (filter (\<lambda>c. c_reserved_src c = a) (open_conns sv))"
    unfolding holders_def
    by (simp add: live_set_def sum_list_filter_mset sum_list_size 3 4 sum_list_length_filter open_conns_def conj_commute)
qed

text \<open>
  C6: The server keeps its books and its limits under every interleaving of arrivals, set-ups, reads,
  writes and closings. At every moment the number of clients is the number of connections that
  are pending or open, the number of blacklisted clients is the number of open blacklisted
  connections, each source is charged with exactly the connections that hold a slot for it, and
  with a limit set there are never more clients than the limit.
\<close>

theorem server_keeps_limits:
  assumes "(server_step cfg dp)\<^sup>*\<^sup>* (new_server cfg sh) sv" "sh_counters sh = new_counters max_cons max_black"
  shows "let k = sh_counters (sv_shared sv) in
     k_clients k = int (length (sv_pending sv) + length (open_conns sv)) \<and>
     k_black_clients k = int (length (filter c_black (open_conns sv))) \<and>
     (\<forall>a. is_valid a \<longrightarrow> source_count k a =
        int (length (filter (\<lambda>p. unmap (fst (fst p)) = a) (sv_pending sv)) +
             length (filter (\<lambda>c. c_reserved_src c = a) (open_conns sv)))) \<and>
     (0 < max_cons \<longrightarrow> k_clients k \<le> max_cons)"
proof -
  have "server_inv max_cons (new_server cfg sh)"
    using assms(2) by (simp add: server_inv_def new_server_def on_counters_def live_set_def tally_def new_counters_def)
  with assms(1) have inv: "server_inv max_cons sv" by (induction rule: rtranclp_induct) (auto intro: server_step_inv)
  then have t: "tally (sh_counters (sv_shared sv)) (live_set sv)" by (simp add: server_inv_def)
  show ?thesis using inv tally_source [OF t] t by (auto simp: Let_def server_inv_def tally_def size_live)
qed

definition example_client :: pending_conn where
  "example_client = ((Addr4 0xc0000207, 4000), (Addr4 0xc0000219, 25), \<lparr>rw_input = [''QUIT'' @ crnl], rw_sent = [], rw_writes = None\<rparr>)"

theorem server_keeps_limits_witness:
  "k_clients (sh_counters (sv_shared (accept_conn example_client (new_server example_config example_shared)))) = 1"
proof -
  have "(server_step example_config example_deps)\<^sup>*\<^sup>* (new_server example_config example_shared)
      (accept_conn example_client (new_server example_config example_shared))"
    by (rule r_into_rtranclp) (rule accept)
  from server_keeps_limits [OF this, of 800 700] show ?thesis
    by (simp add: example_shared_def Let_def)
      (simp add: accept_conn_def new_server_def open_conns_def reserve_def on_counters_def new_counters_def example_config_def)
qed

lemma serve_books:
  assumes "serve cfg dp clock (k, s) = Some (n, s')" "accounted L s"
  shows "accounted L s'"
proof -
  have "accounted L (snd (n, s'))"
  proof (rule while_option_rule [where P = "\<lambda>x. accounted L (snd x)", OF _ assms(1) [unfolded serve_def]])
    show "accounted L (snd (serve_body cfg dp clock x))" if "accounted L (snd x)" for x
      using that serve_step_books [of "fst (snd x)" "snd (snd x)" cfg dp "clock (fst x)"] by (simp add: serve_body_def books_kept_def)
  qed (use assms(2) in simp)
  then show ?thesis by simp
qed

text \<open>
  C11: Every dialogue comes to an end. Whatever the client sends and in whatever pieces, whether its
  writes fail or not, whatever the clock, the lists and the proxy settings, the loop of a new
  connection terminates with the connection closed, and the slot that was reserved for it is
  released exactly once.
\<close>

theorem dialogue_ends:
  assumes "tally (sh_counters sh) (add_mset (unmap (fst src), False) L)"
  shows "\<exists>n sh' c. serve cfg dp clock (0, new_conn cfg dp now sh w src local) = Some (n, sh', c) \<and>
     c_closed c \<and> tally (sh_counters sh') L"
proof -
  let ?s = "new_conn cfg dp now sh w src local"
  obtain n sh' c where r: "serve cfg dp clock (0, ?s) = Some (n, sh', c)" "c_closed c"
    using serve_ends [OF new_conn_flow, of cfg dp clock 0 "fst ?s" cfg dp now sh w src local] by auto
  have "accounted L (sh', c)" by (rule serve_books [OF r(1)]) (use new_conn_books [OF assms] in blast)
  then show ?thesis using r by (auto simp: accounted_def held_def)
qed

theorem dialogue_ends_witness:
  "\<exists>n sh' c. serve example_config example_deps (\<lambda>n. int n)
       (0, new_conn example_config example_deps 0
             (sv_shared (accept_conn example_client (new_server example_config example_shared)))
             (snd (snd example_client)) (fst example_client) (fst (snd example_client))) = Some (n, sh', c) \<and>
     c_closed c \<and> tally (sh_counters sh') {#}"
proof (rule dialogue_ends)
  have "server_inv 800 (new_server example_config example_shared)"
    by (simp add: server_inv_def new_server_def on_counters_def live_set_def tally_def new_counters_def example_shared_def)
  then have "server_inv 800 (accept_conn example_client (new_server example_config example_shared))" by (rule accept_inv)
  then show "tally (sh_counters (sv_shared (accept_conn example_client (new_server example_config example_shared))))
      {#(unmap (fst (fst example_client)), False)#}"
    by (simp add: server_inv_def live_set_def accept_conn_def new_server_def reserve_def on_counters_def new_counters_def
        example_shared_def example_config_def waiting_def)
qed

end
