(* ===== verification/Greyd_Daemon.thy ===== *)
theory Greyd_Daemon
  imports Smtp_Conn Greylister
begin

text \<open>
  The main process: \<open>daemon.go\<close>, \<open>config_socket.go\<close>, \<open>stats.go\<close> and \<open>nat.go\<close> of \<open>internal/app/greyd\<close>.
  The blacklists are objects in a store, since the code replaces a list by comparing pointers.
\<close>

subsection \<open>State\<close>

record daemon =
  dm_heap :: "blacklist list"
  dm_map :: "string \<rightharpoonup> nat"
  dm_list :: "nat list"
  dm_scan :: "scan_stats option"
  dm_max_cons :: int
  dm_max_black :: int
  dm_greylist :: bool
  dm_proxies :: "blacklist option"

record limits_settings =
  ls_max_cons :: int
  ls_max_cons_black :: int
  ls_grey_enable :: bool
  ls_proxy_protocol :: bool
  ls_permitted_proxies :: "string list"

definition permitted_proxies :: "string list \<Rightarrow> blacklist" where
  "permitted_proxies cidrs = bl_add_all cidrs (new_blacklist ''permitted-proxies'' ''permitted upstream proxies'' StorageList)"

text \<open>The set-up of the limits. The file descriptor limit is set by a system call and left out.\<close>

definition new_daemon :: "limits_settings \<Rightarrow> int \<Rightarrow> daemon option" where
  "new_daemon s max_files =
     (let max_cons = min (ls_max_cons s) max_files;
          max_black = min (ls_max_cons_black s) max_files;
          d = \<lparr>dm_heap = [], dm_map = Map.empty, dm_list = [], dm_scan = None, dm_max_cons = max_cons, dm_max_black = max_black,
               dm_greylist = ls_grey_enable s,
               dm_proxies = (if ls_proxy_protocol s then Some (permitted_proxies (ls_permitted_proxies s)) else None)\<rparr>
      in if \<not> ls_grey_enable s then Some (d\<lparr>dm_max_black := max_cons\<rparr>)
         else if max_cons < max_black then None else Some d)"

text \<open>The balance of the limits when the children start.\<close>

definition rebalance :: "daemon \<Rightarrow> daemon" where
  "rebalance d =
     (if \<not> dm_greylist d then d
      else let b = (if dm_max_cons d \<le> dm_max_black d then dm_max_cons d - 100 else dm_max_black d)
        in d\<lparr>dm_max_black := (if b < 0 then 0 else b)\<rparr>)"

definition snapshot_blacklists :: "daemon \<Rightarrow> blacklist list" where
  "snapshot_blacklists d = map (\<lambda>p. dm_heap d ! p) (dm_list d)"

text \<open>The first pointer equal to the old one is replaced.\<close>

fun replace_first :: "nat \<Rightarrow> nat \<Rightarrow> nat list \<Rightarrow> nat list" where
  "replace_first old new [] = []"
| "replace_first old new (p # ps) = (if p = old then new # ps else p # replace_first old new ps)"

definition install_blacklist :: "string \<Rightarrow> string \<Rightarrow> string list \<Rightarrow> daemon \<Rightarrow> daemon" where
  "install_blacklist name message ips d =
     (let bl = bl_add_all ips (new_blacklist name message StorageTrie);
          p = length (dm_heap d);
          ps = (case dm_map d name of Some old \<Rightarrow> replace_first old p (dm_list d) | None \<Rightarrow> dm_list d @ [p])
      in d\<lparr>dm_heap := dm_heap d @ [bl], dm_list := ps, dm_map := (dm_map d)(name \<mapsto> p)\<rparr>)"

definition add_blacklist :: "message \<Rightarrow> daemon \<Rightarrow> daemon" where
  "add_blacklist m d =
     (case m of BlacklistMessage name message ips \<Rightarrow> install_blacklist name message ips d | _ \<Rightarrow> d)"

subsection \<open>The pipe from the greylister\<close>

definition trap_message :: "message \<Rightarrow> daemon \<Rightarrow> daemon" where
  "trap_message m d = (case m of ScanStatsMessage sc \<Rightarrow> d\<lparr>dm_scan := Some sc\<rparr> | _ \<Rightarrow> add_blacklist m d)"

function read_trap_pipe :: "string \<Rightarrow> daemon \<Rightarrow> daemon" where
  "read_trap_pipe input d =
     (case next_message default_max_frame input of
        (Inl e, r) \<Rightarrow> if e = ErrEOF then d else read_trap_pipe r d
      | (Inr m, r) \<Rightarrow> read_trap_pipe r (trap_message m d))"
  by pat_completeness auto
termination
proof (relation "measure (\<lambda>(input, d). length input)", (simp; fail), goal_cases)
  case (1 input d x r e)
  then have "input \<noteq> []" using next_message_EOF by auto
  with 1 show ?case using next_message_length [of input default_max_frame] by (simp, metis snd_conv)
next
  case (2 input d x r m)
  then have "input \<noteq> []" using next_message_EOF by auto
  with 2 show ?case using next_message_length [of input default_max_frame] by (simp, metis snd_conv)
qed

declare read_trap_pipe.simps [simp del]

subsection \<open>The configuration socket\<close>

text \<open>
  What is known of a peer: the user of a unix socket, that the platform has no credentials, a
  failure to get them, or the port of a TCP peer.
\<close>

datatype config_peer = UnixUser int | UnixUnsupported | UnixError | TcpPort nat | OtherPeer

definition ip_port_reserved :: nat where "ip_port_reserved = 1024"

definition authorise_config_peer :: "bool \<Rightarrow> int \<Rightarrow> config_peer \<Rightarrow> bool" where
  "authorise_config_peer unix_socket euid peer =
     (if unix_socket then
        (case peer of
           UnixUser uid \<Rightarrow> uid = 0 \<or> uid = euid
         | UnixUnsupported \<Rightarrow> True
         | _ \<Rightarrow> False)
      else (case peer of TcpPort port \<Rightarrow> port < ip_port_reserved | _ \<Rightarrow> False))"

definition stats_counters :: "daemon \<Rightarrow> counters \<Rightarrow> int \<Rightarrow> int \<Rightarrow> (string \<times> int) list \<times> string list" where
  "stats_counters d k uptime now =
     (let t = k_totals k; (clients, black, max_cons, max_black) = snapshot k
      in ([(''uptime_seconds'', uptime), (''connections_current'', clients), (''connections_current_black'', black),
           (''max_cons'', max_cons), (''max_cons_black'', max_black), (''connections_total'', tt_accepted t),
           (''connections_black_total'', tt_accepted_black t), (''connections_refused_total'', tt_refused_full t),
           (''connections_refused_source_total'', tt_refused_source t), (''greylist_tuples_total'', tt_grey_tuples t),
           (''replies_grey_total'', tt_replies_grey t), (''replies_black_total'', tt_replies_black t),
           (''proxy_headers_total'', tt_proxy_headers t), (''greylisting_enabled'', if dm_greylist d then 1 else 0)] @
          (case dm_scan d of None \<Rightarrow> []
           | Some sc \<Rightarrow>
               [(''db_entries_grey'', ss_grey sc), (''db_entries_white'', ss_white sc), (''db_entries_trapped'', ss_trapped sc),
                (''db_entries_spamtrap'', ss_spamtrap sc), (''db_entries_domain'', ss_domain sc),
                (''db_scan_age_seconds'', i64 (now - ss_at sc))]),
          map (\<lambda>b. bl_name b @ ''='' @ itoa (bl_count b)) (snapshot_blacklists d)))"

text \<open>One connection: the daemon afterwards and what was answered.\<close>

definition handle_config_conn ::
  "bool \<Rightarrow> int \<Rightarrow> nat \<Rightarrow> config_peer \<Rightarrow> string \<Rightarrow> counters \<Rightarrow> int \<Rightarrow> int \<Rightarrow> daemon \<Rightarrow> daemon \<times> string" where
  "handle_config_conn unix_socket euid max_frame peer input k uptime now d =
     (if \<not> authorise_config_peer unix_socket euid peer then (d, [])
      else (case fst (next_message max_frame input) of
              Inl e \<Rightarrow> (d, [])
            | Inr StatsRequest \<Rightarrow> (let (cs, bls) = stats_counters d k uptime now in (d, write_stats_reply cs bls))
            | Inr m \<Rightarrow> (add_blacklist m d, [])))"

subsection \<open>Lookups of the original destination\<close>

text \<open>
  The request that is written, and the answer taken from what the firewall process has sent: \<open>None\<close>
  stands for a time-out. The rest of the answers stays for the next lookup.
\<close>

definition nat_request :: "addr_port \<Rightarrow> addr_port \<Rightarrow> string" where
  "nat_request src local =
     write_nat (addr_string (unmap (fst src))) (snd src) (addr_string (unmap (fst local))) (snd local)"

definition nat_answer :: "string \<Rightarrow> string \<times> string" where
  "nat_answer input =
     (case next_message default_max_frame input of
        (Inr (DstReply dst), r) \<Rightarrow> (dst, r)
      | (_, r) \<Rightarrow> ([], r))"

subsection \<open>Lists by name\<close>

text \<open>
  The contract: the lists in order, at most one per name; a new list takes the place of the one
  with its name or comes last.
\<close>

definition put_list :: "blacklist \<Rightarrow> blacklist list \<Rightarrow> blacklist list" where
  "put_list b bs =
     (if bl_name b \<in> bl_name ` set bs then map (\<lambda>x. if bl_name x = bl_name b then b else x) bs else bs @ [b])"

definition daemon_inv :: "daemon \<Rightarrow> bool" where
  "daemon_inv d \<longleftrightarrow> distinct (dm_list d) \<and> (\<forall>p \<in> set (dm_list d). p < length (dm_heap d)) \<and>
     (\<forall>n p. dm_map d n = Some p \<longleftrightarrow> p \<in> set (dm_list d) \<and> bl_name (dm_heap d ! p) = n)"

lemma replace_first_map: "distinct ps \<Longrightarrow> replace_first old new ps = map (\<lambda>p. if p = old then new else p) ps"
proof (induction ps)
  case (Cons p ps)
  then have "p = old \<Longrightarrow> map (\<lambda>q. if q = old then new else q) ps = ps" by (intro map_idI) auto
  with Cons show ?case by auto
qed simp

lemma new_daemon_inv: "new_daemon s n = Some d \<Longrightarrow> daemon_inv d \<and> snapshot_blacklists d = []"
  by (auto simp: new_daemon_def daemon_inv_def snapshot_blacklists_def Let_def split: if_splits)

lemma install_known:
  fixes message :: string and ips :: "string list"
  assumes inv: "daemon_inv d" and old: "dm_map d name = Some q"
  defines "b \<equiv> bl_add_all ips (new_blacklist name message StorageTrie)"
  shows "daemon_inv (install_blacklist name message ips d) \<and>
    snapshot_blacklists (install_blacklist name message ips d) = put_list b (snapshot_blacklists d)"
proof -
  let ?h = "dm_heap d" and ?ps = "dm_list d"
  let ?p = "length ?h" and ?qs = "map (\<lambda>p. if p = q then length ?h else p) ?ps"
  have dist: "distinct ?ps" using inv by (simp add: daemon_inv_def)
  have q: "q \<in> set ?ps" "bl_name (?h ! q) = name" using inv old by (auto simp: daemon_inv_def)
  have lt: "p < ?p" if "p \<in> set ?ps" for p using inv that by (auto simp: daemon_inv_def)
  have uniq: "p = q" if "p \<in> set ?ps" "bl_name (?h ! p) = name" for p
    using inv that old unfolding daemon_inv_def by (metis option.inject)
  have nb: "bl_name b = name" by (simp add: b_def new_blacklist_def)
  have i: "install_blacklist name message ips d = d\<lparr>dm_heap := ?h @ [b], dm_list := ?qs, dm_map := (dm_map d)(name \<mapsto> ?p)\<rparr>"
    using old replace_first_map [OF dist] by (simp add: install_blacklist_def Let_def b_def)
  have at: "(?h @ [b]) ! p = ?h ! p" if "p \<in> set ?ps" for p using lt [OF that] by (simp add: nth_append)
  have "distinct ?qs" using inv lt by (auto simp: daemon_inv_def distinct_map inj_on_def)
  moreover have "\<forall>p \<in> set ?qs. p < length (?h @ [b])" using less_SucI [OF lt] by auto
  moreover have "((dm_map d)(name \<mapsto> ?p)) n = Some p \<longleftrightarrow> p \<in> set ?qs \<and> bl_name ((?h @ [b]) ! p) = n" for n p
  proof (cases "p = ?p")
    case True
    have "dm_map d n \<noteq> Some ?p" using inv lt by (auto simp: daemon_inv_def)
    then show ?thesis using True q nb by (auto simp: image_iff)
  next
    case False
    then have m: "p \<in> set ?qs \<longleftrightarrow> p \<in> set ?ps \<and> p \<noteq> q" by auto
    have d: "dm_map d n = Some p \<longleftrightarrow> p \<in> set ?ps \<and> bl_name (?h ! p) = n" using inv by (simp add: daemon_inv_def)
    have e: "p \<in> set ?ps \<and> bl_name ((?h @ [b]) ! p) = n \<longleftrightarrow> p \<in> set ?ps \<and> bl_name (?h ! p) = n" using at by metis
    have "((dm_map d)(name \<mapsto> ?p)) n = Some p \<longleftrightarrow> n \<noteq> name \<and> dm_map d n = Some p" using False by simp
    then show ?thesis unfolding m d using e uniq q(2) by blast
  qed
  ultimately have "daemon_inv (install_blacklist name message ips d)" unfolding i daemon_inv_def by simp
  moreover have "map (\<lambda>p. (?h @ [b]) ! p) ?qs = put_list b (map (\<lambda>p. ?h ! p) ?ps)"
  proof -
    have "bl_name b \<in> bl_name ` set (map (\<lambda>p. ?h ! p) ?ps)" using q nb by auto
    moreover have "(?h @ [b]) ! (if p = q then ?p else p) = (if bl_name (?h ! p) = name then b else ?h ! p)" if "p \<in> set ?ps" for p
    proof (cases "p = q")
      case True
      then show ?thesis using q(2) by simp
    next
      case False
      then show ?thesis using at [OF that] uniq [OF that] by auto
    qed
    ultimately show ?thesis by (simp add: put_list_def nb cong: map_cong)
  qed
  ultimately show ?thesis unfolding i by (simp add: snapshot_blacklists_def)
qed

lemma install_new:
  fixes message :: string and ips :: "string list"
  assumes inv: "daemon_inv d" and new: "dm_map d name = None"
  defines "b \<equiv> bl_add_all ips (new_blacklist name message StorageTrie)"
  shows "daemon_inv (install_blacklist name message ips d) \<and>
    snapshot_blacklists (install_blacklist name message ips d) = put_list b (snapshot_blacklists d)"
proof -
  let ?h = "dm_heap d" and ?ps = "dm_list d"
  have lt: "p < length ?h" if "p \<in> set ?ps" for p using inv that by (auto simp: daemon_inv_def)
  have at: "(?h @ [b]) ! p = ?h ! p" if "p \<in> set ?ps" for p using lt [OF that] by (simp add: nth_append)
  have nb: "bl_name b = name" by (simp add: b_def new_blacklist_def)
  have no: "bl_name (?h ! p) \<noteq> name" if "p \<in> set ?ps" for p using inv that new unfolding daemon_inv_def by (metis option.distinct(1))
  have i: "install_blacklist name message ips d =
      d\<lparr>dm_heap := ?h @ [b], dm_list := ?ps @ [length ?h], dm_map := (dm_map d)(name \<mapsto> length ?h)\<rparr>"
    using new by (simp add: install_blacklist_def Let_def b_def)
  have "((dm_map d)(name \<mapsto> length ?h)) n = Some p \<longleftrightarrow> p \<in> set (?ps @ [length ?h]) \<and> bl_name ((?h @ [b]) ! p) = n" for n p
  proof -
    have d: "dm_map d n = Some p \<longleftrightarrow> p \<in> set ?ps \<and> bl_name (?h ! p) = n" using inv by (simp add: daemon_inv_def)
    have e: "p \<in> set ?ps \<and> bl_name ((?h @ [b]) ! p) = n \<longleftrightarrow> p \<in> set ?ps \<and> bl_name (?h ! p) = n" using at by metis
    show ?thesis
    proof (cases "p = length ?h")
      case True
      then have "p \<notin> set ?ps" using lt by blast
      with d show ?thesis using True nb by auto
    next
      case False
      then have "((dm_map d)(name \<mapsto> length ?h)) n = Some p \<longleftrightarrow> n \<noteq> name \<and> dm_map d n = Some p" by simp
      moreover have "p \<in> set (?ps @ [length ?h]) \<longleftrightarrow> p \<in> set ?ps" using False by simp
      ultimately show ?thesis using d e no by blast
    qed
  qed
  moreover have "distinct (?ps @ [length ?h])" using inv lt by (auto simp: daemon_inv_def)
  moreover have "\<forall>p \<in> set (?ps @ [length ?h]). p < length (?h @ [b])" using less_SucI [OF lt] by auto
  ultimately have "daemon_inv (install_blacklist name message ips d)" unfolding i daemon_inv_def by simp
  moreover have "map (\<lambda>p. (?h @ [b]) ! p) (?ps @ [length ?h]) = put_list b (map (\<lambda>p. ?h ! p) ?ps)"
  proof -
    have "bl_name b \<notin> bl_name ` set (map (\<lambda>p. ?h ! p) ?ps)" unfolding nb using no by auto
    then show ?thesis using at by (simp add: put_list_def cong: map_cong)
  qed
  ultimately show ?thesis unfolding i by (simp add: snapshot_blacklists_def)
qed

lemma install_refines:
  "daemon_inv d \<Longrightarrow> daemon_inv (install_blacklist name message ips d) \<and>
    snapshot_blacklists (install_blacklist name message ips d) =
      put_list (bl_add_all ips (new_blacklist name message StorageTrie)) (snapshot_blacklists d)"
  using install_known install_new by (cases "dm_map d name") blast+

end
