(* ===== verification/Greyd_Firewall.thy ===== *)
theory Greyd_Firewall
  imports Greylister Greyd_Daemon
begin

text \<open>
  The firewall process of \<open>fw_child.go\<close> over the port of \<open>internal/core/firewall.go\<close>: requests are
  read from the pipes, lookups of original destinations are answered and whitelists replaced. The
  laws a driver promises are a locale, which the driver of \<open>adapters/fw/dummy\<close> satisfies.
\<close>

subsection \<open>The port\<close>

text \<open>\<open>Replace\<close> gives the number of blocks added, and \<open>LookupOrigDst\<close> an address; both may fail.\<close>

record 'f firewall_ops =
  fo_replace :: "string \<Rightarrow> string list \<Rightarrow> int \<Rightarrow> 'f \<Rightarrow> nat option \<times> 'f"
  fo_lookup_orig_dst :: "addr_port \<Rightarrow> addr_port \<Rightarrow> 'f \<Rightarrow> addr_port option"

text \<open>The dummy driver remembers the sets.\<close>

type_synonym dummy_fw = "string \<rightharpoonup> string list"

definition dummy_new :: dummy_fw where "dummy_new = Map.empty"

definition dummy_replace :: "string \<Rightarrow> string list \<Rightarrow> int \<Rightarrow> dummy_fw \<Rightarrow> nat option \<times> dummy_fw" where
  "dummy_replace name cidrs af f = (Some (length cidrs), f(name \<mapsto> cidrs))"

definition dummy_set :: "string \<Rightarrow> dummy_fw \<Rightarrow> string list" where
  "dummy_set name f = (case f name of None \<Rightarrow> [] | Some l \<Rightarrow> l)"

definition dummy_lookup_orig_dst :: "addr_port \<Rightarrow> addr_port \<Rightarrow> dummy_fw \<Rightarrow> addr_port option" where
  "dummy_lookup_orig_dst src proxy f = Some proxy"

definition dummy_ops :: "dummy_fw firewall_ops" where
  "dummy_ops = \<lparr>fo_replace = dummy_replace, fo_lookup_orig_dst = dummy_lookup_orig_dst\<rparr>"

subsection \<open>The handler\<close>

text \<open>The driver and what was written to the pipe of answers, when there is one.\<close>

record 'f fw_handler =
  fh_fw :: 'f
  fh_out :: "string option"

definition fw_lookup :: "'f firewall_ops \<Rightarrow> string \<Rightarrow> u16 \<Rightarrow> string \<Rightarrow> u16 \<Rightarrow> 'f fw_handler \<Rightarrow> 'f fw_handler" where
  "fw_lookup fo src src_port proxy proxy_port h =
     (if src_port = 0 \<or> proxy_port = 0 then h
      else (case (parse_addr src, parse_addr proxy) of
              (Some s, Some p) \<Rightarrow>
                (let dst = (case fo_lookup_orig_dst fo (s, src_port) (p, proxy_port) (fh_fw h) of
                              None \<Rightarrow> []
                            | Some r \<Rightarrow> if is_valid (fst r) then addr_string (unmap (fst r)) else [])
                 in h\<lparr>fh_out := map_option (\<lambda>out. out @ write_dst dst) (fh_out h)\<rparr>)
            | _ \<Rightarrow> h))"

definition fw_replace :: "'f firewall_ops \<Rightarrow> string \<Rightarrow> int \<Rightarrow> string list \<Rightarrow> 'f fw_handler \<Rightarrow> 'f fw_handler" where
  "fw_replace fo name af ips h =
     (let addrs = filter (\<lambda>a. check_addr a \<noteq> -1) ips
      in if addrs = [] then h else h\<lparr>fh_fw := snd (fo_replace fo name addrs af (fh_fw h))\<rparr>)"

definition fw_process :: "'f firewall_ops \<Rightarrow> message \<Rightarrow> 'f fw_handler \<Rightarrow> 'f fw_handler" where
  "fw_process fo m h =
     (case m of
        NATRequest src sp proxy pp \<Rightarrow> fw_lookup fo src sp proxy pp h
      | ReplaceRequest name af ips \<Rightarrow> fw_replace fo name af ips h
      | _ \<Rightarrow> h)"

text \<open>The loop over one pipe, until it is closed.\<close>

function fw_handle :: "'f firewall_ops \<Rightarrow> string \<Rightarrow> 'f fw_handler \<Rightarrow> 'f fw_handler" where
  "fw_handle fo input h =
     (case next_message default_max_frame input of
        (Inl e, r) \<Rightarrow> if e = ErrEOF then h else fw_handle fo r h
      | (Inr m, r) \<Rightarrow> fw_handle fo r (fw_process fo m h))"
  by pat_completeness auto
termination
proof (relation "measure (\<lambda>(fo, input, h). length input)", (simp; fail), goal_cases)
  case (1 fo input h x r e)
  then have "input \<noteq> []" using next_message_EOF by auto
  with 1 show ?case using next_message_length [of input default_max_frame] by (simp, metis snd_conv)
next
  case (2 fo input h x r m)
  then have "input \<noteq> []" using next_message_EOF by auto
  with 2 show ?case using next_message_length [of input default_max_frame] by (simp, metis snd_conv)
qed

declare fw_handle.simps [simp del]

lemma fw_handle_Nil [simp]: "fw_handle fo [] h = h"
  by (simp add: fw_handle.simps [of fo "[]"] next_message_EOF)

lemma fw_handle_step:
  "next_message default_max_frame (f @ r) = (Inr m, r) \<Longrightarrow> fw_handle fo (f @ r) h = fw_handle fo r (fw_process fo m h)"
  by (simp add: fw_handle.simps [of fo "f @ r"])

subsection \<open>What a driver promises\<close>

locale firewall_port =
  fixes fo :: "'f firewall_ops" and contents :: "string \<Rightarrow> 'f \<Rightarrow> string list"
  assumes replaced: "fo_replace fo name cidrs af f = (Some n, f') \<Longrightarrow> contents name f' = cidrs"
    and others_kept: "fo_replace fo name cidrs af f = (r, f') \<Longrightarrow> other \<noteq> name \<Longrightarrow> contents other f' = contents other f"
    and failed: "fo_replace fo name cidrs af f = (None, f') \<Longrightarrow> contents name f' = contents name f"
begin

text \<open>A set holds what a request asked for, or what it held before.\<close>

lemma replace_contents:
  assumes "contents name (fh_fw (fw_replace fo set_name af ips h)) \<noteq> contents name (fh_fw h)"
  shows "name = set_name \<and> contents name (fh_fw (fw_replace fo set_name af ips h)) = filter (\<lambda>a. check_addr a \<noteq> -1) ips"
proof -
  let ?as = "filter (\<lambda>a. check_addr a \<noteq> -1) ips"
  obtain r f' where r: "fo_replace fo set_name ?as af (fh_fw h) = (r, f')" by (rule prod.exhaust)
  then have e: "fh_fw (fw_replace fo set_name af ips h) = (if ?as = [] then fh_fw h else f')"
    by (simp add: fw_replace_def Let_def)
  then have n: "?as \<noteq> []" "contents name f' \<noteq> contents name (fh_fw h)" using assms by (auto split: if_splits)
  then have "name = set_name" using others_kept [OF r] by blast
  moreover obtain k where "r = Some k" using n failed r \<open>name = set_name\<close> by (cases r) auto
  ultimately show ?thesis using e n replaced r by simp
qed

lemma lookup_contents: "fh_fw (fw_lookup fo src sp proxy pp h) = fh_fw h"
  by (simp add: fw_lookup_def Let_def split: option.split)

end

interpretation dummy_port: firewall_port dummy_ops dummy_set
  by unfold_locales (auto simp: dummy_ops_def dummy_replace_def dummy_set_def)

end
