(* ===== verification/Greyd_System.thy ===== *)
theory Greyd_System
  imports "HOL-Library.Code_Target_Nat" Smtp_Server Smtp_Report Greyd_Firewall
begin

text \<open>
  The processes together: the SMTP server and the daemon of the main process, the greylister with
  its database, and the firewall process, connected by pipes of bytes. Every process takes its
  steps in any order. The system runs without synchronisation with other hosts.
\<close>

subsection \<open>State and steps\<close>

text \<open>
  The unread bytes of the pipe to the greylister are part of the shared state of the server. The
  last three fields record what happened: the connections at the moment of their reports, the
  events the greylister handled, and the bytes it wrote to the firewall process.
\<close>

record 'f system =
  gd_server :: server
  gd_daemon :: daemon
  gd_store :: mem_store
  gd_trap_pipe :: string
  gd_fw_pipe :: string
  gd_fw :: "'f fw_handler"
  gd_reports :: "conn list"
  gd_events :: "event list"
  gd_sent :: "string list"

abbreviation grey_pipe :: "('f, 'b) system_scheme \<Rightarrow> string" where
  "grey_pipe S \<equiv> sh_grey (sv_shared (gd_server S))"

definition set_grey_pipe :: "string \<Rightarrow> server \<Rightarrow> server" where
  "set_grey_pipe r sv = sv\<lparr>sv_shared := (sv_shared sv)\<lparr>sh_grey := r\<rparr>\<rparr>"

definition publish :: "daemon \<Rightarrow> server \<Rightarrow> server" where
  "publish d sv = sv\<lparr>sv_shared := (sv_shared sv)\<lparr>sh_blacklists := Some (snapshot_blacklists d)\<rparr>\<rparr>"

fun events_of :: "int \<Rightarrow> message \<Rightarrow> event list" where
  "events_of now (GreyMessage t dst so) = [GreyEvent now t so dst]"
| "events_of now (AddrMessage typ ip src ex so del) = [AddrEvent now (typ = MsgTrap) ip ex del]"
| "events_of now _ = []"

inductive system_step :: "config \<Rightarrow> deps \<Rightarrow> greylister \<Rightarrow> 'f firewall_ops \<Rightarrow> 'f system \<Rightarrow> 'f system \<Rightarrow> bool"
  for cfg :: config and dp :: deps and g :: greylister and fo :: "'f firewall_ops" where
  arrive: "clean (zone_of (fst (fst p))) \<Longrightarrow> system_step cfg dp g fo S (S\<lparr>gd_server := accept_conn p (gd_server S)\<rparr>)"
| open_conn: "gd_server S = sv \<Longrightarrow> sv_pending sv = ps @ (src, local, w) # qs \<Longrightarrow>
    new_conn cfg dp now (sv_shared sv) w src local = (sh, c) \<Longrightarrow>
    system_step cfg dp g fo S
      (S\<lparr>gd_server := sv\<lparr>sv_shared := sh, sv_pending := ps @ qs, sv_conns := sv_conns sv @ [c]\<rparr>\<rparr>)"
| talk: "gd_server S = sv \<Longrightarrow> sv_conns sv = cs @ c # ds \<Longrightarrow> \<not> c_closed c \<Longrightarrow>
    serve_step cfg dp now (sv_shared sv) c = (sh, c') \<Longrightarrow>
    system_step cfg dp g fo S
      (S\<lparr>gd_server := sv\<lparr>sv_shared := sh, sv_conns := cs @ c' # ds\<rparr>,
         gd_reports := gd_reports S @ (if sh_grey sh = grey_pipe S then [] else [c'])\<rparr>)"
| leave: "gd_server S = sv \<Longrightarrow> sv_conns sv = cs @ c # ds \<Longrightarrow> c_closed c \<Longrightarrow>
    system_step cfg dp g fo S (S\<lparr>gd_server := sv\<lparr>sv_conns := cs @ ds\<rparr>\<rparr>)"
| read_grey_pipe: "next_message default_max_frame (grey_pipe S) = (Inr m, r) \<Longrightarrow> is_i64 (unix now) \<Longrightarrow>
    process_message memory_ops g None now m (gd_store S) = (e, s', evs) \<Longrightarrow>
    system_step cfg dp g fo S
      (S\<lparr>gd_server := set_grey_pipe r (gd_server S), gd_store := s', gd_events := gd_events S @ events_of now m\<rparr>)"
| skip_grey_pipe: "next_message default_max_frame (grey_pipe S) = (Inl e, r) \<Longrightarrow>
    system_step cfg dp g fo S (S\<lparr>gd_server := set_grey_pipe r (gd_server S)\<rparr>)"
| scan: "scan_once memory_ops g None now (gd_store S) = (e, s', trap, white) \<Longrightarrow> is_i64 (unix now) \<Longrightarrow>
    system_step cfg dp g fo S
      (S\<lparr>gd_store := s', gd_trap_pipe := gd_trap_pipe S @ trap, gd_fw_pipe := gd_fw_pipe S @ white,
         gd_events := gd_events S @ [ScanEvent now], gd_sent := gd_sent S @ [white]\<rparr>)"
| read_traps: "next_message default_max_frame (gd_trap_pipe S) = (Inr m, r) \<Longrightarrow> d = trap_message m (gd_daemon S) \<Longrightarrow>
    system_step cfg dp g fo S (S\<lparr>gd_trap_pipe := r, gd_daemon := d, gd_server := publish d (gd_server S)\<rparr>)"
| skip_traps: "next_message default_max_frame (gd_trap_pipe S) = (Inl e, r) \<Longrightarrow>
    system_step cfg dp g fo S (S\<lparr>gd_trap_pipe := r\<rparr>)"
| configure: "handle_config_conn unix_socket euid max_frame peer input k uptime now (gd_daemon S) = (d, out) \<Longrightarrow>
    system_step cfg dp g fo S (S\<lparr>gd_daemon := d, gd_server := publish d (gd_server S)\<rparr>)"
| read_whites: "next_message default_max_frame (gd_fw_pipe S) = (Inr m, r) \<Longrightarrow>
    system_step cfg dp g fo S (S\<lparr>gd_fw_pipe := r, gd_fw := fw_process fo m (gd_fw S)\<rparr>)"
| skip_whites: "next_message default_max_frame (gd_fw_pipe S) = (Inl e, r) \<Longrightarrow>
    system_step cfg dp g fo S (S\<lparr>gd_fw_pipe := r\<rparr>)"

definition start_system :: "config \<Rightarrow> shared \<Rightarrow> daemon \<Rightarrow> 'f fw_handler \<Rightarrow> 'f system" where
  "start_system cfg sh d h =
     \<lparr>gd_server = new_server cfg (sh\<lparr>sh_grey := []\<rparr>), gd_daemon = d, gd_store = mem_new, gd_trap_pipe = [], gd_fw_pipe = [],
      gd_fw = h, gd_reports = [], gd_events = [], gd_sent = []\<rparr>"

text \<open>The SMTP part of the system is the server with its limits.\<close>

lemma system_server_step:
  assumes "system_step cfg dp g fo S S'"
  shows "(server_step cfg dp)\<^sup>*\<^sup>* (gd_server S) (gd_server S')"
  using assms
proof cases
  case (arrive p)
  then show ?thesis by (simp add: r_into_rtranclp server_step.accept)
next
  case (open_conn sv ps src local w qs now sh c)
  then show ?thesis using server_step.handle [OF open_conn(3,4)] by (simp add: r_into_rtranclp)
next
  case (talk sv cs c ds now sh c')
  then show ?thesis using server_step.serve [OF talk(3-5)] by (simp add: r_into_rtranclp)
next
  case (leave sv cs c ds)
  then show ?thesis using server_step.finish [OF leave(3,4)] by (simp add: r_into_rtranclp)
next
  case (read_grey_pipe m r now e s' evs)
  then show ?thesis using server_step.environment [of "(sv_shared (gd_server S))\<lparr>sh_grey := r\<rparr>" "gd_server S"]
    by (simp add: set_grey_pipe_def r_into_rtranclp)
next
  case (skip_grey_pipe e r)
  then show ?thesis using server_step.environment [of "(sv_shared (gd_server S))\<lparr>sh_grey := r\<rparr>" "gd_server S"]
    by (simp add: set_grey_pipe_def r_into_rtranclp)
next
  case (read_traps m r d)
  then show ?thesis
    using server_step.environment [of "(sv_shared (gd_server S))\<lparr>sh_blacklists := Some (snapshot_blacklists d)\<rparr>" "gd_server S"]
    by (simp add: publish_def r_into_rtranclp)
next
  case (configure unix_socket euid max_frame peer input k uptime now d out)
  then show ?thesis
    using server_step.environment [of "(sv_shared (gd_server S))\<lparr>sh_blacklists := Some (snapshot_blacklists d)\<rparr>" "gd_server S"]
    by (simp add: publish_def r_into_rtranclp)
qed auto

subsection \<open>The pipes hold whole frames\<close>

definition event_from :: "conn set \<Rightarrow> event \<Rightarrow> bool" where
  "event_from R e =
     (case e of
        GreyEvent now t so dst \<Rightarrow> so \<and> (\<exists>c \<in> R. t = reported_tuple c)
      | AddrEvent now tr ip ex del \<Rightarrow> False
      | ScanEvent now \<Rightarrow> True)"

type_synonym white_list = "string \<times> int \<times> string list"

definition white_frame :: "white_list \<Rightarrow> string" where
  "white_frame l = (case l of (name, af, ips) \<Rightarrow> write_replace name af ips)"

definition earned :: "greylister \<Rightarrow> event list \<Rightarrow> white_list \<Rightarrow> bool" where
  "earned g h l = (case l of (name, af, ips) \<Rightarrow> one_line name \<and> (af = 4 \<or> af = 6) \<and> (\<forall>ip \<in> set ips. white_reason g h ip))"

text \<open>The tuples the greylister has handled.\<close>

fun heard :: "event list \<Rightarrow> tuple list" where
  "heard [] = []"
| "heard (GreyEvent now t so dst # es) = t # heard es"
| "heard (_ # es) = heard es"

lemma heard_append [simp]: "heard (es @ fs) = heard es @ heard fs"
  by (induction es rule: heard.induct) simp_all

abbreviation unread :: "('f, 'b) system_scheme \<Rightarrow> conn list" where
  "unread S \<equiv> drop (length (heard (gd_events S))) (gd_reports S)"

text \<open>Every frame that was written is within the limit of the readers.\<close>

definition frames_fit :: "'f system \<Rightarrow> bool" where
  "frames_fit S \<longleftrightarrow> (\<forall>c \<in> set (gd_reports S). length (grey_frame c) \<le> default_max_frame) \<and>
     (\<forall>f \<in> set (gd_sent S). length f \<le> default_max_frame)"

definition smtp_inv :: "config \<Rightarrow> deps \<Rightarrow> 'f system \<Rightarrow> bool" where
  "smtp_inv cfg dp S \<longleftrightarrow>
     (\<forall>p \<in> set (sv_pending (gd_server S)). clean (zone_of (fst (fst p)))) \<and>
     (\<forall>c \<in> set (sv_conns (gd_server S)). session cfg dp c \<and> clean (zone_of (fst (c_src c)))) \<and>
     (\<forall>c \<in> set (gd_reports S). session cfg dp c \<and> reportable cfg dp c \<and> words_ok c) \<and>
     grey_pipe S = concat (map grey_frame (unread S)) \<and>
     heard (gd_events S) = map reported_tuple (take (length (heard (gd_events S))) (gd_reports S))"

definition grey_inv :: "greylister \<Rightarrow> 'f system \<Rightarrow> bool" where
  "grey_inv g S \<longleftrightarrow>
     runs memory_ops g mem_new (gd_events S) (gd_store S) \<and> (\<forall>e \<in> set (gd_events S). event_from (set (gd_reports S)) e) \<and>
     (\<exists>ls. gd_fw_pipe S = concat (map white_frame ls) \<and> (\<forall>l \<in> set ls. earned g (gd_events S) l \<and> length (white_frame l) \<le> default_max_frame))"

definition fw_inv :: "(string \<Rightarrow> 'f \<Rightarrow> string list) \<Rightarrow> greylister \<Rightarrow> 'f system \<Rightarrow> bool" where
  "fw_inv contents g S \<longleftrightarrow> (\<forall>name. \<forall>ip \<in> set (contents name (fh_fw (gd_fw S))). white_reason g (gd_events S) ip)"

definition names_fit :: "greylister \<Rightarrow> bool" where
  "names_fit g \<longleftrightarrow> one_line (gs_whitelist_name (g_cfg g)) \<and> one_line (gs_whitelist_name_v6 (g_cfg g))"

lemma event_from_mono: "event_from R e \<Longrightarrow> R \<subseteq> R' \<Longrightarrow> event_from R' e"
  by (auto simp: event_from_def split: event.splits)

lemma frames_fit_step: "system_step cfg dp g fo S S' \<Longrightarrow> frames_fit S' \<Longrightarrow> frames_fit S"
  by (induction rule: system_step.induct) (auto simp: frames_fit_def split: if_splits)

lemma heard_length: "smtp_inv cfg dp S \<Longrightarrow> length (heard (gd_events S)) \<le> length (gd_reports S)"
  unfolding smtp_inv_def by (metis length_map length_take min.cobounded1)

lemma read_first_report:
  assumes inv: "smtp_inv cfg dp S" and fit: "frames_fit S" and n: "next_message default_max_frame (grey_pipe S) = (x, r)"
  shows "unread S = [] \<and> x = Inl ErrEOF \<and> r = [] \<or>
    (\<exists>c cs. unread S = c # cs \<and> x = Inr (GreyMessage (reported_tuple c) (sanitize (c_dst_addr c)) True) \<and>
       r = concat (map grey_frame cs) \<and> c \<in> set (gd_reports S) \<and> words_ok c)"
proof (cases "unread S")
  case Nil
  then show ?thesis using inv n next_message_EOF by (auto simp: smtp_inv_def)
next
  case (Cons c cs)
  then have c: "c \<in> set (gd_reports S)" by (metis in_set_dropD list.set_intros(1))
  then have "words_ok c" "length (grey_frame c) \<le> default_max_frame" using inv fit by (auto simp: smtp_inv_def frames_fit_def)
  moreover have "grey_pipe S = grey_frame c @ concat (map grey_frame cs)" using inv Cons by (simp add: smtp_inv_def)
  ultimately show ?thesis using read_report(1) [of c default_max_frame "concat (map grey_frame cs)"] n Cons c by auto
qed

lemma event_from_simps [simp]:
  "event_from R (GreyEvent now t so dst) \<longleftrightarrow> so \<and> (\<exists>c \<in> R. t = reported_tuple c)"
  "\<not> event_from R (AddrEvent now tr ip ex del)" "event_from R (ScanEvent now)"
  by (simp_all add: event_from_def)

lemma white_reason_from:
  assumes "white_reason g h ip" "\<forall>e \<in> set h. event_from R e"
  shows "\<exists>c \<in> R. ip = t_ip (reported_tuple c)"
proof -
  have grey: "\<exists>c \<in> R. t = reported_tuple c" if "GreyEvent now t so dst \<in> set h" for now t so dst
    using bspec [OF assms(2) that] by simp
  have "AddrEvent now tr ip ex del \<notin> set h" for now tr ex del using assms(2) event_from_simps(2) by blast
  with assms(1) grey show ?thesis unfolding white_reason_def retried_def by metis
qed

lemma reported_ip_line: "words_ok c \<Longrightarrow> one_line (t_ip (reported_tuple c)) \<and> plain_text (t_ip (reported_tuple c))"
  by (simp add: reported_tuple_def words_ok_def clean_def)

lemma read_first_white:
  assumes "gd_fw_pipe S = concat (map white_frame ls)" "\<forall>l \<in> set ls. earned g (gd_events S) l \<and> length (white_frame l) \<le> default_max_frame"
    "smtp_inv cfg dp S" "grey_inv g S" "next_message default_max_frame (gd_fw_pipe S) = (x, r)"
  shows "ls = [] \<and> x = Inl ErrEOF \<and> r = [] \<or>
    (\<exists>name af ips ls'. ls = (name, af, ips) # ls' \<and> x = Inr (ReplaceRequest (sanitize name) af ips) \<and> r = concat (map white_frame ls'))"
proof (cases ls)
  case Nil
  then show ?thesis using assms next_message_EOF by auto
next
  case (Cons l ls')
  obtain name af ips where l: "l = (name, af, ips)" by (cases l)
  then have e: "earned g (gd_events S) (name, af, ips)" "length (write_replace name af ips) \<le> default_max_frame"
    using assms(2) Cons by (auto simp: white_frame_def)
  have ok: "one_line ip \<and> plain_text ip" if "ip \<in> set ips" for ip
  proof -
    have "white_reason g (gd_events S) ip" using e(1) that by (simp add: earned_def)
    then obtain c where "c \<in> set (gd_reports S)" "ip = t_ip (reported_tuple c)"
      using white_reason_from assms(4) unfolding grey_inv_def by blast
    then show ?thesis using reported_ip_line assms(3) by (auto simp: smtp_inv_def)
  qed
  then have "map sanitize ips = ips" by (simp add: map_idI)
  moreover have "list_all one_line (name # ips)" "0 \<le> af" "is_i64 af"
    using e(1) ok by (auto simp: earned_def list_all_iff is_i64_def)
  ultimately show ?thesis using read_replace [OF _ _ _ e(2), of "concat (map white_frame ls')"] assms(1,5) Cons l
    by (auto simp: white_frame_def)
qed

subsection \<open>Every step keeps the invariants\<close>

lemma next_state_quiet:
  "c_state c \<in> {StateProxyIn, StateBannerIn} \<Longrightarrow> sh_grey (fst (next_state cfg dp now sh c)) = sh_grey sh"
  by (auto simp: next_state_def dispatch_def)

lemma new_conn_facts:
  "c_src (snd (new_conn cfg dp now sh w src local)) = src" "sh_grey (fst (new_conn cfg dp now sh w src local)) = sh_grey sh"
  by (simp_all add: new_conn_def Let_def match_blacklists_def initial_conn_def next_state_quiet split: prod.splits)

lemma accept_conn_facts:
  "set (sv_pending (accept_conn p sv)) \<subseteq> insert p (set (sv_pending sv))" "sv_conns (accept_conn p sv) = sv_conns sv"
  "sh_grey (sv_shared (accept_conn p sv)) = sh_grey (sv_shared sv)"
  by (auto simp: accept_conn_def Let_def split: prod.splits)

lemma smtp_talk:
  assumes inv: "smtp_inv cfg dp S" and dp: "dst_clean dp" and sv: "gd_server S = sv" "sv_conns sv = cs @ c # ds"
    and c: "\<not> c_closed c" "serve_step cfg dp now (sv_shared sv) c = (sh, c')"
  shows "session cfg dp c' \<and> clean (zone_of (fst (c_src c'))) \<and>
    (sh_grey sh = grey_pipe S \<or> reportable cfg dp c' \<and> words_ok c' \<and> sh_grey sh = grey_pipe S @ grey_frame c')"
proof -
  have s: "session cfg dp c" "clean (zone_of (fst (c_src c)))" using inv sv by (auto simp: smtp_inv_def)
  note flow = session_flow [OF s(1)]
  have "session cfg dp c'" using session.step [OF s(1) c(1), of now "sv_shared sv"] c(2) by simp
  moreover have "c_src c' = c_src c" using src_serve_step [OF c(1) flow, of cfg dp now "sv_shared sv"] c(2) by simp
  moreover have "report_ok cfg dp (sv_shared sv) (sh, c')" using serve_step_report [OF c(1) flow, of cfg dp "sv_shared sv" now] c(2) by simp
  moreover have "words_ok c" using session_words_ok [OF s(1) dp s(2)] c(1) by simp
  then have "sh_grey sh = sh_grey (sv_shared sv) \<or> words_ok c'"
    using words_serve_step [OF _ dp c(1) flow, of cfg now "sv_shared sv"] c(2) by auto
  ultimately show ?thesis using s(2) sv(1) by (auto simp: report_ok_def)
qed

lemma smtp_inv_move:
  assumes "smtp_inv cfg dp S" "sv_pending (gd_server S') = sv_pending (gd_server S)" "sv_conns (gd_server S') = sv_conns (gd_server S)"
    "gd_reports S' = gd_reports S" "grey_pipe S' = concat (map grey_frame (unread S'))"
    "heard (gd_events S') = map reported_tuple (take (length (heard (gd_events S'))) (gd_reports S'))"
  shows "smtp_inv cfg dp S'"
  unfolding smtp_inv_def using assms(1) [unfolded smtp_inv_def] assms(2-4) by (intro conjI assms(5,6)) auto

lemma smtp_inv_same:
  assumes "smtp_inv cfg dp S" "sv_pending (gd_server S') = sv_pending (gd_server S)" "sv_conns (gd_server S') = sv_conns (gd_server S)"
    "grey_pipe S' = grey_pipe S" "gd_reports S' = gd_reports S" "heard (gd_events S') = heard (gd_events S)"
  shows "smtp_inv cfg dp S'"
  using assms by (simp add: smtp_inv_def)

lemma smtp_inv_step:
  assumes "system_step cfg dp g fo S S'" and inv: "smtp_inv cfg dp S" and dp: "dst_clean dp" and fit: "frames_fit S"
  shows "smtp_inv cfg dp S'"
  using assms(1)
proof cases
  case (arrive p)
  then show ?thesis using inv accept_conn_facts [of p "gd_server S"] by (auto simp: smtp_inv_def)
next
  case (open_conn sv ps src local w qs now sh c)
  have "c = snd (new_conn cfg dp now (sv_shared sv) w src local)" "sh = fst (new_conn cfg dp now (sv_shared sv) w src local)"
    using open_conn(4) by simp_all
  then have "session cfg dp c" "c_src c = src" "sh_grey sh = sh_grey (sv_shared sv)" using session.start new_conn_facts by metis+
  then show ?thesis using inv open_conn(1-3) by (auto simp: smtp_inv_def)
next
  case (talk sv cs c ds now sh c')
  note t = smtp_talk [OF inv dp talk(2-5)]
  have k: "length (heard (gd_events S)) \<le> length (gd_reports S)" by (rule heard_length [OF inv])
  have "grey_pipe S' = concat (map grey_frame (unread S'))"
    using t talk(1) inv k by (cases "sh_grey sh = grey_pipe S") (auto simp: smtp_inv_def)
  moreover have "heard (gd_events S') = map reported_tuple (take (length (heard (gd_events S'))) (gd_reports S'))"
    using inv talk(1) k by (auto simp: smtp_inv_def)
  ultimately show ?thesis using inv t talk(1-3) by (auto simp: smtp_inv_def)
next
  case (leave sv cs c ds)
  then show ?thesis using inv by (auto simp: smtp_inv_def)
next
  case (read_grey_pipe m r now e s' evs)
  let ?k = "length (heard (gd_events S))"
  from read_first_report [OF inv fit read_grey_pipe(2)] obtain c cs where c: "unread S = c # cs"
    "m = GreyMessage (reported_tuple c) (sanitize (c_dst_addr c)) True" "r = concat (map grey_frame cs)" by auto
  then have "?k < length (gd_reports S)" "c = gd_reports S ! ?k" "cs = drop (Suc ?k) (gd_reports S)"
    by (metis drop_eq_Nil list.distinct(1) not_less, metis hd_drop_conv_nth drop_eq_Nil list.distinct(1) list.sel(1) not_less,
        metis drop_Suc list.sel(3) tl_drop)
  then have "grey_pipe S' = concat (map grey_frame (unread S'))"
    "heard (gd_events S') = map reported_tuple (take (length (heard (gd_events S'))) (gd_reports S'))"
    using inv c read_grey_pipe(1) by (simp_all add: smtp_inv_def set_grey_pipe_def take_Suc_conv_app_nth)
  then show ?thesis by (rule smtp_inv_move [OF inv, rotated 3]) (simp_all add: read_grey_pipe(1) set_grey_pipe_def)
next
  case (skip_grey_pipe e r)
  from read_first_report [OF inv fit skip_grey_pipe(2)] have "r = []" "unread S = []" by auto
  then show ?thesis using inv skip_grey_pipe(1) by (auto simp: smtp_inv_def set_grey_pipe_def)
qed (auto intro!: smtp_inv_same [OF inv] simp: publish_def)

lemma process_report:
  assumes "process_message memory_ops g None now (GreyMessage t dst so) s = (e, s', evs)"
  shows "s' = engine_step memory_ops g (GreyEvent now t so dst) s"
  using assms by (auto simp: process_message_def split: prod.splits)

definition white_lists :: "greylister \<Rightarrow> int \<Rightarrow> string list \<Rightarrow> white_list list" where
  "white_lists g af ips =
     (if \<not> g_fw_out g \<or> ips = [] then []
      else [(if af = 6 then gs_whitelist_name_v6 (g_cfg g) else gs_whitelist_name (g_cfg g), af, ips)])"

lemma update_firewall_lists: "update_firewall g af ips = concat (map white_frame (white_lists g af ips))"
  by (simp add: update_firewall_def white_lists_def white_frame_def)

lemma white_reason_append: "white_reason g h ip \<Longrightarrow> white_reason g (h @ h') ip"
  by (induction h' rule: rev_induct) (simp_all add: white_reason_mono flip: append_assoc)

lemma earned_mono: "earned g h l \<Longrightarrow> earned g (h @ h') l"
  using white_reason_append by (auto simp: earned_def)

lemma white_lists_earned:
  "names_fit g \<Longrightarrow> af = 4 \<or> af = 6 \<Longrightarrow> \<forall>ip \<in> set ips. white_reason g h ip \<Longrightarrow> l \<in> set (white_lists g af ips) \<Longrightarrow> earned g h l"
  by (auto simp: white_lists_def earned_def names_fit_def split: if_splits)

lemma scan_lists:
  assumes "runs memory_ops g mem_new h s" "scan_once memory_ops g None now s = (e, s', trap, white)" "names_fit g"
  shows "\<exists>ls. white = concat (map white_frame ls) \<and> (\<forall>l \<in> set ls. earned g h l \<and> length (white_frame l) \<le> length white)"
proof -
  obtain wl wl6 where w: "white = update_firewall g 4 wl @ (if g_ipv6 g then update_firewall g 6 wl6 else [])"
    "\<forall>ip \<in> set wl \<union> set wl6. white_reason g h ip"
    using mem_db.scan_white_reason [of s g h now] mem_runs_inv [OF assms(1)] assms(2) by auto
  let ?ls = "white_lists g 4 wl @ (if g_ipv6 g then white_lists g 6 wl6 else [])"
  have "white = concat (map white_frame ?ls)" using w(1) by (simp add: update_firewall_lists)
  moreover have "length (white_frame l) \<le> length (concat (map white_frame ?ls))" if "l \<in> set ?ls" for l
    using that by (auto simp: length_concat comp_def white_lists_def split: if_splits)
  moreover have "earned g h l" if "l \<in> set ?ls" for l
    using that w(2) white_lists_earned [OF assms(3), of 4 wl h l] white_lists_earned [OF assms(3), of 6 wl6 h l] by (simp split: if_splits) blast+
  ultimately show ?thesis by metis
qed

lemma grey_inv_same:
  assumes "grey_inv g S" "gd_events S' = gd_events S" "gd_store S' = gd_store S" "gd_fw_pipe S' = gd_fw_pipe S"
    "set (gd_reports S) \<subseteq> set (gd_reports S')"
  shows "grey_inv g S'"
  using assms event_from_mono [OF _ assms(5)] by (auto simp: grey_inv_def)

lemma grey_inv_step:
  assumes "system_step cfg dp g fo S S'" and sm: "smtp_inv cfg dp S" and inv: "grey_inv g S" and g: "names_fit g" and fit: "frames_fit S'"
  shows "grey_inv g S'"
proof -
  have fitS: "frames_fit S" by (rule frames_fit_step [OF assms(1) fit])
  obtain ls where ls: "gd_fw_pipe S = concat (map white_frame ls)"
    "\<forall>l \<in> set ls. earned g (gd_events S) l \<and> length (white_frame l) \<le> default_max_frame" using inv by (auto simp: grey_inv_def)
  have r: "runs memory_ops g mem_new (gd_events S) (gd_store S)" and ev: "\<forall>e \<in> set (gd_events S). event_from (set (gd_reports S)) e"
    using inv by (auto simp: grey_inv_def)
  from assms(1) show ?thesis
  proof cases
    case (read_grey_pipe m x now e s' evs)
    from read_first_report [OF sm fitS read_grey_pipe(2)] obtain c where
      c: "m = GreyMessage (reported_tuple c) (sanitize (c_dst_addr c)) True" "c \<in> set (gd_reports S)" "words_ok c" by auto
    let ?e = "GreyEvent now (reported_tuple c) True (sanitize (c_dst_addr c))"
    have "event_ok ?e" using read_report(2) [OF c(3), of "length (grey_frame c)"] read_grey_pipe(3) by simp
    from runs.step [OF r this] have "runs memory_ops g mem_new (gd_events S @ [?e]) s'"
      using process_report read_grey_pipe(4) c(1) by metis
    then show ?thesis using read_grey_pipe(1) c ls ev earned_mono by (auto simp: grey_inv_def)
  next
    case (scan now e s' trap white)
    obtain ls' where ls': "white = concat (map white_frame ls')" "\<forall>l \<in> set ls'. earned g (gd_events S) l \<and> length (white_frame l) \<le> length white"
      using scan_lists [OF r scan(2) g] by blast
    have "length white \<le> default_max_frame" using fit scan(1) by (simp add: frames_fit_def)
    then have "gd_fw_pipe S' = concat (map white_frame (ls @ ls'))"
      "\<forall>l \<in> set (ls @ ls'). earned g (gd_events S') l \<and> length (white_frame l) \<le> default_max_frame"
      using ls ls' scan(1) earned_mono by auto
    moreover have "runs memory_ops g mem_new (gd_events S') (gd_store S')"
      using runs.step [OF r, of "ScanEvent now"] scan by simp
    ultimately show ?thesis using ev scan(1) unfolding grey_inv_def by fastforce
  next
    case (read_whites m x)
    from read_first_white [OF ls sm inv read_whites(2)] show ?thesis using r ev ls(2) read_whites(1) by (auto simp: grey_inv_def)
  next
    case (skip_whites e x)
    from read_first_white [OF ls sm inv skip_whites(2)] show ?thesis using r ev skip_whites(1)
      by (auto simp: grey_inv_def intro!: exI [of _ "[]"])
  qed (auto intro!: grey_inv_same [OF inv])
qed

lemma fw_inv_step:
  assumes "system_step cfg dp g fo S S'" and port: "firewall_port fo contents"
    and sm: "smtp_inv cfg dp S" and gi: "grey_inv g S" and inv: "fw_inv contents g S"
  shows "fw_inv contents g S'"
  using assms(1)
proof cases
  case (read_whites m r)
  obtain ls where ls: "gd_fw_pipe S = concat (map white_frame ls)"
    "\<forall>l \<in> set ls. earned g (gd_events S) l \<and> length (white_frame l) \<le> default_max_frame" using gi by (auto simp: grey_inv_def)
  from read_first_white [OF ls sm gi read_whites(2)] obtain name af ips ls' where
    m: "m = ReplaceRequest (sanitize name) af ips" "ls = (name, af, ips) # ls'" by auto
  then have e: "\<forall>ip \<in> set ips. white_reason g (gd_events S) ip" using ls(2) by (simp add: earned_def)
  have f: "gd_fw S' = fw_replace fo (sanitize name) af ips (gd_fw S)" "gd_events S' = gd_events S"
    using read_whites(1) m(1) by (simp_all add: fw_process_def)
  have "white_reason g (gd_events S) ip" if "ip \<in> set (contents n (fh_fw (gd_fw S')))" for n ip
  proof (cases "contents n (fh_fw (gd_fw S')) = contents n (fh_fw (gd_fw S))")
    case True
    then show ?thesis using inv that by (auto simp: fw_inv_def)
  next
    case False
    then show ?thesis using firewall_port.replace_contents [OF port, of n "sanitize name" af ips "gd_fw S"] that e f(1) by auto
  qed
  then show ?thesis using f(2) by (simp add: fw_inv_def)
qed (use inv white_reason_append in \<open>auto simp: fw_inv_def\<close>)

lemma system_invs:
  assumes "(system_step cfg dp g fo)\<^sup>*\<^sup>* (start_system cfg sh d h) S" "firewall_port fo contents" "dst_clean dp" "names_fit g"
    "frames_fit S" "\<forall>name. contents name (fh_fw h) = []"
  shows "smtp_inv cfg dp S \<and> grey_inv g S \<and> fw_inv contents g S"
  using assms(1,5)
proof (induction rule: rtranclp_induct)
  case base
  show ?case using assms(6)
    by (auto simp: smtp_inv_def grey_inv_def fw_inv_def start_system_def new_server_def on_counters_def intro!: runs.start exI [of _ "[]"])
next
  case (step S S')
  have f: "frames_fit S" by (rule frames_fit_step [OF step.hyps(2) step.prems])
  note i = step.IH [OF f]
  show ?case
    using smtp_inv_step [OF step.hyps(2) _ assms(3) f] grey_inv_step [OF step.hyps(2) _ _ assms(4) step.prems]
      fw_inv_step [OF step.hyps(2) assms(2)] i by blast
qed

lemma white_reason_retried:
  assumes "white_reason g h ip" "\<forall>e \<in> set h. event_from R e" "\<not> sp_whitelist_on_pass (g_spf_cfg g)"
  shows "\<exists>t. t_ip t = ip \<and> retried g h t"
proof -
  have "AddrEvent now tr ip ex del \<notin> set h" for now tr ex del using assms(2) event_from_simps(2) by blast
  with assms(1,3) show ?thesis unfolding white_reason_def by blast
qed

text \<open>
  C1: Greylisting works from the wire to the firewall. However the processes interleave, whatever
  clients send and the daemon is configured with, the greylister handles exactly the reports of the
  SMTP server, in their order; every report stems from a client that is on no blacklist and issued a RCPT command
  in its dialogue; and an address stands in a set of the firewall only when two reports of the same
  tuple of that address were handled more than the pass time apart. This is for a system without
  synchronisation and without whitelisting by SPF, and for readers whose frames stay within their limit.
\<close>

theorem whitelisted_only_after_retry:
  assumes "(system_step cfg dp g fo)\<^sup>*\<^sup>* (start_system cfg sh d h) S" "firewall_port fo contents" "dst_clean dp" "names_fit g"
    "frames_fit S" "\<forall>name. contents name (fh_fw h) = []" "\<not> sp_whitelist_on_pass (g_spf_cfg g)"
  shows "(\<exists>k. heard (gd_events S) = map reported_tuple (take k (gd_reports S))) \<and>
    (\<forall>c \<in> set (gd_reports S). session cfg dp c \<and> reportable cfg dp c) \<and>
    (\<forall>name. \<forall>ip \<in> set (contents name (fh_fw (gd_fw S))). \<exists>t. t_ip t = ip \<and> retried g (gd_events S) t)"
proof -
  note i = system_invs [OF assms(1-6)]
  then have "\<forall>e \<in> set (gd_events S). event_from (set (gd_reports S)) e" by (simp add: grey_inv_def)
  then have "\<exists>t. t_ip t = ip \<and> retried g (gd_events S) t" if "ip \<in> set (contents name (fh_fw (gd_fw S)))" for name ip
    using white_reason_retried [OF _ _ assms(7)] i that by (auto simp: fw_inv_def)
  then show ?thesis using i by (auto simp: smtp_inv_def)
qed

subsection \<open>A run\<close>

text \<open>A scheduler that takes one step of the first connection, or of one of the other processes.\<close>

datatype action = Arrive pending_conn | Open int | Talk int | Hear int | Scan int | Traps | Whites

fun act :: "config \<Rightarrow> deps \<Rightarrow> greylister \<Rightarrow> 'f firewall_ops \<Rightarrow> action \<Rightarrow> 'f system \<Rightarrow> 'f system" where
  "act cfg dp g fo (Arrive p) S = S\<lparr>gd_server := accept_conn p (gd_server S)\<rparr>"
| "act cfg dp g fo (Open now) S =
     (let sv = gd_server S in
      case sv_pending sv of
        [] \<Rightarrow> S
      | (src, local, w) # qs \<Rightarrow>
          (let (sh, c) = new_conn cfg dp now (sv_shared sv) w src local
           in S\<lparr>gd_server := sv\<lparr>sv_shared := sh, sv_pending := qs, sv_conns := sv_conns sv @ [c]\<rparr>\<rparr>))"
| "act cfg dp g fo (Talk now) S =
     (let sv = gd_server S in
      case sv_conns sv of
        [] \<Rightarrow> S
      | c # ds \<Rightarrow>
          if c_closed c then S\<lparr>gd_server := sv\<lparr>sv_conns := ds\<rparr>\<rparr>
          else (let (sh, c') = serve_step cfg dp now (sv_shared sv) c
                in S\<lparr>gd_server := sv\<lparr>sv_shared := sh, sv_conns := c' # ds\<rparr>,
                     gd_reports := gd_reports S @ (if sh_grey sh = grey_pipe S then [] else [c'])\<rparr>))"
| "act cfg dp g fo (Hear now) S =
     (case next_message default_max_frame (grey_pipe S) of
        (Inr m, r) \<Rightarrow>
          (let (e, s', evs) = process_message memory_ops g None now m (gd_store S)
           in S\<lparr>gd_server := set_grey_pipe r (gd_server S), gd_store := s', gd_events := gd_events S @ events_of now m\<rparr>)
      | (Inl e, r) \<Rightarrow> S\<lparr>gd_server := set_grey_pipe r (gd_server S)\<rparr>)"
| "act cfg dp g fo (Scan now) S =
     (let (e, s', trap, white) = scan_once memory_ops g None now (gd_store S)
      in S\<lparr>gd_store := s', gd_trap_pipe := gd_trap_pipe S @ trap, gd_fw_pipe := gd_fw_pipe S @ white,
           gd_events := gd_events S @ [ScanEvent now], gd_sent := gd_sent S @ [white]\<rparr>)"
| "act cfg dp g fo Traps S =
     (case next_message default_max_frame (gd_trap_pipe S) of
        (Inr m, r) \<Rightarrow> (let d = trap_message m (gd_daemon S) in S\<lparr>gd_trap_pipe := r, gd_daemon := d, gd_server := publish d (gd_server S)\<rparr>)
      | (Inl e, r) \<Rightarrow> S\<lparr>gd_trap_pipe := r\<rparr>)"
| "act cfg dp g fo Whites S =
     (case next_message default_max_frame (gd_fw_pipe S) of
        (Inr m, r) \<Rightarrow> S\<lparr>gd_fw_pipe := r, gd_fw := fw_process fo m (gd_fw S)\<rparr>
      | (Inl e, r) \<Rightarrow> S\<lparr>gd_fw_pipe := r\<rparr>)"

fun action_ok :: "action \<Rightarrow> bool" where
  "action_ok (Arrive p) = clean (zone_of (fst (fst p)))"
| "action_ok (Hear now) = is_i64 (unix now)"
| "action_ok (Scan now) = is_i64 (unix now)"
| "action_ok _ = True"

lemma act_steps:
  assumes "action_ok a"
  shows "(system_step cfg dp g fo)\<^sup>*\<^sup>* S (act cfg dp g fo a S)"
proof (cases a)
  case (Arrive p)
  then show ?thesis using assms system_step.arrive by fastforce
next
  case (Open now)
  show ?thesis
  proof (cases "sv_pending (gd_server S)")
    case (Cons p qs)
    obtain src local w where p: "p = (src, local, w)" by (cases p)
    obtain sh c where n: "new_conn cfg dp now (sv_shared (gd_server S)) w src local = (sh, c)" by (rule prod.exhaust)
    show ?thesis using system_step.open_conn [OF refl, of S "[]" src local w qs cfg dp now sh c g fo] Open Cons n p by (auto simp: Let_def)
  qed (simp add: Open)
next
  case (Talk now)
  show ?thesis
  proof (cases "sv_conns (gd_server S)")
    case (Cons c ds)
    obtain sh c' where n: "serve_step cfg dp now (sv_shared (gd_server S)) c = (sh, c')" by (rule prod.exhaust)
    show ?thesis
      using system_step.talk [OF refl, of S "[]" c ds cfg dp now sh c' g fo] system_step.leave [OF refl, of S "[]" c ds cfg dp g fo] Talk Cons n
      by (auto simp: Let_def)
  qed (simp add: Talk)
next
  case (Hear now)
  obtain x r where x: "next_message default_max_frame (grey_pipe S) = (x, r)" by (rule prod.exhaust)
  show ?thesis
  proof (cases x)
    case (Inr m)
    obtain e s' evs where "process_message memory_ops g None now m (gd_store S) = (e, s', evs)" by (rule prod_cases3)
    then show ?thesis using system_step.read_grey_pipe [of S m r now g e s' evs cfg dp fo] assms Hear x Inr by auto
  qed (use Hear x system_step.skip_grey_pipe in fastforce)
next
  case (Scan now)
  obtain e s' trap white where "scan_once memory_ops g None now (gd_store S) = (e, s', trap, white)" by (rule prod_cases4)
  then show ?thesis using system_step.scan [of g now S e s' trap white cfg dp fo] assms Scan by auto
next
  case Traps
  obtain x r where x: "next_message default_max_frame (gd_trap_pipe S) = (x, r)" by (rule prod.exhaust)
  show ?thesis by (cases x) (use Traps x system_step.skip_traps system_step.read_traps in \<open>fastforce simp: Let_def\<close>)+
next
  case Whites
  obtain x r where x: "next_message default_max_frame (gd_fw_pipe S) = (x, r)" by (rule prod.exhaust)
  show ?thesis by (cases x) (use Whites x system_step.skip_whites system_step.read_whites in fastforce)+
qed

lemma acts_steps: "list_all action_ok as \<Longrightarrow> (system_step cfg dp g fo)\<^sup>*\<^sup>* S (fold (act cfg dp g fo) as S)"
proof (induction as arbitrary: S)
  case (Cons a as)
  then show ?case using act_steps [of a cfg dp g fo S] by (simp, meson rtranclp_trans)
qed simp

text \<open>A client that names its recipient twice; the greylister has read the first of its reports.\<close>

definition retrying_client :: pending_conn where
  "retrying_client = ((Addr4 0xc0000207, 4000), (Addr4 0xc0000219, 25),
     \<lparr>rw_input = [''MAIL FROM:<a@b>'' @ crnl, ''RCPT TO:<c@d>'' @ crnl, ''RCPT TO:<c@d>'' @ crnl], rw_sent = [], rw_writes = None\<rparr>)"

definition example_start :: "dummy_fw system" where
  "example_start = start_system example_config example_shared
     \<lparr>dm_heap = [], dm_map = Map.empty, dm_list = [], dm_scan = None, dm_max_cons = 800, dm_max_black = 700, dm_greylist = True,
      dm_proxies = None\<rparr> \<lparr>fh_fw = dummy_new, fh_out = None\<rparr>"

definition example_script :: "action list" where
  "example_script = [Arrive retrying_client, Open 0, Talk 0, Talk 0, Talk 0, Talk 0, Hear 0, Talk 0, Talk 0]"

definition example_act :: "action \<Rightarrow> dummy_fw system \<Rightarrow> dummy_fw system" where
  "example_act = act example_config example_deps default_greylister dummy_ops"

definition example_end :: "dummy_fw system" where
  "example_end = fold example_act example_script example_start"

definition run_summary :: "'f system \<Rightarrow> bool \<times> nat \<times> string list \<times> tuple list" where
  "run_summary S = (list_all (\<lambda>c. length (grey_frame c) < 200) (gd_reports S), length (gd_reports S), gd_sent S, heard (gd_events S))"

lemma example_end_summary:
  "run_summary example_end = (True, 2, [], [\<lparr>t_ip = ''192.0.2.7'', t_helo = [], t_from = ''a@b'', t_to = ''c@d''\<rparr>])"
  by code_simp

theorem whitelisted_only_after_retry_witness:
  "(\<exists>k. [\<lparr>t_ip = ''192.0.2.7'', t_helo = [], t_from = ''a@b'', t_to = ''c@d''\<rparr>] =
      map reported_tuple (take k (gd_reports example_end))) \<and> length (gd_reports example_end) = 2 \<and>
   list_all (session example_config example_deps) (gd_reports example_end)"
proof -
  have "list_all action_ok example_script"
    by (simp add: example_script_def retrying_client_def unix_def is_i64_def)
  from acts_steps [OF this] have r: "(system_step example_config example_deps default_greylister dummy_ops)\<^sup>*\<^sup>* example_start example_end"
    by (simp add: example_end_def example_act_def)
  have f: "list_all (\<lambda>c. length (grey_frame c) < 200) (gd_reports example_end)" "gd_sent example_end = []" "length (gd_reports example_end) = 2"
    "heard (gd_events example_end) = [\<lparr>t_ip = ''192.0.2.7'', t_helo = [], t_from = ''a@b'', t_to = ''c@d''\<rparr>]"
    using example_end_summary by (simp_all add: run_summary_def)
  have "frames_fit example_end" using f by (auto simp: frames_fit_def list_all_iff default_max_frame_def)
  moreover have "dst_clean example_deps" "names_fit default_greylister" "\<not> sp_whitelist_on_pass (g_spf_cfg default_greylister)"
    by (simp_all add: dst_clean_def example_deps_def names_fit_def default_greylister_def default_grey_def default_spf_def)
  moreover have "\<forall>name. dummy_set name (fh_fw \<lparr>fh_fw = dummy_new, fh_out = None\<rparr>) = []" by (simp add: dummy_set_def dummy_new_def)
  ultimately show ?thesis
    using whitelisted_only_after_retry [OF r [unfolded example_start_def] dummy_port.firewall_port_axioms] f by (auto simp: list_all_iff)
qed

end
