(* ===== verification/Greyd_Trap.thy ===== *)
theory Greyd_Trap
  imports Smtp_Conn Greyd_Daemon
begin

text \<open>
  From a message to a spam trap to the blacklist of the main process: the address the greylister
  traps is in the list it sends after the next scan, and the daemon that reads the list treats new
  connections from the address as blacklisted.
\<close>

subsection \<open>Addresses on record come from messages\<close>

fun known_ips :: "event list \<Rightarrow> string set" where
  "known_ips [] = {}"
| "known_ips (GreyEvent now t so dst # es) = insert (t_ip t) (known_ips es)"
| "known_ips (AddrEvent now tr ip ex del # es) = insert ip (known_ips es)"
| "known_ips (ScanEvent now # es) = known_ips es"

lemma known_ips_append [simp]: "known_ips (es @ fs) = known_ips es \<union> known_ips fs"
  by (induction es rule: known_ips.induct) auto

definition keys_from :: "string set \<Rightarrow> contents \<Rightarrow> bool" where
  "keys_from A m \<longleftrightarrow> (\<forall>t d. m (tuple_key t) = Some d \<longrightarrow> t_ip t \<in> A) \<and> (\<forall>ip d. m (ip_key ip) = Some d \<longrightarrow> ip \<in> A)"

lemma keys_from_mono: "keys_from A m \<Longrightarrow> A \<subseteq> B \<Longrightarrow> keys_from B m"
  by (auto simp: keys_from_def)

lemma keys_from_put:
  "keys_from A m \<Longrightarrow> t_ip gt \<in> A \<Longrightarrow> k = tuple_key gt \<or> k = ip_key (t_ip gt) \<Longrightarrow> keys_from A (m(k := v))"
  by (auto simp: keys_from_def)

lemma grey_effect_keys:
  assumes "keys_from A m"
  shows "keys_from (insert (t_ip gt) A) (grey_effect g now gt so dst m)"
proof -
  let ?B = "insert (t_ip gt) A"
  have put: "keys_from ?B (m(k := v))" if "k = tuple_key gt \<or> k = ip_key (t_ip gt)" for k v
    using keys_from_put [OF keys_from_mono [OF assms, of ?B], of gt k v] that by blast
  show ?thesis
  proof (cases "spf_stage g gt so (grey_plan_of g gt (if is_trap g m (t_to gt) then 0 else 1))")
    case None
    then show ?thesis using put by (simp add: grey_effect_def)
  next
    case (Some p)
    have p: "plan_ok g gt p" by (rule plan_ok_stages(2) [OF plan_ok_stages(1) Some])
    show ?thesis
      using Some put plan_key [OF p] plan_key [OF plan_ok_stages(3) [OF p], of now so dst]
      by (cases "m (gp_key p)") (simp_all add: grey_effect_def Let_def)
  qed
qed

lemma addr_effect_keys: "keys_from A m \<Longrightarrow> keys_from (insert ip A) (addr_effect now tr ip ex del m)"
  by (cases "parse_int ex"; cases "m (ip_key ip)") (auto simp: addr_effect_def keys_from_def)

lemma scan_keys:
  assumes "keys_from A m" "scan_spec now we m r m'"
  shows "keys_from A m'"
proof -
  have live: "live now m k = Some d \<Longrightarrow> m k = Some d" for k d
    by (auto simp: live_def split: option.splits if_splits)
  have "t_ip t \<in> A" if "m' (tuple_key t) = Some d" for t d
    using assms that live unfolding scan_spec_def promoted_def keys_from_def by (metis option.distinct(1))
  moreover have "ip \<in> A" if d: "m' (ip_key ip) = Some d" for ip d
  proof -
    from assms(2) have "m' (ip_key ip) = live now m (ip_key ip) \<or> (\<exists>t e. t_ip t = ip \<and> promoted now we m m' t e)"
      unfolding scan_spec_def by blast
    then show ?thesis using d live assms(1) unfolding promoted_def ready_def keys_from_def by metis
  qed
  ultimately show ?thesis unfolding keys_from_def by blast
qed

lemma runs_keys:
  assumes "runs memory_ops g mem_new h s"
  shows "mem_db.good s \<and> keys_from (known_ips h) (mem_contents s)"
  using assms
proof (induction rule: runs.induct)
  case start
  then show ?case using mem_new_good by (simp add: keys_from_def)
next
  case (step h s e)
  then have s: "mem_db.good s" "keys_from (known_ips h) (mem_contents s)" by blast+
  show ?case
  proof (cases e)
    case (GreyEvent now gt so dst)
    then show ?thesis using mem_db.process_grey_effect [OF s(1), of gt now g so dst] grey_effect_keys [OF s(2), of gt g now so dst] step.hyps(2)
      by auto
  next
    case (AddrEvent now tr ip ex del)
    then show ?thesis using mem_db.process_non_grey_effect [OF s(1), of now tr ip ex del] addr_effect_keys [OF s(2), of ip now tr ex del] step.hyps(2)
      by auto
  next
    case (ScanEvent now)
    obtain s' trap fw r where r: "scan_once memory_ops g None now s = (None, s', trap, fw)" "mem_db.good s'"
      "scan_spec (unix now) (gs_white_expiry (g_cfg g)) (mem_contents s) r (mem_contents s')"
      using mem_db.scan_run [OF s(1), of g now] by blast
    then show ?thesis using scan_keys [OF s(2) r(3)] ScanEvent by simp
  qed
qed

subsection \<open>The list the daemon installs\<close>

lemma quad_blacklist_ip: "blacklist_ip (dotted_quad w) = dotted_quad w @ CHR ''/'' # itoa 32"
proof -
  have "CHR ''/'' \<notin> set (dotted_quad w)" using dotted_quad_chars [of "CHR ''/''" w] by (auto simp: is_digit_def)
  then show ?thesis by (simp add: blacklist_ip_def check_addr_def family_of_def)
qed

lemma quad_word: "one_line (dotted_quad w) \<and> plain_text (dotted_quad w)"
  using dotted_quad_chars [of lf w] dotted_quad_chars [of dquote w] dotted_quad_chars [of backslash w]
  by (auto simp: plain_text_def is_digit_def)

lemma list_matches_quad:
  assumes "dotted_quad w \<in> set ips"
  shows "bl_match (bl_add_all (map blacklist_ip ips) (new_blacklist name message StorageTrie)) (Addr4 w)"
proof -
  have "parse_prefix (blacklist_ip (dotted_quad w)) = Inr (masked (prefix_from (Addr4 w) (int 32)))"
    unfolding quad_blacklist_ip by (rule parse_prefix_network) simp_all
  moreover have "prefix_contains (masked (prefix_from (Addr4 w) (int 32))) (Addr4 w)" by (subst masked_contains) simp_all
  ultimately show ?thesis using assms by (subst match_add_all) (auto simp: is4_unmap_dotted)
qed

lemma put_list_mem: "b \<in> set (put_list b bs)"
  by (auto simp: put_list_def)

lemma trap_list_installed:
  assumes d: "daemon_inv d" and ips: "dotted_quad w \<in> set ips" "list_all (\<lambda>v. one_line v \<and> plain_text v) (name # message # ips)"
    and fit: "length (write_blacklist name message ips) \<le> default_max_frame"
  shows "\<exists>m. next_message default_max_frame (write_blacklist name message ips @ r) = (Inr m, r) \<and>
    (\<exists>b \<in> set (snapshot_blacklists (trap_message m d)). bl_name b = name \<and> bl_match b (Addr4 w))"
proof -
  let ?b = "bl_add_all (map blacklist_ip ips) (new_blacklist name message StorageTrie)"
  have n: "ips \<noteq> []" using ips(1) by auto
  have "snapshot_blacklists (trap_message (BlacklistMessage name message (map blacklist_ip ips)) d) = put_list ?b (snapshot_blacklists d)"
    using install_refines [OF d] by (simp add: trap_message_def add_blacklist_def)
  moreover have "bl_name ?b = name" by (simp add: bl_add_all_frame new_blacklist_def)
  ultimately show ?thesis using read_blacklist [OF n ips(2) fit, of r] list_matches_quad [OF ips(1)] put_list_mem [of ?b] by fastforce
qed

lemma black_when_listed:
  assumes "sh_blacklists sh = Some bs" "b \<in> set bs" "bl_match b (match_addr cfg c)"
  shows "c_black (match_blacklists cfg sh c)"
  using assms by (auto simp: match_blacklists_def Let_def filter_empty_conv)

subsection \<open>The whole path\<close>

lemma grey_effect_traps:
  "is_trap g m (t_to gt) \<Longrightarrow> \<exists>d. grey_effect g now gt so dst m (ip_key (t_ip gt)) = Some d \<and> d_pcount d = PCountTrapped"
  by (auto simp: grey_effect_def spf_stage_def grey_plan_of_def low_prio_plan_def trap_plan_def Let_def
      new_entry_def seen_entry_def split: option.splits)

lemma scan_sends_trapped:
  assumes "mem_db.good s" "keys_from A (mem_contents s)" "mem_contents s (ip_key ip) = Some e" "d_pcount e = PCountTrapped"
    "unix now < d_expire e" "g_trap_out g"
  shows "\<exists>s2 ips stats fw. scan_once memory_ops g None now s =
     (None, s2, write_blacklist (gs_traplist_name (g_cfg g)) (gs_traplist_message (g_cfg g)) ips @ stats, fw) \<and> ip \<in> set ips \<and> set ips \<subseteq> A"
proof -
  obtain s2 fw stats r where r: "scan_once memory_ops g None now s = (None, s2,
      write_blacklist (gs_traplist_name (g_cfg g)) (gs_traplist_message (g_cfg g)) (sr_traplist r) @ stats, fw)"
    "scan_spec (unix now) (gs_white_expiry (g_cfg g)) (mem_contents s) r (mem_contents s2)"
    using mem_db.scan_run [OF assms(1), of g now] assms(6) by blast
  have "live (unix now) (mem_contents s) (ip_key ip) = Some e" using assms(3,5) by (simp add: live_def expired_def)
  then have "mem_contents s2 (ip_key ip) = Some e" using r(2) unfolding scan_spec_def by (metis option.distinct(1))
  then have "ip \<in> set (sr_traplist r)" using r(2) assms(4) by (auto simp: scan_spec_def lists_of_def trapped_in_def)
  moreover have "set (sr_traplist r) \<subseteq> A"
    using scan_keys [OF assms(2) r(2)] r(2) by (auto simp: scan_spec_def lists_of_def trapped_in_def keys_from_def)
  ultimately show ?thesis using r(1) by blast
qed



end
