(* ===== verification/Spamd_List.thy ===== *)
theory Spamd_List
  imports Blacklist
begin

text \<open>
  The package \<open>internal/spamdlist\<close>: the scanner and the recursive descent parser of spamd
  address lists. The scanner state is the unread input with the position counters; a read
  error and the end of the input are the same case in the code. The parser adds every entry
  as a range to a list and keeps the entries before an error.
\<close>

subsection \<open>Scanner\<close>

datatype token_kind = TokEOF | TokEOL | TokInt6 | TokInt8 | TokDot | TokDash | TokSlash

record token =
  tok_kind :: token_kind
  tok_val :: nat

record scanner =
  sc_in :: string
  sc_line :: int
  sc_col :: int
  sc_prev_col :: int
  sc_eof :: bool

definition new_scanner :: "string \<Rightarrow> scanner" where
  "new_scanner r = \<lparr>sc_in = r, sc_line = 0, sc_col = 0, sc_prev_col = 0, sc_eof = False\<rparr>"

abbreviation newline :: char where
  "newline \<equiv> CHR 0x0A"

definition tok :: "token_kind \<Rightarrow> token" where
  "tok k = \<lparr>tok_kind = k, tok_val = 0\<rparr>"

definition getc :: "scanner \<Rightarrow> (char \<times> scanner) option" where
  "getc s =
     (case sc_in s of
        [] \<Rightarrow> None
      | c # cs \<Rightarrow>
          (let s' = s\<lparr>sc_in := cs, sc_prev_col := sc_col s\<rparr>
           in Some (c, if c = newline then s'\<lparr>sc_line := sc_line s + 1, sc_col := 0\<rparr>
                       else s'\<lparr>sc_col := sc_col s + 1\<rparr>)))"

definition ungetc :: "char \<Rightarrow> scanner \<Rightarrow> scanner" where
  "ungetc c s =
     (if c = newline then s\<lparr>sc_line := sc_line s - 1, sc_col := sc_prev_col s, sc_in := c # sc_in s\<rparr>
      else if sc_col s > 0 then s\<lparr>sc_col := sc_col s - 1, sc_in := c # sc_in s\<rparr>
      else s\<lparr>sc_in := c # sc_in s\<rparr>)"

lemma not_digit_chars [simp]:
  "\<not> is_digit newline" "\<not> is_digit (CHR ''.'')" "\<not> is_digit (CHR ''/'')" "\<not> is_digit (CHR ''#'')"
  "\<not> is_digit (CHR '' '')" "\<not> is_digit (CHR 0x09)" "\<not> is_digit (CHR 0x0D)"
  by (simp_all add: is_digit_def)

lemma getc_length: "getc s = Some (c, s') \<Longrightarrow> length (sc_in s') < length (sc_in s)"
  by (auto simp: getc_def Let_def split: list.splits if_splits)

function scan_digits :: "nat \<Rightarrow> scanner \<Rightarrow> nat \<times> scanner" where
  "scan_digits i s =
     (case getc s of
        None \<Rightarrow> (i, s\<lparr>sc_eof := True\<rparr>)
      | Some (d, s') \<Rightarrow>
          if \<not> is_digit d then (i, ungetc d s')
          else (let j = i * 10 + digit_val d
                in if j > 255 then (i, ungetc d s') else scan_digits j s'))"
  by pat_completeness auto
termination
  by (relation "measure (\<lambda>(i, s). length (sc_in s))") (auto dest: getc_length)

function skip_comment :: "scanner \<Rightarrow> scanner" where
  "skip_comment s =
     (case getc s of
        None \<Rightarrow> s\<lparr>sc_eof := True\<rparr>
      | Some (d, s') \<Rightarrow> if d = newline then ungetc d s' else skip_comment s')"
  by pat_completeness auto
termination
  by (relation "measure (\<lambda>s. length (sc_in s))") (auto dest: getc_length)

declare scan_digits.simps [simp del] skip_comment.simps [simp del]

definition int_token :: "nat \<Rightarrow> token" where
  "int_token i = (if i \<le> 63 then \<lparr>tok_kind = TokInt6, tok_val = i\<rparr> else \<lparr>tok_kind = TokInt8, tok_val = i\<rparr>)"

lemma getc_Nil [simp]: "sc_in s = [] \<Longrightarrow> getc s = None"
  by (simp add: getc_def)

lemma getc_Cons:
  assumes "sc_in s = c # cs"
  obtains s' where "getc s = Some (c, s')" "sc_in s' = cs" "sc_eof s' = sc_eof s"
    "sc_in (ungetc c s') = c # cs" "sc_eof (ungetc c s') = sc_eof s"
  using assms by (auto simp: getc_def ungetc_def Let_def)

text \<open>The input that a run of digits and a comment leave behind, and the number read.\<close>

fun lex_num :: "nat \<Rightarrow> string \<Rightarrow> nat \<times> string" where
  "lex_num i [] = (i, [])"
| "lex_num i (d # cs) =
     (if is_digit d \<and> i * 10 + digit_val d \<le> 255 then lex_num (i * 10 + digit_val d) cs else (i, d # cs))"

lemma scan_digits_in:
  "fst (scan_digits i s) = fst (lex_num i (sc_in s)) \<and>
   sc_in (snd (scan_digits i s)) = snd (lex_num i (sc_in s)) \<and>
   sc_eof (snd (scan_digits i s)) = (sc_eof s \<or> snd (lex_num i (sc_in s)) = [])"
proof (induction i s rule: scan_digits.induct)
  case (1 i s)
  show ?case
  proof (cases "sc_in s")
    case Nil
    then show ?thesis by (simp add: scan_digits.simps [of i s])
  next
    case (Cons c cs)
    then obtain s' where s': "getc s = Some (c, s')" "sc_in s' = cs" "sc_eof s' = sc_eof s"
      "sc_in (ungetc c s') = c # cs" "sc_eof (ungetc c s') = sc_eof s"
      by (rule getc_Cons)
    then show ?thesis
      using "1.IH" [OF s'(1) refl] Cons by (auto simp: scan_digits.simps [of i s] Let_def)
  qed
qed

lemma skip_comment_in:
  "sc_in (skip_comment s) = dropWhile (\<lambda>c. c \<noteq> newline) (sc_in s) \<and>
   sc_eof (skip_comment s) = (sc_eof s \<or> dropWhile (\<lambda>c. c \<noteq> newline) (sc_in s) = [])"
proof (induction s rule: skip_comment.induct)
  case (1 s)
  show ?case
  proof (cases "sc_in s")
    case Nil
    then show ?thesis by (simp add: skip_comment.simps [of s])
  next
    case (Cons c cs)
    then obtain s' where s': "getc s = Some (c, s')" "sc_in s' = cs" "sc_eof s' = sc_eof s"
      "sc_in (ungetc c s') = c # cs" "sc_eof (ungetc c s') = sc_eof s"
      by (rule getc_Cons)
    then show ?thesis
      using "1.IH" [OF s'(1) refl] Cons by (auto simp: skip_comment.simps [of s])
  qed
qed

function next_token :: "scanner \<Rightarrow> token \<times> scanner" where
  "next_token s =
     (if sc_eof s then (tok TokEOF, s)
      else case getc s of
        None \<Rightarrow> (tok TokEOF, s\<lparr>sc_eof := True\<rparr>)
      | Some (c, s') \<Rightarrow>
          if is_digit c then
            (let (i, s2) = scan_digits (digit_val c) s' in (int_token i, s2))
          else if c \<in> {CHR '' '', CHR 0x09, CHR 0x0D} then next_token s'
          else if c = CHR ''#'' then next_token (skip_comment s')
          else if c = newline then (tok TokEOL, s')
          else if c = CHR ''.'' then (tok TokDot, s')
          else if c = CHR ''-'' then (tok TokDash, s')
          else if c = CHR ''/'' then (tok TokSlash, s')
          else (tok TokEOF, s'\<lparr>sc_eof := True\<rparr>))"
  by pat_completeness auto
termination
proof (relation "measure (\<lambda>s. length (sc_in s))", goal_cases)
  case (3 s x c s')
  then have "length (sc_in s') < length (sc_in s)" using getc_length [of s c s'] by simp
  with length_dropWhile_le [of "\<lambda>c. c \<noteq> newline" "sc_in s'"] skip_comment_in [of s']
  show ?case by simp
qed (auto dest: getc_length)

declare next_token.simps [simp del]

subsection \<open>Parser\<close>

datatype parse_error = ParseError int int | TooManyEntries

record parser =
  ps_s :: scanner
  ps_curr :: token
  ps_bl :: blacklist
  ps_typ :: list_type
  ps_limit :: int
  ps_count :: nat

definition errorf :: "parser \<Rightarrow> parse_error" where
  "errorf p = ParseError (sc_line (ps_s p)) (sc_col (ps_s p))"

definition advance :: "parser \<Rightarrow> parser" where
  "advance p = (let (t, s) = next_token (ps_s p) in p\<lparr>ps_curr := t, ps_s := s\<rparr>)"

abbreviation curr_kind :: "parser \<Rightarrow> token_kind" where
  "curr_kind p \<equiv> tok_kind (ps_curr p)"

text \<open>A token other than the end of the input consumes at least one byte.\<close>

lemma lex_num_length: "length (snd (lex_num i cs)) \<le> length cs"
  by (induction i cs rule: lex_num.induct) auto

lemma next_token_eof: "sc_eof s \<or> sc_in s = [] \<Longrightarrow> tok_kind (fst (next_token s)) = TokEOF \<and> sc_in (snd (next_token s)) = sc_in s"
  by (auto simp: next_token.simps [of s] tok_def)

lemma next_token_getc:
  assumes "\<not> sc_eof s" "getc s = Some (c, s')"
  shows "next_token s =
    (if is_digit c then (let (i, s2) = scan_digits (digit_val c) s' in (int_token i, s2))
     else if c \<in> {CHR '' '', CHR 0x09, CHR 0x0D} then next_token s'
     else if c = CHR ''#'' then next_token (skip_comment s')
     else if c = newline then (tok TokEOL, s')
     else if c = CHR ''.'' then (tok TokDot, s')
     else if c = CHR ''-'' then (tok TokDash, s')
     else if c = CHR ''/'' then (tok TokSlash, s')
     else (tok TokEOF, s'\<lparr>sc_eof := True\<rparr>))"
  unfolding next_token.simps [of s] using assms by (simp only: if_False option.case prod.case)

lemma int_token_kind [simp]: "tok_kind (int_token i) \<noteq> TokEOF" "tok_kind (int_token i) \<noteq> TokEOL"
  by (simp_all add: int_token_def)

lemma next_token_length:
  "length (sc_in (snd (next_token s))) + (if tok_kind (fst (next_token s)) = TokEOF then 0 else 1) \<le> length (sc_in s)"
proof (induction s rule: next_token.induct)
  case (1 s)
  show ?case
  proof (cases "sc_eof s \<or> sc_in s = []")
    case True
    then show ?thesis using next_token_eof [of s] by simp
  next
    case False
    then obtain c cs where c: "sc_in s = c # cs" by (cases "sc_in s") auto
    then obtain s' where s': "getc s = Some (c, s')" "sc_in s' = cs" by (rule getc_Cons)
    have ne: "\<not> sc_eof s" using False by simp
    note eq = next_token_getc [OF ne s'(1)]
    have com: "length (sc_in (skip_comment s')) \<le> length cs"
      using skip_comment_in [of s'] s'(2) length_dropWhile_le [of "\<lambda>c. c \<noteq> newline" cs] by simp
    consider (digit) "is_digit c" | (blank) "\<not> is_digit c" "c \<in> {CHR '' '', CHR 0x09, CHR 0x0D}"
      | (hash) "\<not> is_digit c" "c \<notin> {CHR '' '', CHR 0x09, CHR 0x0D}" "c = CHR ''#''"
      | (other) "\<not> is_digit c" "c \<notin> {CHR '' '', CHR 0x09, CHR 0x0D}" "c \<noteq> CHR ''#''" by blast
    then show ?thesis
    proof cases
      case digit
      then show ?thesis
        using False c s' scan_digits_in [of "digit_val c" s'] lex_num_length [of "digit_val c" cs]
        by (simp add: eq case_prod_beta)
    next
      case blank
      then have "next_token s = next_token s'" unfolding eq by auto
      with "1.IH"(1) [OF ne s'(1) refl blank] c s'(2) show ?thesis by simp
    next
      case hash
      then have "next_token s = next_token (skip_comment s')" unfolding eq by simp
      with "1.IH"(2) [OF ne s'(1) refl hash] c com show ?thesis by simp
    next
      case other
      with False c s' show ?thesis by (simp add: eq tok_def)
    qed
  qed
qed

definition weight :: "parser \<Rightarrow> nat" where
  "weight p = length (sc_in (ps_s p)) + (if curr_kind p = TokEOF then 0 else 1)"

lemma advance_weight: "curr_kind p \<noteq> TokEOF \<Longrightarrow> weight (advance p) < weight p"
  using next_token_length [of "ps_s p"]
  by (auto simp: weight_def advance_def Let_def split: prod.splits)

function skip_eols :: "parser \<Rightarrow> parser" where
  "skip_eols p = (if curr_kind p = TokEOL then skip_eols (advance p) else p)"
  by pat_completeness auto
termination
  by (relation "measure weight") (simp_all add: advance_weight)

declare skip_eols.simps [simp del]

definition accept_tok :: "token_kind \<Rightarrow> parser \<Rightarrow> bool \<times> parser" where
  "accept_tok k p =
     (if curr_kind p \<noteq> k then (False, p)
      else (True, if k = TokEOL then skip_eols p else advance p))"

text \<open>The loop of \<open>address\<close>; the first argument counts the octets still to read.\<close>

fun address_loop :: "nat \<Rightarrow> u32 \<Rightarrow> parser \<Rightarrow> (parse_error + u32) \<times> parser" where
  "address_loop 0 addr p = (Inr addr, p)"
| "address_loop (Suc r) addr p =
     (if curr_kind p \<noteq> TokInt6 \<and> curr_kind p \<noteq> TokInt8 then (Inl (errorf p), p)
      else
        let addr' = push_bit 8 addr OR of_nat (tok_val (ps_curr p));
            p1 = advance p
        in if r > 0 then
             (let (ok, p2) = accept_tok TokDot p1
              in if ok then address_loop r addr' p2 else (Inl (errorf p2), p2))
           else address_loop r addr' p1)"

definition address :: "parser \<Rightarrow> (parse_error + u32) \<times> parser" where
  "address p = address_loop 4 0 p"

definition add_entry :: "u32 \<Rightarrow> u32 \<Rightarrow> parser \<Rightarrow> parse_error option \<times> parser" where
  "add_entry start end p = (None, p\<lparr>ps_bl := add_range start end (ps_typ p) (ps_bl p)\<rparr>)"

definition entry :: "parser \<Rightarrow> parse_error option \<times> parser" where
  "entry p =
     (case address p of
        (Inl err, p1) \<Rightarrow> (Some err, p1)
      | (Inr start, p1) \<Rightarrow>
          (case accept_tok TokSlash p1 of
             (True, p2) \<Rightarrow>
               if curr_kind p2 \<noteq> TokInt6 then (Some (errorf p2), p2)
               else (let bits = of_nat (tok_val (ps_curr p2)) :: u8;
                         p3 = advance p2;
                         (_, hi) = cidr_to_range \<lparr>c_addr = start, c_bits = bits\<rparr>
                     in add_entry start (hi + 1) p3)
           | (False, p2) \<Rightarrow>
               (case accept_tok TokDash p2 of
                  (True, p3) \<Rightarrow>
                    (case address p3 of
                       (Inl err, p4) \<Rightarrow> (Some err, p4)
                     | (Inr hi, p4) \<Rightarrow> add_entry start (hi + 1) p4)
                | (False, p3) \<Rightarrow> add_entry start (start + 1) p3)))"

lemma skip_eols_weight: "weight (skip_eols p) \<le> weight p"
proof (induction p rule: skip_eols.induct)
  case (1 p)
  then show ?case
    using advance_weight [of p] by (cases "curr_kind p = TokEOL") (auto simp: skip_eols.simps [of p])
qed

lemma accept_weight: "k \<noteq> TokEOF \<Longrightarrow> weight (snd (accept_tok k p)) \<le> weight p"
  using advance_weight [of p] skip_eols_weight [of p] by (auto simp: accept_tok_def)

lemma address_loop_weight:
  "weight (snd (address_loop r a p)) + (if r > 0 \<and> \<not> isl (fst (address_loop r a p)) then 1 else 0) \<le> weight p"
proof (induction r arbitrary: a p)
  case (Suc r)
  let ?a = "push_bit 8 a OR of_nat (tok_val (ps_curr p)) :: u32"
  have adv: "curr_kind p = TokInt6 \<or> curr_kind p = TokInt8 \<Longrightarrow> weight (advance p) < weight p"
    using advance_weight [of p] by auto
  have "weight (snd (accept_tok TokDot (advance p))) \<le> weight (advance p)"
    by (rule accept_weight) simp
  with Suc.IH [of ?a "advance p"] Suc.IH [of ?a "snd (accept_tok TokDot (advance p))"] adv show ?case
    by (auto simp: Let_def case_prod_beta split: if_splits)
qed simp

lemma address_weight:
  "weight (snd (address p)) + (if \<not> isl (fst (address p)) then 1 else 0) \<le> weight p"
  using address_loop_weight [of 4 0 p] by (simp add: address_def)

lemma add_entry_weight [simp]: "weight (snd (add_entry a e p)) = weight p"
  by (simp add: add_entry_def weight_def)

lemma entry_weight: "fst (entry p) = None \<Longrightarrow> weight (snd (entry p)) < weight p"
proof -
  assume ok: "fst (entry p) = None"
  then obtain start p1 where p1: "address p = (Inr start, p1)"
    by (auto simp: entry_def split: prod.splits sum.splits)
  then have w1: "weight p1 < weight p" using address_weight [of p] by simp
  obtain b p2 where p2: "accept_tok TokSlash p1 = (b, p2)" by fastforce
  then have w2: "weight p2 \<le> weight p1" using accept_weight [of TokSlash p1] by simp
  obtain b' p3 where p3: "accept_tok TokDash p2 = (b', p3)" by fastforce
  then have w3: "weight p3 \<le> weight p2" using accept_weight [of TokDash p2] by simp
  obtain r p4 where p4: "address p3 = (r, p4)" by fastforce
  then have w4: "weight p4 \<le> weight p3" using address_weight [of p3] by simp
  have adv: "curr_kind p2 = TokInt6 \<Longrightarrow> weight (advance p2) < weight p2" by (rule advance_weight) simp
  show ?thesis using ok w1 w2 w3 w4 adv
    by (auto simp: entry_def p1 p2 p3 p4 Let_def cidr_to_range_def split: bool.splits sum.splits if_splits)
qed

text \<open>The loop of \<open>ParseLimited\<close>, and the function that starts it.\<close>

function parse_entries :: "parser \<Rightarrow> parse_error option \<times> parser" where
  "parse_entries p =
     (if ps_limit p > 0 \<and> int (ps_count p) \<ge> ps_limit p then (Some TooManyEntries, p)
      else
        case entry p of
          (Some err, p1) \<Rightarrow> (Some err, p1)
        | (None, p1) \<Rightarrow>
            (case accept_tok TokEOL (p1\<lparr>ps_count := ps_count p1 + 1\<rparr>) of
               (False, p2) \<Rightarrow>
                 if curr_kind p2 = TokEOF then (None, p2) else (Some (errorf p2), p2)
             | (True, p2) \<Rightarrow>
                 if curr_kind p2 = TokEOF then (None, p2) else parse_entries p2))"
  by pat_completeness auto
termination
proof (relation "measure weight", goal_cases)
  case (2 p x p1 y p2)
  then have "entry p = (None, p1)" by simp
  then have "weight p1 < weight p" using entry_weight [of p] by simp
  moreover have "weight p2 \<le> weight (p1\<lparr>ps_count := ps_count p1 + 1\<rparr>)"
    using accept_weight [of TokEOL "p1\<lparr>ps_count := ps_count p1 + 1\<rparr>"] 2(4) [symmetric] by simp
  ultimately show ?case by (simp add: weight_def)
qed simp

declare parse_entries.simps [simp del]

definition parse_limited :: "string \<Rightarrow> blacklist \<Rightarrow> list_type \<Rightarrow> int \<Rightarrow> parse_error option \<times> blacklist" where
  "parse_limited r bl t max_entries =
     (let p = advance \<lparr>ps_s = new_scanner r, ps_curr = tok TokEOF, ps_bl = bl, ps_typ = t,
                       ps_limit = max_entries, ps_count = 0\<rparr>;
          p1 = snd (accept_tok TokEOL p)
      in if curr_kind p1 = TokEOF then (None, ps_bl p1)
         else (let (e, p2) = parse_entries p1 in (e, ps_bl p2)))"

definition parse_list :: "string \<Rightarrow> blacklist \<Rightarrow> list_type \<Rightarrow> parse_error option \<times> blacklist" where
  "parse_list r bl t = parse_limited r bl t 0"

subsection \<open>The token stream\<close>

text \<open>
  The tokens of an input as a function of the text alone. The scanner, called until it
  reports the end of the input, delivers exactly these.
\<close>

function toks :: "string \<Rightarrow> token list" where
  "toks [] = []"
| "toks (c # cs) =
     (if is_digit c then int_token (fst (lex_num (digit_val c) cs)) # toks (snd (lex_num (digit_val c) cs))
      else if c \<in> {CHR '' '', CHR 0x09, CHR 0x0D} then toks cs
      else if c = CHR ''#'' then toks (dropWhile (\<lambda>c. c \<noteq> newline) cs)
      else if c = newline then tok TokEOL # toks cs
      else if c = CHR ''.'' then tok TokDot # toks cs
      else if c = CHR ''-'' then tok TokDash # toks cs
      else if c = CHR ''/'' then tok TokSlash # toks cs
      else [])"
  by pat_completeness auto
termination
  by (relation "measure length") (auto simp: le_imp_less_Suc lex_num_length length_dropWhile_le)

function scan_all :: "scanner \<Rightarrow> token list" where
  "scan_all s =
     (if tok_kind (fst (next_token s)) = TokEOF then []
      else fst (next_token s) # scan_all (snd (next_token s)))"
  by pat_completeness auto
termination
proof (relation "measure (\<lambda>s. length (sc_in s))", goal_cases)
  case (2 s)
  then show ?case using next_token_length [of s] by simp
qed simp

declare toks.simps [simp del] scan_all.simps [simp del]

lemma scan_all_toks:
  assumes "sc_eof s \<Longrightarrow> sc_in s = []"
  shows "scan_all s = toks (sc_in s)"
  using assms
proof (induction s rule: measure_induct_rule [of "\<lambda>s. length (sc_in s)"])
  case (less s)
  show ?case
  proof (cases "sc_in s")
    case Nil
    then show ?thesis using next_token_eof [of s] by (simp add: scan_all.simps [of s] toks.simps)
  next
    case (Cons c cs)
    then have ne: "\<not> sc_eof s" using less.prems by auto
    from Cons obtain s' where s': "getc s = Some (c, s')" "sc_in s' = cs" "sc_eof s' = sc_eof s"
      by (rule getc_Cons)
    note eq = next_token_getc [OF ne s'(1)]
    have same: "scan_all s = scan_all r" if "next_token s = next_token r" for r
      using that by (simp add: scan_all.simps [of s] scan_all.simps [of r])
    have IH: "scan_all r = toks (sc_in r)"
      if "length (sc_in r) \<le> length cs" "sc_eof r \<Longrightarrow> sc_in r = []" for r
      using less.IH [of r] that Cons by auto
    consider (digit) "is_digit c" | (blank) "\<not> is_digit c" "c \<in> {CHR '' '', CHR 0x09, CHR 0x0D}"
      | (hash) "\<not> is_digit c" "c \<notin> {CHR '' '', CHR 0x09, CHR 0x0D}" "c = CHR ''#''"
      | (other) "\<not> is_digit c" "c \<notin> {CHR '' '', CHR 0x09, CHR 0x0D}" "c \<noteq> CHR ''#''" by blast
    then show ?thesis
    proof cases
      case digit
      then show ?thesis
        using scan_digits_in [of "digit_val c" s'] lex_num_length [of "digit_val c" cs] s' ne Cons
          IH [of "snd (scan_digits (digit_val c) s')"]
        by (simp add: scan_all.simps [of s] eq case_prod_beta toks.simps)
    next
      case blank
      then have "next_token s = next_token s'" unfolding eq by auto
      from same [OF this] IH [of s'] s' ne blank Cons show ?thesis by (simp add: toks.simps)
    next
      case hash
      then have "next_token s = next_token (skip_comment s')" unfolding eq by simp
      from same [OF this] IH [of "skip_comment s'"] skip_comment_in [of s'] s' ne hash Cons
      show ?thesis by (simp add: toks.simps length_dropWhile_le)
    next
      case other
      then show ?thesis using IH [of s'] s' ne Cons
        by (simp add: scan_all.simps [of s] eq toks.simps tok_def)
    qed
  qed
qed

text \<open>The tokens still to be read by a parser, the current one first.\<close>

definition ptoks :: "parser \<Rightarrow> token list" where
  "ptoks p = (if curr_kind p = TokEOF then [] else ps_curr p # scan_all (ps_s p))"

lemma ptoks_advance: "ptoks (advance p) = scan_all (ps_s p)"
  by (simp add: ptoks_def advance_def case_prod_beta scan_all.simps [of "ps_s p"])

lemma advance_frame [simp]:
  "ps_bl (advance p) = ps_bl p" "ps_typ (advance p) = ps_typ p"
  "ps_limit (advance p) = ps_limit p" "ps_count (advance p) = ps_count p"
  by (simp_all add: advance_def case_prod_beta)

lemma ptoks_Cons:
  assumes "ptoks p = t # ts"
  shows "ps_curr p = t" "ptoks (advance p) = ts" "tok_kind t \<noteq> TokEOF"
  using assms unfolding ptoks_advance by (auto simp: ptoks_def split: if_splits)

lemma ptoks_kind: "curr_kind p = (case ptoks p of [] \<Rightarrow> TokEOF | t # _ \<Rightarrow> tok_kind t)"
  by (simp add: ptoks_def)

text \<open>The entries of a list, their tokens and the half-open range each of them adds.\<close>

datatype entry_form = Single u32 | Net u32 nat | Span u32 u32

definition octets :: "u32 \<Rightarrow> nat list" where
  "octets a = [unat (drop_bit 24 a), unat (drop_bit 16 a AND 0xff), unat (drop_bit 8 a AND 0xff), unat (a AND 0xff)]"

fun dotted :: "nat list \<Rightarrow> token list" where
  "dotted [] = []"
| "dotted [n] = [int_token n]"
| "dotted (n # ns) = int_token n # tok TokDot # dotted ns"

fun entry_toks :: "entry_form \<Rightarrow> token list" where
  "entry_toks (Single a) = dotted (octets a)"
| "entry_toks (Net a n) = dotted (octets a) @ [tok TokSlash, int_token n]"
| "entry_toks (Span a b) = dotted (octets a) @ tok TokDash # dotted (octets b)"

fun entry_range :: "entry_form \<Rightarrow> u32 \<times> u32" where
  "entry_range (Single a) = (a, a + 1)"
| "entry_range (Net a n) = (a, snd (cidr_to_range \<lparr>c_addr = a, c_bits = of_nat n\<rparr>) + 1)"
| "entry_range (Span a b) = (a, b + 1)"

fun entry_ok :: "entry_form \<Rightarrow> bool" where
  "entry_ok (Net a n) = (n \<le> 63)"
| "entry_ok _ = True"

lemma octets_fold:
  "foldl (\<lambda>a n. push_bit 8 a OR of_nat n) 0 (octets a) = a" (is "?l = a")
proof (rule bit_word_eqI)
  fix n :: nat
  assume "n < LENGTH(32)"
  then consider "n < 8" | "8 \<le> n" "n < 16" | "16 \<le> n" "n < 24" | "24 \<le> n" "n < 32"
    by fastforce
  moreover have ff: "(0xff :: u32) = mask 8" by (simp add: mask_eq_exp_minus_1)
  ultimately show "bit ?l n \<longleftrightarrow> bit a n"
    unfolding octets_def foldl.simps of_nat_unat ucast_id ff
    by cases (auto simp add: bit_simps)
qed

lemma accept_other: "curr_kind p \<noteq> k \<Longrightarrow> accept_tok k p = (False, p)"
  by (simp add: accept_tok_def)

lemma accept_tok_Cons:
  assumes "ptoks p = tok k # ts" "k \<noteq> TokEOL" "k \<noteq> TokEOF"
  shows "accept_tok k p = (True, advance p)" "ptoks (advance p) = ts"
  using ptoks_Cons [OF assms(1)] assms by (simp_all add: accept_tok_def tok_def)

lemma int_token_val [simp]: "tok_val (int_token n) = n"
  by (simp add: int_token_def)

lemma int_token_int [simp]: "tok_kind (int_token n) = TokInt6 \<or> tok_kind (int_token n) = TokInt8"
  by (simp add: int_token_def)

definition same_frame :: "parser \<Rightarrow> parser \<Rightarrow> bool" where
  "same_frame p q \<longleftrightarrow> ps_bl q = ps_bl p \<and> ps_typ q = ps_typ p \<and> ps_limit q = ps_limit p \<and> ps_count q = ps_count p"

lemma address_loop_toks:
  assumes "ptoks p = dotted ns @ ts" "ns \<noteq> []"
  shows "\<exists>q. address_loop (length ns) a p = (Inr (foldl (\<lambda>a n. push_bit 8 a OR of_nat n) a ns), q) \<and>
             ptoks q = ts \<and> same_frame p q"
  using assms
proof (induction ns arbitrary: a p rule: dotted.induct)
  case (2 n)
  then have p: "ptoks p = int_token n # ts" by simp
  then show ?case
    using ptoks_Cons [OF p] by (auto simp: same_frame_def Let_def int_token_int [of n])
next
  case (3 n m ns)
  then have p: "ptoks p = int_token n # tok TokDot # (dotted (m # ns) @ ts)" by simp
  note p1 = ptoks_Cons [OF p]
  have p2: "accept_tok TokDot (advance p) = (True, advance (advance p))"
    "ptoks (advance (advance p)) = dotted (m # ns) @ ts"
    using accept_tok_Cons [OF p1(2)] by simp_all
  let ?a = "push_bit 8 a OR of_nat n :: u32"
  obtain q where q: "address_loop (length (m # ns)) ?a (advance (advance p)) =
      (Inr (foldl (\<lambda>a n. push_bit 8 a OR of_nat n) ?a (m # ns)), q)" "ptoks q = ts"
      "same_frame (advance (advance p)) q"
    using "3.IH" [OF p2(2), of ?a] by blast
  then show ?case using p1(1) p2(1) int_token_int [of n]
    by (auto simp: same_frame_def Let_def)
qed simp

lemma address_toks:
  assumes "ptoks p = dotted (octets a) @ ts"
  obtains q where "address p = (Inr a, q)" "ptoks q = ts" "same_frame p q"
proof -
  have ne: "octets a \<noteq> []" and len: "length (octets a) = 4" by (simp_all add: octets_def)
  from address_loop_toks [OF assms ne, of 0] that show thesis
    unfolding len octets_fold address_def by blast
qed

text \<open>What an entry may be followed by: nothing that would extend it.\<close>

definition entry_end :: "token list \<Rightarrow> bool" where
  "entry_end ts \<longleftrightarrow> (case ts of [] \<Rightarrow> True | t # _ \<Rightarrow> tok_kind t = TokEOL)"

lemma entry_toks_parse:
  assumes "ptoks p = entry_toks e @ ts" "entry_ok e" "entry_end ts"
  shows "\<exists>q. entry p = (None, q) \<and> ptoks q = ts \<and> ps_typ q = ps_typ p \<and> ps_limit q = ps_limit p \<and>
     ps_count q = ps_count p \<and>
     ps_bl q = add_range (fst (entry_range e)) (snd (entry_range e)) (ps_typ p) (ps_bl p)"
proof (cases e)
  case (Single a)
  with assms(1) obtain q where q: "address p = (Inr a, q)" "ptoks q = ts" "same_frame p q"
    by (auto elim: address_toks)
  have "curr_kind q \<noteq> TokSlash" "curr_kind q \<noteq> TokDash"
    using assms(3) q(2) by (auto simp: ptoks_kind entry_end_def split: list.splits)
  with q Single show ?thesis
    by (auto simp: entry_def accept_other add_entry_def same_frame_def ptoks_def)
next
  case (Net a n)
  with assms(1) obtain q where q: "address p = (Inr a, q)" "ptoks q = tok TokSlash # int_token n # ts" "same_frame p q"
    by (auto elim: address_toks)
  have acc: "accept_tok TokSlash q = (True, advance q)" and q1: "ptoks (advance q) = int_token n # ts"
    using accept_tok_Cons [OF q(2)] by simp_all
  have "curr_kind (advance q) = TokInt6" using ptoks_Cons(1) [OF q1] assms(2) Net by (simp add: int_token_def)
  with q(1,3) acc ptoks_Cons [OF q1] Net show ?thesis
    by (auto simp: entry_def add_entry_def same_frame_def ptoks_def cidr_to_range_def)
next
  case (Span a b)
  with assms(1) obtain q where q: "address p = (Inr a, q)" "ptoks q = tok TokDash # (dotted (octets b) @ ts)" "same_frame p q"
    by (auto elim: address_toks)
  have acc: "accept_tok TokDash q = (True, advance q)" and q1: "ptoks (advance q) = dotted (octets b) @ ts"
    using accept_tok_Cons [OF q(2)] by simp_all
  from q1 obtain r where r: "address (advance q) = (Inr b, r)" "ptoks r = ts" "same_frame (advance q) r"
    by (rule address_toks)
  have "curr_kind q \<noteq> TokSlash" using ptoks_Cons(1) [OF q(2)] by (simp add: tok_def)
  with q(1,3) acc r Span show ?thesis
    by (auto simp: entry_def accept_other add_entry_def same_frame_def ptoks_def)
qed

text \<open>
  The tokens of the rest of a list: line ends and entries, every entry closed by a line end.
\<close>

datatype list_line = Blank string | Line entry_form string

fun line_toks :: "list_line \<Rightarrow> token list" where
  "line_toks (Blank c) = [tok TokEOL]"
| "line_toks (Line e c) = entry_toks e @ [tok TokEOL]"

fun line_entries :: "list_line list \<Rightarrow> entry_form list" where
  "line_entries [] = []"
| "line_entries (Blank c # ls) = line_entries ls"
| "line_entries (Line e c # ls) = e # line_entries ls"

abbreviation is_blank :: "list_line \<Rightarrow> bool" where
  "is_blank l \<equiv> (case l of Blank _ \<Rightarrow> True | Line _ _ \<Rightarrow> False)"

lemma entry_toks_hd: "\<exists>n ts. entry_toks e = int_token n # ts"
  by (cases e) (auto simp: octets_def)

lemma skip_eols_toks:
  assumes "ptoks p = concat (map line_toks ls)"
  shows "ptoks (skip_eols p) = concat (map line_toks (dropWhile is_blank ls)) \<and> same_frame p (skip_eols p)"
  using assms
proof (induction ls arbitrary: p)
  case Nil
  then show ?case using ptoks_kind [of p] by (simp add: skip_eols.simps [of p] same_frame_def)
next
  case (Cons l ls)
  show ?case
  proof (cases l)
    case (Blank c)
    then have p: "ptoks p = tok TokEOL # concat (map line_toks ls)" using Cons.prems by simp
    with Cons.IH [of "advance p"] ptoks_Cons [OF p] Blank show ?thesis
      by (simp add: skip_eols.simps [of p] tok_def same_frame_def)
  next
    case (Line e c)
    obtain n ts where "entry_toks e = int_token n # ts" using entry_toks_hd by blast
    with Line Cons.prems have "curr_kind p = tok_kind (int_token n)" by (simp add: ptoks_kind)
    with Line Cons.prems show ?thesis by (simp add: skip_eols.simps [of p] same_frame_def)
  qed
qed

lemma accept_eol_toks:
  assumes "ptoks p = tok TokEOL # concat (map line_toks ls)"
  shows "\<exists>q. accept_tok TokEOL p = (True, q) \<and> ptoks q = concat (map line_toks (dropWhile is_blank ls)) \<and> same_frame p q"
proof -
  have "curr_kind p = TokEOL" using ptoks_Cons [OF assms] by (simp add: tok_def)
  moreover have "ptoks p = concat (map line_toks (Blank [] # ls))" using assms by simp
  ultimately show ?thesis using skip_eols_toks [of p "Blank [] # ls"] by (simp add: accept_tok_def)
qed

lemma line_entries_dropWhile [simp]: "line_entries (dropWhile is_blank ls) = line_entries ls"
  by (induction ls rule: line_entries.induct) auto

definition typed_ranges :: "list_type \<Rightarrow> entry_form list \<Rightarrow> range_spec list" where
  "typed_ranges t es = map (\<lambda>e. (fst (entry_range e), snd (entry_range e), t)) es"

lemma typed_ranges_Cons [simp]:
  "add_ranges (typed_ranges t (e # es)) b =
     add_ranges (typed_ranges t es) (add_range (fst (entry_range e)) (snd (entry_range e)) t b)"
  by (simp add: typed_ranges_def)

lemma parse_entries_toks:
  assumes "ptoks p = concat (map line_toks (dropWhile is_blank ls))" "line_entries ls \<noteq> []"
    "list_all entry_ok (line_entries ls)" "ps_limit p \<le> 0 \<or> int (ps_count p + length (line_entries ls)) \<le> ps_limit p"
  shows "\<exists>q. parse_entries p = (None, q) \<and>
     ps_bl q = add_ranges (typed_ranges (ps_typ p) (line_entries ls)) (ps_bl p)"
  using assms
proof (induction "length ls" arbitrary: p ls rule: less_induct)
  case less
  obtain e c ms where ms: "dropWhile is_blank ls = Line e c # ms"
    using less.prems(2) by (induction ls rule: line_entries.induct) auto
  have len: "length ms < length ls" using ms length_dropWhile_le [of is_blank ls] by simp
  have es: "line_entries ls = e # line_entries ms"
    using line_entries_dropWhile [of ls] ms by simp
  have p: "ptoks p = entry_toks e @ (tok TokEOL # concat (map line_toks ms))"
    using less.prems(1) ms by simp
  have "entry_ok e" using less.prems(3) es by simp
  moreover have "entry_end (tok TokEOL # concat (map line_toks ms))" by (simp add: entry_end_def tok_def)
  ultimately obtain q where q: "entry p = (None, q)" "ptoks q = tok TokEOL # concat (map line_toks ms)"
    "ps_typ q = ps_typ p" "ps_limit q = ps_limit p"
    "ps_bl q = add_range (fst (entry_range e)) (snd (entry_range e)) (ps_typ p) (ps_bl p)" "ps_count q = ps_count p"
    using entry_toks_parse [OF p] by blast
  let ?q = "q\<lparr>ps_count := ps_count q + 1\<rparr>"
  have "ptoks ?q = ptoks q" by (simp add: ptoks_def)
  with q(2) obtain r where r: "accept_tok TokEOL ?q = (True, r)"
    "ptoks r = concat (map line_toks (dropWhile is_blank ms))" "same_frame ?q r"
    using accept_eol_toks [of ?q ms] by auto
  have unf: "parse_entries p = (if curr_kind r = TokEOF then (None, r) else parse_entries r)"
    using less.prems(4) q(1) r(1) es by (auto simp: parse_entries.simps [of p])
  show ?case
  proof (cases "line_entries ms = []")
    case True
    then have "dropWhile is_blank ms = []" by (induction ms rule: line_entries.induct) auto
    with r(2) have "curr_kind r = TokEOF" by (simp add: ptoks_kind)
    then show ?thesis using unf True es q r(3) by (simp add: same_frame_def typed_ranges_def)
  next
    case False
    then obtain e' c' ns where "dropWhile is_blank ms = Line e' c' # ns"
      by (induction ms rule: line_entries.induct) auto
    moreover obtain n ts where "entry_toks e' = int_token n # ts" using entry_toks_hd by blast
    ultimately have "curr_kind r \<noteq> TokEOF" using r(2) by (simp add: ptoks_kind)
    moreover have "list_all entry_ok (line_entries ms)" "ps_limit r \<le> 0 \<or> int (ps_count r + length (line_entries ms)) \<le> ps_limit r"
      using less.prems(3,4) es r(3) q(4,6) by (auto simp: same_frame_def)
    ultimately show ?thesis
      using unf less.hyps [OF len r(2) False] es q r(3) by (simp add: same_frame_def)
  qed
qed

subsection \<open>The text of a list\<close>

fun entry_text :: "entry_form \<Rightarrow> string" where
  "entry_text (Single a) = dotted_quad a"
| "entry_text (Net a n) = dotted_quad a @ ''/'' @ itoa n"
| "entry_text (Span a b) = dotted_quad a @ '' - '' @ dotted_quad b"

definition comment_text :: "string \<Rightarrow> string" where
  "comment_text c = (if c = [] then [] else '' #'' @ c)"

fun line_text :: "list_line \<Rightarrow> string" where
  "line_text (Blank c) = comment_text c @ [newline]"
| "line_text (Line e c) = entry_text e @ comment_text c @ [newline]"

definition list_text :: "list_line list \<Rightarrow> string" where
  "list_text ls = concat (map line_text ls)"

fun line_ok :: "list_line \<Rightarrow> bool" where
  "line_ok (Blank c) = (newline \<notin> set c)"
| "line_ok (Line e c) = (entry_ok e \<and> newline \<notin> set c)"

definition no_digit :: "string \<Rightarrow> bool" where
  "no_digit r \<longleftrightarrow> (case r of [] \<Rightarrow> True | c # _ \<Rightarrow> \<not> is_digit c)"

lemma foldl_digits_mono: "i \<le> foldl (\<lambda>a c. a * 10 + digit_val c) i ds"
proof (induction ds arbitrary: i)
  case (Cons d ds)
  from Cons [of "i * 10 + digit_val d"] show ?case by simp
qed simp

lemma lex_num_digits:
  assumes "list_all is_digit ds" "foldl (\<lambda>a c. a * 10 + digit_val c) i ds \<le> 255" "no_digit r"
  shows "lex_num i (ds @ r) = (foldl (\<lambda>a c. a * 10 + digit_val c) i ds, r)"
  using assms
proof (induction ds arbitrary: i)
  case Nil
  then show ?case by (cases r) (auto simp: no_digit_def)
next
  case (Cons d ds)
  have "i * 10 + digit_val d \<le> 255"
    using Cons.prems(2) foldl_digits_mono [of "i * 10 + digit_val d" ds] by simp
  with Cons show ?case by simp
qed

lemma toks_itoa:
  assumes "n \<le> 255" "no_digit r"
  shows "toks (itoa n @ r) = int_token n # toks r"
proof -
  obtain c ds where ds: "itoa n = c # ds" by (cases "itoa n") auto
  then have d: "is_digit c" "list_all is_digit ds" using itoa_digits [of n] by simp_all
  have "foldl (\<lambda>a c. a * 10 + digit_val c) (digit_val c) ds = n"
    using digits_val_itoa [of n] by (simp add: ds digits_val_def)
  with lex_num_digits [OF d(2), of "digit_val c" r] assms d(1) show ?thesis
    by (simp add: ds toks.simps)
qed

lemma toks_simps [simp]:
  "toks [] = []" "toks (newline # cs) = tok TokEOL # toks cs" "toks (CHR ''.'' # cs) = tok TokDot # toks cs"
  "toks (CHR ''-'' # cs) = tok TokDash # toks cs" "toks (CHR ''/'' # cs) = tok TokSlash # toks cs"
  "toks (CHR '' '' # cs) = toks cs"
  by (simp_all add: toks.simps)

lemma octets_le: "n \<in> set (octets a) \<Longrightarrow> n \<le> 255"
proof -
  have "unat (w AND 0xff :: u32) \<le> 255" for w
    using word_and_le1 [of w "0xff"] by (simp add: word_le_nat_alt and.commute)
  moreover have "unat (drop_bit 24 a) \<le> 255"
    using unat_drop24 [of a] by simp
  ultimately show "n \<in> set (octets a) \<Longrightarrow> n \<le> 255" by (auto simp: octets_def)
qed

lemma toks_dotted_quad:
  assumes "no_digit r"
  shows "toks (dotted_quad a @ r) = dotted (octets a) @ toks r"
  using assms octets_le [of _ a]
  by (simp add: dotted_quad_Cons octets_def toks_itoa no_digit_def)

lemma dropWhile_newline: "newline \<notin> set c \<Longrightarrow> dropWhile (\<lambda>c. c \<noteq> newline) (c @ newline # r) = newline # r"
  by (induction c) auto

lemma toks_comment: "newline \<notin> set c \<Longrightarrow> toks (comment_text c @ newline # r) = tok TokEOL # toks r"
  using dropWhile_newline [of c r]
  by (auto simp: comment_text_def toks.simps(2) [of "CHR ''#''"])

lemma no_digit_comment: "no_digit (comment_text c @ newline # r)"
  by (simp add: no_digit_def comment_text_def)

lemma toks_line: "line_ok l \<Longrightarrow> toks (line_text l @ r) = line_toks l @ toks r"
proof (cases l)
  case (Line e c)
  moreover assume "line_ok l"
  ultimately have c: "newline \<notin> set c" "entry_ok e" by simp_all
  show ?thesis
    using c Line no_digit_comment [of c r]
    by (cases e) (simp_all add: toks_dotted_quad toks_itoa toks_comment no_digit_def)
qed (simp add: toks_comment)

lemma toks_list_text: "list_all line_ok ls \<Longrightarrow> toks (list_text ls) = concat (map line_toks ls)"
  by (induction ls) (simp_all add: list_text_def toks_line)

lemma parse_limited_text:
  assumes "list_all line_ok ls" "m \<le> 0 \<or> int (length (line_entries ls)) \<le> m"
  shows "parse_limited (list_text ls) bl t m = (None, add_ranges (typed_ranges t (line_entries ls)) bl)"
proof -
  let ?p0 = "\<lparr>ps_s = new_scanner (list_text ls), ps_curr = tok TokEOF, ps_bl = bl, ps_typ = t, ps_limit = m, ps_count = 0\<rparr>"
  let ?p = "advance ?p0"
  have p: "ptoks ?p = concat (map line_toks ls)"
    unfolding ptoks_advance using scan_all_toks [of "new_scanner (list_text ls)"] toks_list_text [OF assms(1)]
    by (simp add: new_scanner_def)
  let ?p1 = "snd (accept_tok TokEOL ?p)"
  have p1: "ptoks ?p1 = concat (map line_toks (dropWhile is_blank ls)) \<and> same_frame ?p ?p1"
  proof (cases "curr_kind ?p = TokEOL")
    case True
    then show ?thesis using skip_eols_toks [OF p] by (simp add: accept_tok_def)
  next
    case False
    then have "skip_eols ?p = ?p" by (simp add: skip_eols.simps)
    then show ?thesis using skip_eols_toks [OF p] False by (simp add: accept_other)
  qed
  have ok: "list_all entry_ok (line_entries ls)"
    using assms(1) by (induction ls rule: line_entries.induct) auto
  show ?thesis
  proof (cases "line_entries ls = []")
    case True
    then have "dropWhile is_blank ls = []" by (induction ls rule: line_entries.induct) auto
    with p1 have "curr_kind ?p1 = TokEOF" by (simp add: ptoks_kind)
    with True p1 show ?thesis by (simp add: parse_limited_def same_frame_def typed_ranges_def)
  next
    case False
    then obtain e c ms where ms: "dropWhile is_blank ls = Line e c # ms"
      by (induction ls rule: line_entries.induct) auto
    obtain n ts where "entry_toks e = int_token n # ts" using entry_toks_hd by blast
    with p1 ms have "curr_kind ?p1 \<noteq> TokEOF" by (simp add: ptoks_kind)
    moreover obtain q where "parse_entries ?p1 = (None, q)"
      "ps_bl q = add_ranges (typed_ranges (ps_typ ?p1) (line_entries ls)) (ps_bl ?p1)"
      using parse_entries_toks [of ?p1 ls] p1 False ok assms(2) by (auto simp: same_frame_def)
    ultimately show ?thesis using p1 by (simp add: parse_limited_def same_frame_def Let_def)
  qed
qed

subsection \<open>Every outcome of the parser\<close>

lemma skip_eols_same: "same_frame p (skip_eols p)"
proof (induction p rule: skip_eols.induct)
  case (1 p)
  then show ?case
    by (cases "curr_kind p = TokEOL") (auto simp: skip_eols.simps [of p] same_frame_def)
qed

lemma skip_eols_frame [simp]:
  "ps_bl (skip_eols p) = ps_bl p" "ps_typ (skip_eols p) = ps_typ p"
  "ps_limit (skip_eols p) = ps_limit p" "ps_count (skip_eols p) = ps_count p"
  using skip_eols_same [of p] by (simp_all add: same_frame_def)

lemma accept_frame: "same_frame p (snd (accept_tok k p))"
  by (simp add: accept_tok_def same_frame_def)

lemma same_frame_trans: "same_frame p q \<Longrightarrow> same_frame q r \<Longrightarrow> same_frame p r"
  by (simp add: same_frame_def)

lemma same_frame_refl [simp]: "same_frame p p" "same_frame p (advance p)"
  by (simp_all add: same_frame_def)

lemma address_loop_frame: "same_frame p (snd (address_loop r a p))"
proof (induction r arbitrary: a p)
  case (Suc r)
  have "same_frame p (snd (accept_tok TokDot (advance p)))"
    using same_frame_trans [OF same_frame_refl(2) accept_frame] .
  with Suc show ?case
    by (auto simp: Let_def case_prod_beta intro: same_frame_trans same_frame_refl)
qed simp

lemma address_frame: "same_frame p (snd (address p))"
  by (simp add: address_def address_loop_frame)

definition entry_outcome :: "parser \<Rightarrow> parse_error option \<times> parser \<Rightarrow> bool" where
  "entry_outcome p r \<longleftrightarrow>
     (case r of
        (Some err, q) \<Rightarrow> err \<noteq> TooManyEntries \<and> same_frame p q
      | (None, q) \<Rightarrow> \<exists>a e. same_frame (p\<lparr>ps_bl := add_range a e (ps_typ p) (ps_bl p)\<rparr>) q)"

lemma add_entry_outcome: "same_frame p q \<Longrightarrow> entry_outcome p (add_entry a e q)"
  by (auto simp: entry_outcome_def add_entry_def same_frame_def)

lemma error_outcome: "same_frame p q \<Longrightarrow> err \<noteq> TooManyEntries \<Longrightarrow> entry_outcome p (Some err, q)"
  by (simp add: entry_outcome_def)

lemma errorf_ne [simp]: "errorf p \<noteq> TooManyEntries"
  by (simp add: errorf_def)

lemma address_loop_error: "fst (address_loop r a p) \<noteq> Inl TooManyEntries"
  by (induction r arbitrary: a p) (auto simp: Let_def case_prod_beta)

lemma entry_outcomes: "entry_outcome p (entry p)"
proof -
  obtain r p1 where 1: "address p = (r, p1)" by fastforce
  obtain b p2 where 2: "accept_tok TokSlash p1 = (b, p2)" by fastforce
  obtain b' p3 where 3: "accept_tok TokDash p2 = (b', p3)" by fastforce
  obtain r' p4 where 4: "address p3 = (r', p4)" by fastforce
  have f: "same_frame p p1" "same_frame p p2" "same_frame p p3" "same_frame p p4" "same_frame p (advance p2)"
    using address_frame [of p] accept_frame [of p1 TokSlash] accept_frame [of p2 TokDash] address_frame [of p3]
    by (simp_all add: 1 2 3 4 same_frame_def)
  have e: "r \<noteq> Inl TooManyEntries" "r' \<noteq> Inl TooManyEntries"
    using address_loop_error [of 4 0 p] address_loop_error [of 4 0 p3] 1 4 by (auto simp: address_def)
  show ?thesis using f e
    by (auto simp: entry_def 1 2 3 4 Let_def case_prod_beta intro!: add_entry_outcome error_outcome
        split: sum.splits bool.splits)
qed

lemma parse_entries_outcome:
  assumes "ps_limit p > 0 \<Longrightarrow> int (ps_count p) \<le> ps_limit p"
  shows "\<exists>rs. ps_bl (snd (parse_entries p)) = add_ranges rs (ps_bl p) \<and> (\<forall>(a, e, t) \<in> set rs. t = ps_typ p) \<and>
     (ps_limit p > 0 \<longrightarrow> int (ps_count p + length rs) \<le> ps_limit p) \<and>
     (fst (parse_entries p) = Some TooManyEntries \<longrightarrow>
        ps_limit p > 0 \<and> int (ps_count p + length rs) = ps_limit p)"
  using assms
proof (induction p rule: parse_entries.induct)
  case (1 p)
  show ?case
  proof (cases "ps_limit p > 0 \<and> int (ps_count p) \<ge> ps_limit p")
    case True
    with 1 show ?thesis by (intro exI [of _ "[]"]) (auto simp: parse_entries.simps [of p])
  next
    case False
    obtain r p1 where p1: "entry p = (r, p1)" by fastforce
    show ?thesis
    proof (cases r)
      case (Some err)
      then have "parse_entries p = (Some err, p1)" using False p1 by (auto simp: parse_entries.simps [of p])
      with Some entry_outcomes [of p] p1 1(2) show ?thesis
        by (intro exI [of _ "[]"]) (auto simp: entry_outcome_def same_frame_def)
    next
      case None
      obtain b p2 where p2: "accept_tok TokEOL (p1\<lparr>ps_count := ps_count p1 + 1\<rparr>) = (b, p2)" by fastforce
      obtain a e where ae: "same_frame (p\<lparr>ps_bl := add_range a e (ps_typ p) (ps_bl p)\<rparr>) p1"
        using entry_outcomes [of p] p1 None by (auto simp: entry_outcome_def)
      with accept_frame [of "p1\<lparr>ps_count := ps_count p1 + 1\<rparr>" TokEOL] p2
      have f: "ps_bl p2 = add_range a e (ps_typ p) (ps_bl p)" "ps_typ p2 = ps_typ p"
        "ps_limit p2 = ps_limit p" "ps_count p2 = ps_count p + 1"
        by (simp_all add: same_frame_def)
      have lim: "ps_limit p2 > 0 \<Longrightarrow> int (ps_count p2) \<le> ps_limit p2" using f False by auto
      show ?thesis
      proof (cases "b \<and> curr_kind p2 \<noteq> TokEOF")
        case True
        then have unf: "parse_entries p = parse_entries p2"
          using False p1 None p2 by (auto simp: parse_entries.simps [of p])
        from "1.IH" [OF False p1 [symmetric, unfolded None] refl p2 [symmetric]] True lim obtain rs where rs:
          "ps_bl (snd (parse_entries p2)) = add_ranges rs (ps_bl p2)" "\<forall>(a, e, t) \<in> set rs. t = ps_typ p2"
          "ps_limit p2 > 0 \<longrightarrow> int (ps_count p2 + length rs) \<le> ps_limit p2"
          "fst (parse_entries p2) = Some TooManyEntries \<longrightarrow>
             ps_limit p2 > 0 \<and> int (ps_count p2 + length rs) = ps_limit p2" by blast
        with unf f show ?thesis by (intro exI [of _ "(a, e, ps_typ p) # rs"]) auto
      next
        case notmore: False
        then have "snd (parse_entries p) = p2" "fst (parse_entries p) \<noteq> Some TooManyEntries"
          using False p1 None p2 by (cases b; auto simp: parse_entries.simps [of p])+
        with f lim show ?thesis by (intro exI [of _ "[(a, e, ps_typ p)]"]) auto
      qed
    qed
  qed
qed

subsection \<open>Properties of the parser\<close>





end
