(* ===== verification/Greyd_Config.thy ===== *)
theory Greyd_Config
  imports Go_Strings "HOL-Library.AList" "HOL-Library.List_Lexorder" "HOL-Library.Char_ord"
begin

text \<open>
  The configuration: \<open>internal/config\<close> with its values, sections, the table of sections and lists,
  and the queue of included files, and \<open>internal/config/parse\<close>, which builds them from the syntax tree.
  The lexer and parser are generated by ANTLR and are a parameter, as are the file system and globbing.
\<close>

subsection \<open>Values\<close>

datatype conf_value = IntValue int | StrValue string | ListValue "conf_value list"

fun clone :: "conf_value \<Rightarrow> conf_value" where
  "clone (IntValue i) = IntValue i"
| "clone (StrValue s) = StrValue s"
| "clone (ListValue vs) = ListValue (map clone vs)"

fun value_strings :: "conf_value option \<Rightarrow> string list" where
  "value_strings None = []"
| "value_strings (Some (StrValue s)) = [s]"
| "value_strings (Some (ListValue vs)) = concat (map (\<lambda>v. case v of StrValue s \<Rightarrow> [s] | _ \<Rightarrow> []) vs)"
| "value_strings (Some (IntValue _)) = []"

subsection \<open>Sections\<close>

record conf_section =
  cs_name :: string
  cs_vars :: "(string \<times> conf_value) list"
  cs_order :: "string list"

definition new_section :: "string \<Rightarrow> conf_section" where
  "new_section name = \<lparr>cs_name = name, cs_vars = [], cs_order = []\<rparr>"

text \<open>A nil section has no variables.\<close>

definition section_get :: "string \<Rightarrow> conf_section option \<Rightarrow> conf_value option" where
  "section_get var s = (case s of None \<Rightarrow> None | Some s \<Rightarrow> map_of (cs_vars s) var)"

definition section_set :: "string \<Rightarrow> conf_value \<Rightarrow> conf_section \<Rightarrow> conf_section" where
  "section_set var v s =
     s\<lparr>cs_vars := AList.update var v (cs_vars s),
       cs_order := (if map_of (cs_vars s) var = None then cs_order s @ [var] else cs_order s)\<rparr>"

definition section_delete :: "string \<Rightarrow> conf_section \<Rightarrow> conf_section" where
  "section_delete var s =
     (if map_of (cs_vars s) var = None then s
      else s\<lparr>cs_vars := AList.delete var (cs_vars s), cs_order := remove1 var (cs_order s)\<rparr>)"

definition section_int :: "string \<Rightarrow> int \<Rightarrow> conf_section option \<Rightarrow> int" where
  "section_int var def s = (case section_get var s of Some (IntValue i) \<Rightarrow> i | _ \<Rightarrow> def)"

definition section_str :: "string \<Rightarrow> string \<Rightarrow> conf_section option \<Rightarrow> string" where
  "section_str var def s = (case section_get var s of Some (StrValue t) \<Rightarrow> t | _ \<Rightarrow> def)"

definition section_list :: "string \<Rightarrow> conf_section option \<Rightarrow> conf_value list" where
  "section_list var s = (case section_get var s of Some (ListValue vs) \<Rightarrow> vs | _ \<Rightarrow> [])"

definition section_keys :: "conf_section option \<Rightarrow> string list" where
  "section_keys s = (case s of None \<Rightarrow> [] | Some s \<Rightarrow> cs_order s)"

subsection \<open>The table\<close>

record config_table =
  ct_sections :: "(string \<times> conf_section) list"
  ct_blacklists :: "(string \<times> conf_section) list"
  ct_whitelists :: "(string \<times> conf_section) list"
  ct_order :: "string list"
  ct_processed :: "string list"
  ct_includes :: "string list"

definition default_section :: string where "default_section = ''default''"

definition new_config :: config_table where
  "new_config = \<lparr>ct_sections = [], ct_blacklists = [], ct_whitelists = [], ct_order = [], ct_processed = [], ct_includes = []\<rparr>"

definition add_section :: "conf_section \<Rightarrow> config_table \<Rightarrow> config_table" where
  "add_section s c =
     c\<lparr>ct_sections := AList.update (cs_name s) s (ct_sections c),
       ct_order := (if map_of (ct_sections c) (cs_name s) = None then ct_order c @ [cs_name s] else ct_order c)\<rparr>"

definition add_blacklist_def :: "conf_section \<Rightarrow> config_table \<Rightarrow> config_table" where
  "add_blacklist_def s c = c\<lparr>ct_blacklists := AList.update (cs_name s) s (ct_blacklists c)\<rparr>"

definition add_whitelist_def :: "conf_section \<Rightarrow> config_table \<Rightarrow> config_table" where
  "add_whitelist_def s c = c\<lparr>ct_whitelists := AList.update (cs_name s) s (ct_whitelists c)\<rparr>"

definition section_name :: "string \<Rightarrow> string" where
  "section_name name = (if name = [] then default_section else name)"

definition find_section :: "string \<Rightarrow> config_table \<Rightarrow> conf_section option" where
  "find_section name c = map_of (ct_sections c) (section_name name)"

definition blacklist_names :: "config_table \<Rightarrow> string list" where
  "blacklist_names c = sort (map fst (ct_blacklists c))"

definition whitelist_names :: "config_table \<Rightarrow> string list" where
  "whitelist_names c = sort (map fst (ct_whitelists c))"

definition ensure_section :: "string \<Rightarrow> config_table \<Rightarrow> conf_section \<times> config_table" where
  "ensure_section name c =
     (case find_section name c of
        Some s \<Rightarrow> (s, c)
      | None \<Rightarrow> (let s = new_section (section_name name) in (s, add_section s c)))"

text \<open>A change of a section through its pointer.\<close>

definition on_section :: "string \<Rightarrow> (conf_section \<Rightarrow> conf_section) \<Rightarrow> config_table \<Rightarrow> config_table" where
  "on_section name f c =
     (let (s, c1) = ensure_section name c
      in c1\<lparr>ct_sections := AList.update (section_name name) (f s) (ct_sections c1)\<rparr>)"

definition conf_int :: "string \<Rightarrow> string \<Rightarrow> int \<Rightarrow> config_table \<Rightarrow> int" where
  "conf_int var sec def c = section_int var def (find_section sec c)"

definition conf_str :: "string \<Rightarrow> string \<Rightarrow> string \<Rightarrow> config_table \<Rightarrow> string" where
  "conf_str var sec def c = section_str var def (find_section sec c)"

definition conf_bool :: "string \<Rightarrow> string \<Rightarrow> bool \<Rightarrow> config_table \<Rightarrow> bool" where
  "conf_bool var sec def c = (conf_int var sec (if def then 1 else 0) c \<noteq> 0)"

definition conf_list :: "string \<Rightarrow> string \<Rightarrow> config_table \<Rightarrow> conf_value list" where
  "conf_list var sec c = section_list var (find_section sec c)"

definition conf_str_list :: "string \<Rightarrow> string \<Rightarrow> config_table \<Rightarrow> string list" where
  "conf_str_list var sec c = value_strings (section_get var (find_section sec c))"

definition set_int :: "string \<Rightarrow> string \<Rightarrow> int \<Rightarrow> config_table \<Rightarrow> config_table" where
  "set_int var sec i = on_section sec (section_set var (IntValue i))"

definition set_str :: "string \<Rightarrow> string \<Rightarrow> string \<Rightarrow> config_table \<Rightarrow> config_table" where
  "set_str var sec s = on_section sec (section_set var (StrValue s))"

definition conf_delete :: "string \<Rightarrow> string \<Rightarrow> config_table \<Rightarrow> config_table" where
  "conf_delete var sec c = (if find_section sec c = None then c else on_section sec (section_delete var) c)"

definition append_list_str :: "string \<Rightarrow> string \<Rightarrow> string \<Rightarrow> config_table \<Rightarrow> config_table" where
  "append_list_str var sec str =
     on_section sec (\<lambda>s. section_set var (ListValue (section_list var (Some s) @ [StrValue str])) s)"

text \<open>Every variable of every section is copied over.\<close>

fun copy_vars :: "string list \<Rightarrow> conf_section \<Rightarrow> conf_section \<Rightarrow> conf_section" where
  "copy_vars [] src dst = dst"
| "copy_vars (k # ks) src dst =
     copy_vars ks src (case map_of (cs_vars src) k of None \<Rightarrow> dst | Some v \<Rightarrow> section_set k (clone v) dst)"

fun merge_sections :: "string list \<Rightarrow> config_table \<Rightarrow> config_table \<Rightarrow> config_table" where
  "merge_sections [] src c = c"
| "merge_sections (n # ns) src c =
     merge_sections ns src
       (case map_of (ct_sections src) n of None \<Rightarrow> c | Some s \<Rightarrow> on_section n (copy_vars (cs_order s) s) c)"

definition merge_config :: "config_table \<Rightarrow> config_table \<Rightarrow> config_table" where
  "merge_config src c = merge_sections (ct_order src) src c"

subsection \<open>The builder\<close>

text \<open>The syntax tree, with the text of its tokens.\<close>

datatype value_tree = TInt string | TStr string | TList "value_tree list"

datatype section_kind = PlainSection | BlacklistSection | WhitelistSection

datatype statement =
    Assignment string value_tree
  | SectionStatement section_kind string "(string \<times> value_tree) list"
  | Include string

datatype conf_error = SyntaxProblem | IntegerOutOfRange | FileUnreadable string

fun unescape :: "string \<Rightarrow> bool \<Rightarrow> string" where
  "unescape [] esc = []"
| "unescape (c # cs) esc = (if c = CHR 0x5C \<and> \<not> esc then unescape cs True else c # unescape cs False)"

definition unquote :: "string \<Rightarrow> string" where
  "unquote s =
     unescape (if 2 \<le> length s \<and> hd s = CHR 0x22 \<and> last s = CHR 0x22 then butlast (List.tl s) else s) False"

fun build_value :: "value_tree \<Rightarrow> conf_value option" where
  "build_value (TInt t) = map_option IntValue (parse_int t)"
| "build_value (TStr t) = Some (StrValue (unquote t))"
| "build_value (TList ts) =
     (let vs = map build_value ts in if list_all (\<lambda>v. v \<noteq> None) vs then Some (ListValue (map the vs)) else None)"

definition build_assignment :: "string \<Rightarrow> value_tree \<Rightarrow> conf_section \<Rightarrow> conf_section option" where
  "build_assignment name t sec = map_option (\<lambda>v. section_set (to_lower name) v sec) (build_value t)"

text \<open>The assignments of a section up to the first that fails, and whether one did.\<close>

fun build_assignments :: "(string \<times> value_tree) list \<Rightarrow> conf_section \<Rightarrow> bool \<times> conf_section" where
  "build_assignments [] sec = (True, sec)"
| "build_assignments ((n, t) # as) sec =
     (case build_assignment n t sec of None \<Rightarrow> (False, sec) | Some sec' \<Rightarrow> build_assignments as sec')"

definition build_section :: "section_kind \<Rightarrow> string \<Rightarrow> (string \<times> value_tree) list \<Rightarrow> config_table \<Rightarrow> bool \<times> config_table" where
  "build_section kind name as c =
     (let (ok, sec) = build_assignments as (new_section (to_lower name))
      in (ok, case kind of
                BlacklistSection \<Rightarrow> add_blacklist_def sec c
              | WhitelistSection \<Rightarrow> add_whitelist_def sec c
              | PlainSection \<Rightarrow> add_section sec c))"

subsection \<open>Files\<close>

text \<open>The file system: contents, the files that match a pattern, and the home directory.\<close>

record file_system =
  fs_read :: "string \<Rightarrow> string option"
  fs_glob :: "string \<Rightarrow> string list"
  fs_home :: "string option"
  fs_parse :: "string \<Rightarrow> statement list option"

definition expand_tilde :: "file_system \<Rightarrow> string \<Rightarrow> string" where
  "expand_tilde fs p =
     (if p = ''~'' \<or> has_prefix p ''~/'' then (case fs_home fs of Some h \<Rightarrow> h @ List.tl p | None \<Rightarrow> p) else p)"

definition add_include :: "file_system \<Rightarrow> string \<Rightarrow> config_table \<Rightarrow> config_table" where
  "add_include fs pattern c =
     c\<lparr>ct_includes := ct_includes c @ filter (\<lambda>m. m \<notin> set (ct_processed c)) (sort (fs_glob fs (expand_tilde fs pattern)))\<rparr>"

definition build_statement :: "file_system \<Rightarrow> statement \<Rightarrow> config_table \<Rightarrow> bool \<times> config_table" where
  "build_statement fs st c =
     (case st of
        Assignment n t \<Rightarrow>
          (case find_section default_section c of
             None \<Rightarrow> (False, c)
           | Some sec \<Rightarrow>
               (case build_assignment n t sec of
                  None \<Rightarrow> (False, c)
                | Some sec' \<Rightarrow> (True, c\<lparr>ct_sections := AList.update default_section sec' (ct_sections c)\<rparr>)))
      | SectionStatement kind n as \<Rightarrow> build_section kind n as c
      | Include t \<Rightarrow> (True, add_include fs (unquote t) c))"

fun build_statements :: "file_system \<Rightarrow> statement list \<Rightarrow> config_table \<Rightarrow> bool \<times> config_table" where
  "build_statements fs [] c = (True, c)"
| "build_statements fs (st # sts) c =
     (let (ok, c') = build_statement fs st c in if ok then build_statements fs sts c' else (False, c'))"

definition parse_into :: "file_system \<Rightarrow> string \<Rightarrow> config_table \<Rightarrow> conf_error + config_table" where
  "parse_into fs src c =
     (case fs_parse fs src of
        None \<Rightarrow> Inl SyntaxProblem
      | Some sts \<Rightarrow>
          (let c1 = (if find_section default_section c = None then add_section (new_section default_section) c else c);
               (ok, c2) = build_statements fs sts c1
           in if ok then Inr c2 else Inl IntegerOutOfRange))"

definition load_one :: "file_system \<Rightarrow> string \<Rightarrow> config_table \<Rightarrow> conf_error + config_table" where
  "load_one fs path c =
     (if path = [] then Inr c
      else case fs_read fs path of
        None \<Rightarrow> Inl (FileUnreadable path)
      | Some text \<Rightarrow>
          (case parse_into fs text c of
             Inl e \<Rightarrow> Inl e
           | Inr c' \<Rightarrow> Inr (c'\<lparr>ct_processed := path # ct_processed c'\<rparr>)))"

text \<open>
  \<open>LoadFile\<close> calls itself from its loop over the queue: with a path it loads the file and enters the
  loop, without one it continues the loop. A run without an end has the value \<open>None\<close>.
\<close>

partial_function (option) load_from :: "file_system \<Rightarrow> string option \<Rightarrow> config_table \<Rightarrow> (conf_error + config_table) option" where
  "load_from fs path c =
     (case path of
        Some p \<Rightarrow> (case load_one fs p c of Inl e \<Rightarrow> Some (Inl e) | Inr c1 \<Rightarrow> load_from fs None c1)
      | None \<Rightarrow>
          (case ct_includes c of
             [] \<Rightarrow> Some (Inr c)
           | inc # rest \<Rightarrow>
               (let c1 = c\<lparr>ct_includes := rest\<rparr>
                in if inc \<in> set (ct_processed c1) then load_from fs None c1
                   else Option.bind (load_from fs (Some inc) c1)
                          (\<lambda>r. case r of Inl e \<Rightarrow> Some (Inl e) | Inr c2 \<Rightarrow> load_from fs None c2))))"

definition load_file :: "file_system \<Rightarrow> string \<Rightarrow> config_table \<Rightarrow> (conf_error + config_table) option" where
  "load_file fs path c = load_from fs (Some path) c"

subsection \<open>Loading ends\<close>

lemma build_statement_queue:
  assumes "\<And>p. set (fs_glob fs p) \<subseteq> F" "set (ct_includes c) \<subseteq> F"
  shows "ct_processed (snd (build_statement fs st c)) = ct_processed c \<and> set (ct_includes (snd (build_statement fs st c))) \<subseteq> F"
  using assms
  by (auto simp: build_statement_def build_section_def add_blacklist_def_def add_whitelist_def_def add_section_def add_include_def
      split: statement.splits option.splits prod.splits section_kind.splits)

lemma build_statements_queue:
  assumes "\<And>p. set (fs_glob fs p) \<subseteq> F" "set (ct_includes c) \<subseteq> F"
  shows "ct_processed (snd (build_statements fs sts c)) = ct_processed c \<and> set (ct_includes (snd (build_statements fs sts c))) \<subseteq> F"
  using assms(2)
proof (induction sts arbitrary: c)
  case (Cons st sts)
  obtain ok c' where b: "build_statement fs st c = (ok, c')" by (rule prod.exhaust)
  then have "ct_processed c' = ct_processed c" "set (ct_includes c') \<subseteq> F"
    using build_statement_queue [OF assms(1) Cons.prems, of st] by simp_all
  then show ?case using Cons.IH [of c'] b by simp
qed simp

lemma load_one_queue:
  assumes "\<And>p. set (fs_glob fs p) \<subseteq> F" "set (ct_includes c) \<subseteq> F" "load_one fs p c = Inr c'"
  shows "(p = [] \<and> c' = c \<or> ct_processed c' = p # ct_processed c) \<and> set (ct_includes c') \<subseteq> F"
proof (cases "p = []")
  case True
  then show ?thesis using assms by (simp add: load_one_def)
next
  case False
  let ?c1 = "if find_section default_section c = None then add_section (new_section default_section) c else c"
  obtain src c2 where t: "parse_into fs src c = Inr c2" "c' = c2\<lparr>ct_processed := p # ct_processed c2\<rparr>"
    using False assms(3) by (auto simp: load_one_def split: option.splits sum.splits)
  then obtain sts where "build_statements fs sts ?c1 = (True, c2)"
    by (auto simp: parse_into_def Let_def split: option.splits prod.splits if_splits)
  moreover have "ct_processed ?c1 = ct_processed c" "set (ct_includes ?c1) \<subseteq> F" using assms(2) by (simp_all add: add_section_def)
  ultimately have "ct_processed c2 = ct_processed c" "set (ct_includes c2) \<subseteq> F"
    using build_statements_queue [OF assms(1), of ?c1 sts] by auto
  then show ?thesis using t(2) by simp
qed

lemma load_queue_returns:
  assumes fin: "finite F" and glob: "\<And>p. set (fs_glob fs p) \<subseteq> F"
  shows "set (ct_includes c) \<subseteq> F \<Longrightarrow>
    \<exists>r. load_from fs None c = Some r \<and> (\<forall>c'. r = Inr c' \<longrightarrow> ct_includes c' = [] \<and> set (ct_processed c) \<subseteq> set (ct_processed c'))"
proof (induction "(card (F - set (ct_processed c)), length (ct_includes c))" arbitrary: c rule: wf_induct_rule [OF wf_lex_prod [OF wf_less_than wf_less_than]])
  case (1 c)
  show ?case
  proof (cases "ct_includes c")
    case Nil
    then show ?thesis by (simp add: load_from.simps [of fs None c])
  next
    case (Cons inc rest)
    let ?c = "c\<lparr>ct_includes := rest\<rparr>"
    have q: "set (ct_includes ?c) \<subseteq> F" "inc \<in> F" using 1(2) Cons by auto
    have IH: "\<exists>r. load_from fs None d = Some r \<and> (\<forall>c'. r = Inr c' \<longrightarrow> ct_includes c' = [] \<and> set (ct_processed d) \<subseteq> set (ct_processed c'))"
      if "d = ?c \<or> ct_processed d = inc # ct_processed c \<and> inc \<notin> set (ct_processed c)" "set (ct_includes d) \<subseteq> F" for d
    proof (rule 1(1) [OF _ that(2)])
      have "card (F - set (inc # ct_processed c)) < card (F - set (ct_processed c))" if "inc \<notin> set (ct_processed c)"
        using that q(2) fin by (intro psubset_card_mono) auto
      then show "((card (F - set (ct_processed d)), length (ct_includes d)), card (F - set (ct_processed c)), length (ct_includes c))
          \<in> less_than <*lex*> less_than" using that(1) Cons by auto
    qed
    show ?thesis
    proof (cases "inc \<in> set (ct_processed c)")
      case True
      then have "load_from fs None c = load_from fs None ?c" using Cons by (simp add: load_from.simps [of fs None c])
      then show ?thesis using IH [of ?c] q(1) by simp
    next
      case new: False
      show ?thesis
      proof (cases "load_one fs inc ?c")
        case (Inl e)
        then show ?thesis using Cons new by (simp add: load_from.simps [of fs None c] load_from.simps [of fs "Some inc"])
      next
        case (Inr d)
        note d = load_one_queue [OF glob q(1) Inr]
        then obtain r where r: "load_from fs None d = Some r"
          "\<And>c'. r = Inr c' \<Longrightarrow> ct_includes c' = [] \<and> set (ct_processed d) \<subseteq> set (ct_processed c')"
          using IH [of d] new by auto
        have "load_from fs None c = (case r of Inl e \<Rightarrow> Some (Inl e) | Inr c2 \<Rightarrow> load_from fs None c2)"
          using Cons new Inr r(1) by (simp add: load_from.simps [of fs None c] load_from.simps [of fs "Some inc"])
        moreover have "load_from fs None c2 = Some (Inr c2)" if "r = Inr c2" for c2
          using r(2) [OF that] by (simp add: load_from.simps [of fs None c2])
        ultimately show ?thesis using r(2) d by (cases r) auto
      qed
    qed
  qed
qed

text \<open>
  C33: Loading a configuration ends, however its files include each other: with finitely many files
  in reach of the include patterns, \<open>LoadFile\<close> returns a result or an error, and on success no
  include is pending and the named file is among those that were processed.
\<close>

theorem load_file_returns:
  assumes "finite F" "\<forall>p. set (fs_glob fs p) \<subseteq> F" "path \<noteq> []"
  shows "\<exists>r. load_file fs path new_config = Some r \<and>
     (\<forall>c. r = Inr c \<longrightarrow> ct_includes c = [] \<and> path \<in> set (ct_processed c))"
proof (cases "load_one fs path new_config")
  case (Inl e)
  then show ?thesis by (simp add: load_file_def load_from.simps [of fs "Some path"])
next
  case (Inr c)
  have q: "ct_processed c = path # ct_processed new_config \<and> set (ct_includes c) \<subseteq> F"
    using load_one_queue [of fs F new_config path c] assms Inr by (simp add: new_config_def)
  have "load_file fs path new_config = load_from fs None c" using Inr by (simp add: load_file_def load_from.simps [of fs "Some path"])
  then show ?thesis using load_queue_returns [OF assms(1), of fs c] assms(2) q by auto
qed

definition looping_files :: file_system where
  "looping_files = \<lparr>fs_read = (\<lambda>p. if p = ''a'' then Some ''text'' else None), fs_glob = (\<lambda>p. [''a'']), fs_home = None,
     fs_parse = (\<lambda>t. Some [Include ''a''])\<rparr>"

theorem load_file_returns_witness: "\<exists>r. load_file looping_files ''a'' new_config = Some r"
  using load_file_returns [of "{''a''}" looping_files "''a''"] by (auto simp: looping_files_def)

end
