(* ===== verification/Greyd_Settings.thy ===== *)
theory Greyd_Settings
  imports "HOL-Library.Code_Target_Nat" Smtp_Server Sync_Engine Greyd_Daemon Greyd_Config
begin

text \<open>
  The typed configuration, \<open>internal/settings\<close>: the variables of each section with their defaults,
  decoding with its type errors and warnings, validation, and the copies the components take.
\<close>

subsection \<open>Sections\<close>

record global_settings =
  gl_debug :: bool
  gl_verbose :: bool
  gl_daemonize :: bool
  gl_syslog_enable :: bool
  gl_log_to_file :: string
  gl_user :: string
  gl_drop_privs :: bool
  gl_chroot :: bool
  gl_chroot_dir :: string
  gl_set_rlimit :: bool
  gl_sandbox :: bool
  gl_sandbox_strict :: bool
  gl_max_cons :: int
  gl_max_cons_black :: int
  gl_max_cons_per_source :: int
  gl_max_line_length :: int
  gl_hostname :: string
  gl_bind_address :: string
  gl_bind_address_v6 :: string
  gl_enable_ipv6 :: bool
  gl_port :: int
  gl_config_port :: int
  gl_config_socket :: string
  gl_max_config_frame :: int
  gl_greyd_pidfile :: string
  gl_greylogd_pidfile :: string
  gl_stutter :: int
  gl_window :: int
  gl_banner :: string
  gl_error_code :: string
  gl_proxy_protocol_enable :: bool
  gl_proxy_protocol_permitted_proxies :: "string list"

record monitor_settings =
  mo_bind_address :: string
  mo_port :: int
  mo_interval :: int
  mo_user :: string

record setup_settings =
  su_lists :: "string list"
  su_curl_path :: string
  su_curl_proxy :: string
  su_max_entries :: int

record driver_settings =
  dr_driver :: string
  dr_raw :: "conf_section option"

datatype warning = UnknownVariable string string | MisplacedLowPrioMX

record settings =
  st_global :: global_settings
  st_grey :: grey_settings
  st_sync :: sync_settings
  st_spf :: spf_settings
  st_setup :: setup_settings
  st_monitor :: monitor_settings
  st_firewall :: driver_settings
  st_database :: driver_settings
  st_blacklists :: "(string \<times> conf_section) list"
  st_whitelists :: "(string \<times> conf_section) list"
  st_warnings :: "warning list"
  st_raw :: config_table

subsection \<open>Decoding\<close>

text \<open>
  A field is the name of its variable and the assignment of a value, with the default of its tag.
  The kinds of fields differ in the values they take.
\<close>

datatype field_error = ExpectedFlag | ExpectedNumber | ExpectedString | ExpectedList

type_synonym 'a conf_field = "string \<times> (conf_value option \<Rightarrow> 'a \<Rightarrow> field_error + 'a)"

text \<open>Every default of a number is a literal in range.\<close>

definition default_int :: "string \<Rightarrow> int" where
  "default_int def = (case parse_int def of Some n \<Rightarrow> n | None \<Rightarrow> 0)"

definition bool_var :: "string \<Rightarrow> string \<Rightarrow> (bool \<Rightarrow> 'a \<Rightarrow> 'a) \<Rightarrow> 'a conf_field" where
  "bool_var name def upd =
     (name, \<lambda>val dst. case val of
        None \<Rightarrow> Inr (upd (default_int def \<noteq> 0) dst)
      | Some (IntValue n) \<Rightarrow> Inr (upd (n \<noteq> 0) dst)
      | Some _ \<Rightarrow> Inl ExpectedFlag)"

definition int_var :: "string \<Rightarrow> string \<Rightarrow> (int \<Rightarrow> 'a \<Rightarrow> 'a) \<Rightarrow> 'a conf_field" where
  "int_var name def upd =
     (name, \<lambda>val dst. case val of
        None \<Rightarrow> Inr (upd (default_int def) dst)
      | Some (IntValue n) \<Rightarrow> Inr (upd n dst)
      | Some _ \<Rightarrow> Inl ExpectedNumber)"

definition str_var :: "string \<Rightarrow> string \<Rightarrow> (string \<Rightarrow> 'a \<Rightarrow> 'a) \<Rightarrow> 'a conf_field" where
  "str_var name def upd =
     (name, \<lambda>val dst. case val of
        None \<Rightarrow> Inr (upd def dst)
      | Some (StrValue s) \<Rightarrow> Inr (upd s dst)
      | Some _ \<Rightarrow> Inl ExpectedString)"

text \<open>Without a value a list keeps what it has, the empty list.\<close>

definition list_var :: "string \<Rightarrow> (string list \<Rightarrow> 'a \<Rightarrow> 'a) \<Rightarrow> 'a conf_field" where
  "list_var name upd =
     (name, \<lambda>val dst. case val of
        None \<Rightarrow> Inr dst
      | Some (IntValue _) \<Rightarrow> Inl ExpectedList
      | Some v \<Rightarrow> Inr (upd (value_strings (Some v)) dst))"

fun decode_fields :: "'a conf_field list \<Rightarrow> conf_section option \<Rightarrow> 'a \<Rightarrow> (string \<times> field_error) + 'a" where
  "decode_fields [] sec dst = Inr dst"
| "decode_fields ((name, set_field) # fs) sec dst =
     (case set_field (section_get name sec) dst of
        Inl e \<Rightarrow> Inl (name, e)
      | Inr dst' \<Rightarrow> decode_fields fs sec dst')"

definition global_fields :: "global_settings conf_field list" where
  "global_fields =
    [bool_var ''debug'' ''0'' (\<lambda>v. gl_debug_update (\<lambda>_. v)),
     bool_var ''verbose'' ''0'' (\<lambda>v. gl_verbose_update (\<lambda>_. v)),
     bool_var ''daemonize'' ''1'' (\<lambda>v. gl_daemonize_update (\<lambda>_. v)),
     bool_var ''syslog_enable'' ''1'' (\<lambda>v. gl_syslog_enable_update (\<lambda>_. v)),
     str_var ''log_to_file'' [] (\<lambda>v. gl_log_to_file_update (\<lambda>_. v)),
     str_var ''user'' ''greyd'' (\<lambda>v. gl_user_update (\<lambda>_. v)),
     bool_var ''drop_privs'' ''1'' (\<lambda>v. gl_drop_privs_update (\<lambda>_. v)),
     bool_var ''chroot'' ''1'' (\<lambda>v. gl_chroot_update (\<lambda>_. v)),
     str_var ''chroot_dir'' ''/var/empty'' (\<lambda>v. gl_chroot_dir_update (\<lambda>_. v)),
     bool_var ''setrlimit'' ''1'' (\<lambda>v. gl_set_rlimit_update (\<lambda>_. v)),
     bool_var ''sandbox'' ''1'' (\<lambda>v. gl_sandbox_update (\<lambda>_. v)),
     bool_var ''sandbox_strict'' ''0'' (\<lambda>v. gl_sandbox_strict_update (\<lambda>_. v)),
     int_var ''max_cons'' ''800'' (\<lambda>v. gl_max_cons_update (\<lambda>_. v)),
     int_var ''max_cons_black'' ''800'' (\<lambda>v. gl_max_cons_black_update (\<lambda>_. v)),
     int_var ''max_cons_per_source'' ''0'' (\<lambda>v. gl_max_cons_per_source_update (\<lambda>_. v)),
     int_var ''max_line_length'' ''8191'' (\<lambda>v. gl_max_line_length_update (\<lambda>_. v)),
     str_var ''hostname'' [] (\<lambda>v. gl_hostname_update (\<lambda>_. v)),
     str_var ''bind_address'' [] (\<lambda>v. gl_bind_address_update (\<lambda>_. v)),
     str_var ''bind_address_ipv6'' [] (\<lambda>v. gl_bind_address_v6_update (\<lambda>_. v)),
     bool_var ''enable_ipv6'' ''0'' (\<lambda>v. gl_enable_ipv6_update (\<lambda>_. v)),
     int_var ''port'' ''8025'' (\<lambda>v. gl_port_update (\<lambda>_. v)),
     int_var ''config_port'' ''8026'' (\<lambda>v. gl_config_port_update (\<lambda>_. v)),
     str_var ''config_socket'' [] (\<lambda>v. gl_config_socket_update (\<lambda>_. v)),
     int_var ''max_config_frame'' ''67108864'' (\<lambda>v. gl_max_config_frame_update (\<lambda>_. v)),
     str_var ''greyd_pidfile'' [] (\<lambda>v. gl_greyd_pidfile_update (\<lambda>_. v)),
     str_var ''greylogd_pidfile'' [] (\<lambda>v. gl_greylogd_pidfile_update (\<lambda>_. v)),
     int_var ''stutter'' ''1'' (\<lambda>v. gl_stutter_update (\<lambda>_. v)),
     int_var ''window'' ''0'' (\<lambda>v. gl_window_update (\<lambda>_. v)),
     str_var ''banner'' ''greyd IP-based SPAM blocker'' (\<lambda>v. gl_banner_update (\<lambda>_. v)),
     str_var ''error_code'' ''450'' (\<lambda>v. gl_error_code_update (\<lambda>_. v)),
     bool_var ''proxy_protocol_enable'' ''0'' (\<lambda>v. gl_proxy_protocol_enable_update (\<lambda>_. v)),
     list_var ''proxy_protocol_permitted_proxies'' (\<lambda>v. gl_proxy_protocol_permitted_proxies_update (\<lambda>_. v))]"

definition grey_fields :: "grey_settings conf_field list" where
  "grey_fields =
    [bool_var ''enable'' ''1'' (\<lambda>v. gs_enable_update (\<lambda>_. v)),
     str_var ''user'' ''greydb'' (\<lambda>v. gs_user_update (\<lambda>_. v)),
     str_var ''traplist_name'' ''greyd-greytrap'' (\<lambda>v. gs_traplist_name_update (\<lambda>_. v)),
     str_var ''traplist_message'' ''Your address %A has mailed to spamtraps here'' (\<lambda>v. gs_traplist_message_update (\<lambda>_. v)),
     str_var ''whitelist_name'' ''greyd-whitelist'' (\<lambda>v. gs_whitelist_name_update (\<lambda>_. v)),
     str_var ''whitelist_name_ipv6'' ''greyd-whitelist-ipv6'' (\<lambda>v. gs_whitelist_name_v6_update (\<lambda>_. v)),
     str_var ''low_prio_mx'' [] (\<lambda>v. gs_low_prio_mx_update (\<lambda>_. v)),
     int_var ''stutter'' ''10'' (\<lambda>v. gs_stutter_update (\<lambda>_. v)),
     str_var ''permitted_domains'' [] (\<lambda>v. gs_permitted_domains_update (\<lambda>_. v)),
     bool_var ''db_permitted_domains'' ''0'' (\<lambda>v. gs_db_permitted_domains_update (\<lambda>_. v)),
     int_var ''pass_time'' ''1500'' (\<lambda>v. gs_pass_time_update (\<lambda>_. v)),
     int_var ''grey_expiry'' ''14400'' (\<lambda>v. gs_grey_expiry_update (\<lambda>_. v)),
     int_var ''white_expiry'' ''3110400'' (\<lambda>v. gs_white_expiry_update (\<lambda>_. v)),
     int_var ''trap_expiry'' ''86400'' (\<lambda>v. gs_trap_expiry_update (\<lambda>_. v)),
     int_var ''max_domains'' ''100000'' (\<lambda>v. gs_max_domains_update (\<lambda>_. v))]"

definition sync_fields :: "sync_settings conf_field list" where
  "sync_fields =
    [bool_var ''enable'' ''0'' (\<lambda>v. sc_enable_update (\<lambda>_. v)),
     list_var ''hosts'' (\<lambda>v. sc_hosts_update (\<lambda>_. v)),
     str_var ''bind_address'' [] (\<lambda>v. sc_bind_address_update (\<lambda>_. v)),
     int_var ''port'' ''8025'' (\<lambda>v. sc_port_update (\<lambda>_. v)),
     int_var ''ttl'' ''1'' (\<lambda>v. sc_ttl_update (\<lambda>_. v)),
     bool_var ''verify'' ''1'' (\<lambda>v. sc_verify_update (\<lambda>_. v)),
     str_var ''key'' ''/etc/greyd/greyd.key'' (\<lambda>v. sc_key_update (\<lambda>_. v)),
     str_var ''mcast_address'' ''224.0.1.241'' (\<lambda>v. sc_mcast_address_update (\<lambda>_. v)),
     int_var ''replay_window'' ''64'' (\<lambda>v. sc_replay_window_update (\<lambda>_. v))]"

definition spf_fields :: "spf_settings conf_field list" where
  "spf_fields =
    [bool_var ''enable'' ''1'' (\<lambda>v. sp_enable_update (\<lambda>_. v)),
     bool_var ''trap_on_softfail'' ''1'' (\<lambda>v. sp_trap_on_softfail_update (\<lambda>_. v)),
     bool_var ''whitelist_on_pass'' ''0'' (\<lambda>v. sp_whitelist_on_pass_update (\<lambda>_. v))]"

definition monitor_fields :: "monitor_settings conf_field list" where
  "monitor_fields =
    [str_var ''bind_address'' ''127.0.0.1'' (\<lambda>v. mo_bind_address_update (\<lambda>_. v)),
     int_var ''port'' ''9143'' (\<lambda>v. mo_port_update (\<lambda>_. v)),
     int_var ''interval'' ''30'' (\<lambda>v. mo_interval_update (\<lambda>_. v)),
     str_var ''user'' [] (\<lambda>v. mo_user_update (\<lambda>_. v))]"

definition setup_fields :: "setup_settings conf_field list" where
  "setup_fields =
    [list_var ''lists'' (\<lambda>v. su_lists_update (\<lambda>_. v)),
     str_var ''curl_path'' ''/bin/curl'' (\<lambda>v. su_curl_path_update (\<lambda>_. v)),
     str_var ''curl_proxy'' [] (\<lambda>v. su_curl_proxy_update (\<lambda>_. v)),
     int_var ''max_entries'' ''10000000'' (\<lambda>v. su_max_entries_update (\<lambda>_. v))]"

definition driver_fields :: "driver_settings conf_field list" where
  "driver_fields = [str_var ''driver'' [] (\<lambda>v. dr_driver_update (\<lambda>_. v))]"

subsection \<open>Zero values\<close>

definition zero_global :: global_settings where
  "zero_global =
     \<lparr>gl_debug = False, gl_verbose = False, gl_daemonize = False, gl_syslog_enable = False, gl_log_to_file = [], gl_user = [],
      gl_drop_privs = False, gl_chroot = False, gl_chroot_dir = [], gl_set_rlimit = False, gl_sandbox = False,
      gl_sandbox_strict = False, gl_max_cons = 0, gl_max_cons_black = 0, gl_max_cons_per_source = 0, gl_max_line_length = 0,
      gl_hostname = [], gl_bind_address = [], gl_bind_address_v6 = [], gl_enable_ipv6 = False, gl_port = 0, gl_config_port = 0,
      gl_config_socket = [], gl_max_config_frame = 0, gl_greyd_pidfile = [], gl_greylogd_pidfile = [], gl_stutter = 0,
      gl_window = 0, gl_banner = [], gl_error_code = [], gl_proxy_protocol_enable = False,
      gl_proxy_protocol_permitted_proxies = []\<rparr>"

definition zero_grey :: grey_settings where
  "zero_grey =
     \<lparr>gs_enable = False, gs_user = [], gs_traplist_name = [], gs_traplist_message = [], gs_whitelist_name = [],
      gs_whitelist_name_v6 = [], gs_low_prio_mx = [], gs_stutter = 0, gs_permitted_domains = [], gs_db_permitted_domains = False,
      gs_pass_time = 0, gs_grey_expiry = 0, gs_white_expiry = 0, gs_trap_expiry = 0, gs_max_domains = 0\<rparr>"

definition zero_sync :: sync_settings where
  "zero_sync =
     \<lparr>sc_enable = False, sc_hosts = [], sc_bind_address = [], sc_port = 0, sc_ttl = 0, sc_verify = False, sc_key = [],
      sc_mcast_address = [], sc_replay_window = 0\<rparr>"

definition zero_spf :: spf_settings where
  "zero_spf = \<lparr>sp_enable = False, sp_trap_on_softfail = False, sp_whitelist_on_pass = False\<rparr>"

definition zero_monitor :: monitor_settings where
  "zero_monitor = \<lparr>mo_bind_address = [], mo_port = 0, mo_interval = 0, mo_user = []\<rparr>"

definition zero_setup :: setup_settings where
  "zero_setup = \<lparr>su_lists = [], su_curl_path = [], su_curl_proxy = [], su_max_entries = 0\<rparr>"

definition zero_driver :: driver_settings where
  "zero_driver = \<lparr>dr_driver = [], dr_raw = None\<rparr>"

subsection \<open>Validation\<close>

text \<open>The names of the checks that fail, in order.\<close>

definition port_ok :: "int \<Rightarrow> bool" where
  "port_ok p \<longleftrightarrow> 0 \<le> p \<and> p \<le> 65535"

definition checks :: "settings \<Rightarrow> (string \<times> bool) list" where
  "checks s =
     (let g = st_global s; y = st_grey s; n = st_sync s; mo = st_monitor s in
      [(''port'', port_ok (gl_port g)),
       (''config_port'', port_ok (gl_config_port g)),
       (''sync.port'', port_ok (sc_port n)),
       (''monitor.port'', port_ok (mo_port mo)),
       (''monitor.interval'', 0 < mo_interval mo),
       (''error_code'', gl_error_code g = ''450'' \<or> gl_error_code g = ''550''),
       (''max_cons'', 0 < gl_max_cons g),
       (''max_cons_black'', 0 \<le> gl_max_cons_black g),
       (''max_cons_per_source'', 0 \<le> gl_max_cons_per_source g),
       (''max_line_length'', 64 \<le> gl_max_line_length g \<and> gl_max_line_length g \<le> 65536),
       (''max_config_frame'', 1024 \<le> gl_max_config_frame g),
       (''stutter'', 0 \<le> gl_stutter g \<and> gl_stutter g \<le> 10),
       (''window'', 0 \<le> gl_window g),
       (''chroot_dir'', \<not> gl_chroot g \<or> gl_chroot_dir g \<noteq> []),
       (''proxy_protocol_permitted_proxies'', \<not> gl_proxy_protocol_enable g \<or> gl_proxy_protocol_permitted_proxies g \<noteq> []),
       (''grey.stutter'', 0 \<le> gs_stutter y \<and> gs_stutter y \<le> 100),
       (''grey.pass_time'', 0 \<le> gs_pass_time y),
       (''grey.grey_expiry'', 0 < gs_grey_expiry y),
       (''grey.white_expiry'', 0 < gs_white_expiry y),
       (''grey.trap_expiry'', 0 < gs_trap_expiry y),
       (''grey.max_domains'', 0 < gs_max_domains y),
       (''sync.ttl'', 1 \<le> sc_ttl n \<and> sc_ttl n \<le> 255),
       (''sync.replay_window'', 0 \<le> sc_replay_window n),
       (''setup.max_entries'', 0 < su_max_entries (st_setup s))])"

definition validate :: "settings \<Rightarrow> string list" where
  "validate s = map fst (filter (\<lambda>(n, ok). \<not> ok) (checks s))"

subsection \<open>Loading\<close>

datatype settings_error = BadVariable string string field_error | InvalidSettings "string list"

text \<open>The variables of a section that no field knows, except for the sections of drivers.\<close>

definition unknown_variables :: "string \<Rightarrow> 'a conf_field list \<Rightarrow> conf_section option \<Rightarrow> warning list" where
  "unknown_variables name fs sec =
     (if name = ''firewall'' \<or> name = ''database'' then []
      else map (\<lambda>k. UnknownVariable k name) (filter (\<lambda>k. k \<notin> set (map fst fs)) (section_keys sec)))"

definition decode_section ::
  "string \<Rightarrow> 'a conf_field list \<Rightarrow> 'a \<Rightarrow> config_table \<Rightarrow> ('a \<Rightarrow> warning list \<Rightarrow> settings_error + 'b) \<Rightarrow> settings_error + 'b" where
  "decode_section name fs zero cfg k =
     (case decode_fields fs (find_section name cfg) zero of
        Inl (v, e) \<Rightarrow> Inl (BadVariable name v e)
      | Inr dst \<Rightarrow> k dst (unknown_variables name fs (find_section name cfg)))"

text \<open>\<open>low_prio_mx\<close> is also taken from the default section, with a warning of its own.\<close>

definition adopt_low_prio :: "config_table \<Rightarrow> settings \<Rightarrow> settings" where
  "adopt_low_prio cfg s =
     (let v = conf_str ''low_prio_mx'' [] [] cfg;
          s1 = (if gs_low_prio_mx (st_grey s) = [] \<and> v \<noteq> []
                then s\<lparr>st_grey := (st_grey s)\<lparr>gs_low_prio_mx := v\<rparr>, st_warnings := st_warnings s @ [MisplacedLowPrioMX]\<rparr>
                else s)
      in s1\<lparr>st_warnings := filter (\<lambda>w. w \<noteq> UnknownVariable ''low_prio_mx'' default_section) (st_warnings s1)\<rparr>)"

definition named_lists :: "string list \<Rightarrow> (string \<times> conf_section) list \<Rightarrow> (string \<times> conf_section) list" where
  "named_lists names t = concat (map (\<lambda>n. case map_of t n of None \<Rightarrow> [] | Some s \<Rightarrow> [(n, s)]) names)"

definition load_settings :: "config_table \<Rightarrow> settings_error + settings" where
  "load_settings cfg =
     decode_section default_section global_fields zero_global cfg (\<lambda>g w1.
     decode_section ''grey'' grey_fields zero_grey cfg (\<lambda>y w2.
     decode_section ''sync'' sync_fields zero_sync cfg (\<lambda>n w3.
     decode_section ''spf'' spf_fields zero_spf cfg (\<lambda>p w4.
     decode_section ''setup'' setup_fields zero_setup cfg (\<lambda>u w5.
     decode_section ''monitor'' monitor_fields zero_monitor cfg (\<lambda>mo w6.
     decode_section ''firewall'' driver_fields zero_driver cfg (\<lambda>f w7.
     decode_section ''database'' driver_fields zero_driver cfg (\<lambda>d w8.
       let s = adopt_low_prio cfg
                 \<lparr>st_global = g, st_grey = y, st_sync = n, st_spf = p, st_setup = u, st_monitor = mo,
                  st_firewall = f\<lparr>dr_raw := find_section ''firewall'' cfg\<rparr>, st_database = d\<lparr>dr_raw := find_section ''database'' cfg\<rparr>,
                  st_blacklists = named_lists (blacklist_names cfg) (ct_blacklists cfg),
                  st_whitelists = named_lists (whitelist_names cfg) (ct_whitelists cfg),
                  st_warnings = w1 @ w2 @ w3 @ w4 @ w5 @ w6 @ w7 @ w8, st_raw = cfg\<rparr>
       in if validate s = [] then Inr s else Inl (InvalidSettings (validate s))))))))))"

subsection \<open>What the components take\<close>

definition without_sync_bind :: "settings \<Rightarrow> settings" where
  "without_sync_bind s = s\<lparr>st_sync := (st_sync s)\<lparr>sc_bind_address := []\<rparr>\<rparr>"

definition without_sync_hosts :: "settings \<Rightarrow> settings" where
  "without_sync_hosts s = s\<lparr>st_sync := (st_sync s)\<lparr>sc_hosts := []\<rparr>\<rparr>"

definition database_ports :: "settings \<Rightarrow> int list" where
  "database_ports s =
     (let drv = to_lower (trim_space (dr_driver (st_database s)));
          port = (\<lambda>def. let p = section_int ''port'' def (dr_raw (st_database s)) in if p \<le> 0 \<or> 65535 < p then [] else [p])
      in if drv \<in> {''mysql'', ''greyd_mysql''} then port 3306
         else if drv \<in> {''postgresql'', ''postgres'', ''greyd_postgresql''} then port 5432
         else [])"

text \<open>The settings of a connection; the daemon adds the list of permitted proxies.\<close>

definition config_from :: "settings \<Rightarrow> config" where
  "config_from s =
     (let g = st_global s in
      \<lparr>cf_hostname = gl_hostname g, cf_banner = gl_banner g, cf_error_code = gl_error_code g,
       cf_greylist = gs_enable (st_grey s), cf_grey_stutter = gs_stutter (st_grey s), cf_stutter = gl_stutter g,
       cf_verbose = gl_verbose g, cf_window = gl_window g, cf_proxy_protocol = gl_proxy_protocol_enable g,
       cf_permitted_proxies = None, cf_max_line_length = gl_max_line_length g,
       cf_max_cons_per_source = gl_max_cons_per_source g\<rparr>)"

definition limits_of :: "settings \<Rightarrow> limits_settings" where
  "limits_of s =
     (let g = st_global s in
      \<lparr>ls_max_cons = gl_max_cons g, ls_max_cons_black = gl_max_cons_black g, ls_grey_enable = gs_enable (st_grey s),
       ls_proxy_protocol = gl_proxy_protocol_enable g, ls_permitted_proxies = gl_proxy_protocol_permitted_proxies g\<rparr>)"

text \<open>
  The server of the daemon: the settings with the permitted proxies, the current lists, and the
  counters with the limits of the daemon.
\<close>

definition server_config :: "settings \<Rightarrow> daemon \<Rightarrow> config" where
  "server_config s d = (config_from s)\<lparr>cf_permitted_proxies := dm_proxies d\<rparr>"

definition daemon_shared :: "daemon \<Rightarrow> shared" where
  "daemon_shared d =
     \<lparr>sh_counters = new_counters (dm_max_cons d) (dm_max_black d), sh_blacklists = Some (snapshot_blacklists d),
      sh_grey = [], sh_grey_ok = True\<rparr>"

text \<open>
  Whether the sync engine of the main process listens, and the engine, which only receives. Opening
  its sockets is a parameter.
\<close>

definition start_sync ::
  "(string \<Rightarrow> addr list option) \<Rightarrow> (string \<Rightarrow> key_file) \<Rightarrow> nat \<Rightarrow> nat \<Rightarrow> (sync_engine \<Rightarrow> sync_engine option) \<Rightarrow> settings \<Rightarrow> sync_engine option \<times> bool" where
  "start_sync resolve files opt_send opt_recv start s0 =
     (let s = without_sync_hosts s0; listens = (0 < opt_recv \<or> sc_bind_address (st_sync s) \<noteq> []) in
      if opt_send = 0 \<and> \<not> listens then (None, False)
      else (case new_engine resolve files (st_sync s) (gs_enable (st_grey s)) of
              Inl e \<Rightarrow> (None, listens)
            | Inr eng \<Rightarrow> (Option.bind eng start, listens)))"

subsection \<open>Loaded settings\<close>

text \<open>A successful decoding gives each field what the accessor of its kind returns.\<close>

lemma decode_var_simps:
  "decode_fields (bool_var n def updb # fs) sec dst = Inr r \<longleftrightarrow>
     (\<forall>v. section_get n sec = Some v \<longrightarrow> (\<exists>i. v = IntValue i)) \<and>
     decode_fields fs sec (updb (section_int n (default_int def) sec \<noteq> 0) dst) = Inr r"
  "decode_fields (int_var n def updi # fs) sec dst = Inr r \<longleftrightarrow>
     (\<forall>v. section_get n sec = Some v \<longrightarrow> (\<exists>i. v = IntValue i)) \<and>
     decode_fields fs sec (updi (section_int n (default_int def) sec) dst) = Inr r"
  "decode_fields (str_var n def upds # fs) sec dst = Inr r \<longleftrightarrow>
     (\<forall>v. section_get n sec = Some v \<longrightarrow> (\<exists>t. v = StrValue t)) \<and>
     decode_fields fs sec (upds (section_str n def sec) dst) = Inr r"
  "decode_fields (list_var n updl # fs) sec dst = Inr r \<longleftrightarrow>
     (\<forall>i. section_get n sec \<noteq> Some (IntValue i)) \<and>
     decode_fields fs sec (if section_get n sec = None then dst else updl (value_strings (section_get n sec)) dst) = Inr r"
  by (cases "section_get n sec";
      auto simp: bool_var_def int_var_def str_var_def list_var_def section_int_def section_str_def split: conf_value.splits)+

lemmas decode_var_dests = decode_var_simps [THEN iffD1, THEN conjunct2]

lemma decode_section_Inr:
  "decode_section name fs zero cfg k = Inr s \<longleftrightarrow>
     (\<exists>dst. decode_fields fs (find_section name cfg) zero = Inr dst \<and> k dst (unknown_variables name fs (find_section name cfg)) = Inr s)"
  by (auto simp: decode_section_def split: sum.splits)

lemma default_ints:
  "default_int ''0'' = 0" "default_int ''1'' = 1" "default_int ''10'' = 10" "default_int ''30'' = 30" "default_int ''64'' = 64"
  "default_int ''800'' = 800" "default_int ''1500'' = 1500" "default_int ''8025'' = 8025" "default_int ''8026'' = 8026"
  "default_int ''8191'' = 8191" "default_int ''9143'' = 9143" "default_int ''14400'' = 14400" "default_int ''86400'' = 86400"
  "default_int ''100000'' = 100000" "default_int ''3110400'' = 3110400" "default_int ''10000000'' = 10000000"
  "default_int ''67108864'' = 67108864"
  by code_simp+

lemma load_settings_valid:
  assumes "load_settings cfg = Inr s"
  shows "validate s = []"
  using assms by (auto simp: load_settings_def decode_section_def Let_def split: sum.splits if_splits prod.splits)

lemma validate_checks: "validate s = [] \<longleftrightarrow> list_all snd (checks s)"
  by (auto simp: validate_def filter_empty_conv list_all_iff split: prod.splits)

lemma adopt_low_prio_facts:
  "st_global (adopt_low_prio cfg s) = st_global s" "st_sync (adopt_low_prio cfg s) = st_sync s"
  "st_grey (adopt_low_prio cfg s) = (st_grey s)\<lparr>gs_low_prio_mx := gs_low_prio_mx (st_grey (adopt_low_prio cfg s))\<rparr>"
  by (simp_all add: adopt_low_prio_def Let_def)

lemma loaded_sections:
  assumes "load_settings cfg = Inr s"
  shows "decode_fields global_fields (find_section default_section cfg) zero_global = Inr (st_global s) \<and>
    decode_fields sync_fields (find_section ''sync'' cfg) zero_sync = Inr (st_sync s) \<and>
    (\<exists>y. decode_fields grey_fields (find_section ''grey'' cfg) zero_grey = Inr y \<and> st_grey s = y\<lparr>gs_low_prio_mx := gs_low_prio_mx (st_grey s)\<rparr>)"
proof -
  obtain g y n s0 where d: "decode_fields global_fields (find_section default_section cfg) zero_global = Inr g"
    "decode_fields grey_fields (find_section ''grey'' cfg) zero_grey = Inr y"
    "decode_fields sync_fields (find_section ''sync'' cfg) zero_sync = Inr n"
    "s = adopt_low_prio cfg s0" "st_global s0 = g" "st_grey s0 = y" "st_sync s0 = n"
    using assms unfolding load_settings_def decode_section_Inr Let_def by (force split: if_splits)
  show ?thesis using d adopt_low_prio_facts [of cfg s0] by metis
qed

lemma global_values:
  assumes "decode_fields global_fields sec zero_global = Inr g"
  shows "gl_port g = section_int ''port'' 8025 sec \<and> gl_config_port g = section_int ''config_port'' 8026 sec \<and>
    gl_max_cons g = section_int ''max_cons'' 800 sec \<and> gl_max_cons_black g = section_int ''max_cons_black'' 800 sec \<and>
    gl_max_cons_per_source g = section_int ''max_cons_per_source'' 0 sec \<and> gl_max_line_length g = section_int ''max_line_length'' 8191 sec \<and>
    gl_max_config_frame g = section_int ''max_config_frame'' 67108864 sec \<and> gl_stutter g = section_int ''stutter'' 1 sec \<and>
    gl_error_code g = section_str ''error_code'' ''450'' sec \<and> gl_chroot g = (section_int ''chroot'' 1 sec \<noteq> 0) \<and>
    gl_proxy_protocol_enable g = (section_int ''proxy_protocol_enable'' 0 sec \<noteq> 0)"
  using assms unfolding global_fields_def 
  by - ((drule decode_var_dests)+, simp only: decode_fields.simps sum.inject, erule subst, simp add: default_ints)

lemma grey_values:
  assumes "decode_fields grey_fields sec zero_grey = Inr y"
  shows "gs_enable y = (section_int ''enable'' 1 sec \<noteq> 0) \<and> gs_pass_time y = section_int ''pass_time'' 1500 sec \<and>
    gs_grey_expiry y = section_int ''grey_expiry'' 14400 sec \<and> gs_white_expiry y = section_int ''white_expiry'' 3110400 sec \<and>
    gs_trap_expiry y = section_int ''trap_expiry'' 86400 sec"
  using assms unfolding grey_fields_def 
  by - ((drule decode_var_dests)+, simp only: decode_fields.simps sum.inject, erule subst, simp add: default_ints)

lemma daemon_limits:
  assumes "new_daemon ls max_files = Some d" "0 < max_files" "0 < ls_max_cons ls" "0 \<le> ls_max_cons_black ls"
  shows "dm_max_cons (rebalance d) = min (ls_max_cons ls) max_files \<and> 0 < dm_max_cons (rebalance d) \<and>
    0 \<le> dm_max_black (rebalance d) \<and> dm_max_black (rebalance d) \<le> dm_max_cons (rebalance d)"
proof (cases "ls_grey_enable ls")
  case True
  then have "dm_greylist d" "dm_max_cons d = min (ls_max_cons ls) max_files" "dm_max_black d \<le> dm_max_cons d" "0 \<le> dm_max_black d"
    using assms by (simp_all add: new_daemon_def Let_def split: if_splits) auto
  then show ?thesis using assms by (simp add: rebalance_def Let_def)
next
  case False
  then show ?thesis using assms by (simp add: new_daemon_def rebalance_def Let_def) auto
qed

lemma reachable_inv:
  assumes "(server_step cfg dp)\<^sup>*\<^sup>* (new_server cfg sh) sv" "sh_counters sh = new_counters max_cons max_black"
  shows "server_inv max_cons sv"
proof -
  have "server_inv max_cons (new_server cfg sh)"
    using assms(2) by (simp add: server_inv_def new_server_def on_counters_def live_set_def tally_def new_counters_def)
  with assms(1) show ?thesis by (induction rule: rtranclp_induct) (auto intro: server_step_inv)
qed


definition sample_load :: "bool \<times> int \<times> int \<times> bool" where
  "sample_load = (case load_settings new_config of
     Inl e \<Rightarrow> (False, 0, 0, False)
   | Inr s \<Rightarrow> (True, gl_max_cons (st_global s), gl_max_cons_black (st_global s), gs_enable (st_grey s)))"

lemma sample_load_value: "sample_load = (True, 800, 800, True)"
  by code_simp


end
