(* ===== verification/Greyd_Setup.thy ===== *)
theory Greyd_Setup
  imports Spamd_List Greyd_Settings Greyd_Firewall
begin

text \<open>
  \<open>greyd-setup\<close>: \<open>internal/setup\<close> fetches the configured lists, subtracts whitelists from the blacklist
  before them, collapses each blacklist into networks and sends it to the daemon over a connection
  of its own. Files, commands, decompression and connections are parameters.
\<close>

subsection \<open>Fetching\<close>

text \<open>The contents of a file, the output of a command, and what gzip data decompresses to
  (\<open>None\<close> when its header is not one).\<close>

record world =
  wo_file :: "string \<Rightarrow> string option"
  wo_run :: "string \<Rightarrow> string list \<Rightarrow> string option"
  wo_gunzip :: "string \<Rightarrow> string option"

definition max_list_bytes :: nat where "max_list_bytes = 268435456"

definition default_curl :: string where "default_curl = ''/bin/curl''"

definition curl_args :: "string \<Rightarrow> string \<Rightarrow> string \<Rightarrow> string list" where
  "curl_args meth proxy file =
     [''-sS'', ''--fail'', ''--proto'', ''='' @ meth, ''--max-time'', ''300'', ''--max-filesize'', itoa max_list_bytes] @
     (if proxy = [] then [] else [''--proxy'', proxy]) @ [meth @ ''://'' @ file]"

definition command_words :: "string \<Rightarrow> string list" where
  "command_words file = filter (\<lambda>w. w \<noteq> []) (concat (map (split_on (CHR 0x09)) (split_on (CHR '' '') file)))"

definition open_maybe_gzip :: "world \<Rightarrow> string \<Rightarrow> string option" where
  "open_maybe_gzip wo data = (if has_prefix data [CHR 0x1F, CHR 0x8B] then wo_gunzip wo data else Some data)"

definition open_list :: "world \<Rightarrow> conf_section \<Rightarrow> setup_settings \<Rightarrow> string option" where
  "open_list wo sec cfg =
     (let file = section_str ''file'' [] (Some sec); meth = section_str ''method'' [] (Some sec);
          data = (if file = [] then None
                  else if meth = [] \<or> meth = ''file'' then wo_file wo file
                  else if meth \<in> {''http'', ''https'', ''ftp'', ''ftps''} then
                    wo_run wo (if su_curl_path cfg = [] then default_curl else su_curl_path cfg) (curl_args meth (su_curl_proxy cfg) file)
                  else if meth = ''exec'' then
                    (case command_words file of [] \<Rightarrow> None | c # args \<Rightarrow> wo_run wo c args)
                  else None)
      in Option.bind data (open_maybe_gzip wo))"

subsection \<open>Sending\<close>

definition default_message :: string where "default_message = ''You have been blacklisted...''"

definition firewall_set :: string where "firewall_set = ''greyd-blacklist''"

record setup_options =
  op_dryrun :: bool
  op_grey_only :: bool

datatype setup_error = NoLists | NoFirewall | FirewallFailed | DialFailed | WriteFailed

text \<open>
  The state of a run: the networks so far, the firewall when there is one, and what was written to
  each connection. The \<open>n\<close>th connection fails (\<open>None\<close>), or is made and its write succeeds or fails.
\<close>

record 'f runner =
  ru_all_cidrs :: "string list"
  ru_fw :: "'f option"
  ru_conns :: "string list"

definition replace_all :: "'f firewall_ops \<Rightarrow> 'f runner \<Rightarrow> setup_error option \<times> 'f runner" where
  "replace_all fo r =
     (case ru_fw r of
        None \<Rightarrow> (Some NoFirewall, r)
      | Some f \<Rightarrow>
          (case fo_replace fo firewall_set (ru_all_cidrs r) 4 f of
             (None, f') \<Rightarrow> (Some FirewallFailed, r\<lparr>ru_fw := Some f'\<rparr>)
           | (Some n, f') \<Rightarrow> (None, r\<lparr>ru_fw := Some f'\<rparr>)))"

definition ship :: "(nat \<Rightarrow> bool option) \<Rightarrow> string \<Rightarrow> 'f runner \<Rightarrow> setup_error option \<times> 'f runner" where
  "ship dial text r =
     (case dial (length (ru_conns r)) of
        None \<Rightarrow> (Some DialFailed, r)
      | Some ok \<Rightarrow> if ok then (None, r\<lparr>ru_conns := ru_conns r @ [text]\<rparr>) else (Some WriteFailed, r))"

definition send_list ::
  "setup_options \<Rightarrow> 'f firewall_ops \<Rightarrow> (nat \<Rightarrow> bool option) \<Rightarrow> blacklist \<Rightarrow> bool \<Rightarrow> 'f runner \<Rightarrow> setup_error option \<times> 'f runner" where
  "send_list opts fo dial bl final r =
     (let cidrs = collapse bl;
          (e, r1) = (if op_grey_only opts then (None, r)
                     else let r1 = r\<lparr>ru_all_cidrs := ru_all_cidrs r @ cidrs\<rparr> in if final then replace_all fo r1 else (None, r1))
      in if e \<noteq> None then (e, r1) else ship dial (write_blacklist (bl_name bl) (bl_message bl) cidrs) r1)"

subsection \<open>The run\<close>

text \<open>The contents of a list are added to the current one; parse errors keep the entries before them.\<close>

definition fill_list :: "world \<Rightarrow> setup_settings \<Rightarrow> conf_section \<Rightarrow> list_type \<Rightarrow> blacklist \<Rightarrow> blacklist" where
  "fill_list wo cfg sec t bl =
     (case open_list wo sec cfg of None \<Rightarrow> bl | Some text \<Rightarrow> snd (parse_limited text bl t (su_max_entries cfg)))"

fun run_lists ::
  "world \<Rightarrow> setup_options \<Rightarrow> 'f firewall_ops \<Rightarrow> (nat \<Rightarrow> bool option) \<Rightarrow> settings \<Rightarrow> string list \<Rightarrow> blacklist option \<Rightarrow> 'f runner
     \<Rightarrow> setup_error option \<times> 'f runner" where
  "run_lists wo opts fo dial s [] current r =
     (case current of
        Some bl \<Rightarrow> if op_dryrun opts then (None, r) else send_list opts fo dial bl True r
      | None \<Rightarrow> (None, r))"
| "run_lists wo opts fo dial s (name # names) current r =
     (case map_of (st_blacklists s) name of
        Some sec \<Rightarrow>
          (let (e, r1) = (case current of
                            Some bl \<Rightarrow> if op_dryrun opts then (None, r) else send_list opts fo dial bl False r
                          | None \<Rightarrow> (None, r));
               bl = new_blacklist name (section_str ''message'' default_message (Some sec)) StorageList
           in if e \<noteq> None then (e, r1)
              else run_lists wo opts fo dial s names (Some (fill_list wo (st_setup s) sec TypeBlack bl)) r1)
      | None \<Rightarrow>
          (case (map_of (st_whitelists s) name, current) of
             (Some sec, Some bl) \<Rightarrow> run_lists wo opts fo dial s names (Some (fill_list wo (st_setup s) sec TypeWhite bl)) r
           | _ \<Rightarrow> run_lists wo opts fo dial s names current r))"

definition run_setup ::
  "world \<Rightarrow> setup_options \<Rightarrow> 'f firewall_ops \<Rightarrow> (nat \<Rightarrow> bool option) \<Rightarrow> settings \<Rightarrow> 'f option \<Rightarrow> setup_error option \<times> 'f runner" where
  "run_setup wo opts fo dial s fw =
     (let r = \<lparr>ru_all_cidrs = [], ru_fw = fw, ru_conns = []\<rparr>; lists = su_lists (st_setup s)
      in if lists = [] then (Some NoLists, r) else run_lists wo opts fo dial s lists None r)"

subsection \<open>One connection per blacklist\<close>

text \<open>
  The plan of a run: every blacklist with the whitelists between it and the next blacklist. Names
  that are neither and whitelists before the first blacklist are left out.
\<close>

type_synonym list_group = "string \<times> conf_section \<times> conf_section list"

fun whites_after :: "settings \<Rightarrow> string list \<Rightarrow> conf_section list" where
  "whites_after s [] = []"
| "whites_after s (name # names) =
     (if map_of (st_blacklists s) name \<noteq> None then []
      else (case map_of (st_whitelists s) name of None \<Rightarrow> [] | Some sec \<Rightarrow> [sec]) @ whites_after s names)"

fun list_groups :: "settings \<Rightarrow> string list \<Rightarrow> list_group list" where
  "list_groups s [] = []"
| "list_groups s (name # names) =
     (case map_of (st_blacklists s) name of
        Some sec \<Rightarrow> (name, sec, whites_after s names) # list_groups s names
      | None \<Rightarrow> list_groups s names)"

definition group_message :: "conf_section \<Rightarrow> string" where
  "group_message sec = section_str ''message'' default_message (Some sec)"

definition fill_whites :: "world \<Rightarrow> settings \<Rightarrow> conf_section list \<Rightarrow> blacklist \<Rightarrow> blacklist" where
  "fill_whites wo s secs bl = fold (\<lambda>sec. fill_list wo (st_setup s) sec TypeWhite) secs bl"

definition group_list :: "world \<Rightarrow> settings \<Rightarrow> list_group \<Rightarrow> blacklist" where
  "group_list wo s grp =
     (case grp of (name, sec, whites) \<Rightarrow>
        fill_whites wo s whites (fill_list wo (st_setup s) sec TypeBlack (new_blacklist name (group_message sec) StorageList)))"

definition list_frame :: "blacklist \<Rightarrow> string" where
  "list_frame bl = write_blacklist (bl_name bl) (bl_message bl) (collapse bl)"

lemma send_grey_only:
  "op_grey_only opts \<Longrightarrow>
     send_list opts fo (\<lambda>_. Some True) bl final r = (None, r\<lparr>ru_conns := ru_conns r @ [list_frame bl]\<rparr>)"
  by (simp add: send_list_def ship_def list_frame_def Let_def)

lemma run_lists_conns:
  assumes "op_grey_only opts" "\<not> op_dryrun opts"
  shows "\<exists>r'. run_lists wo opts fo (\<lambda>_. Some True) s names current r = (None, r') \<and>
    ru_conns r' = ru_conns r @ (case current of None \<Rightarrow> [] | Some bl \<Rightarrow> [list_frame (fill_whites wo s (whites_after s names) bl)]) @
      map (\<lambda>grp. list_frame (group_list wo s grp)) (list_groups s names)"
proof (induction names arbitrary: current r)
  case Nil
  then show ?case using assms send_grey_only [of opts fo _ _ r] by (cases current) (simp_all add: fill_whites_def)
next
  case (Cons name names)
  show ?case
  proof (cases "map_of (st_blacklists s) name")
    case (Some sec)
    let ?bl = "fill_list wo (st_setup s) sec TypeBlack (new_blacklist name (group_message sec) StorageList)"
    let ?r = "case current of None \<Rightarrow> r | Some bl \<Rightarrow> r\<lparr>ru_conns := ru_conns r @ [list_frame bl]\<rparr>"
    have "run_lists wo opts fo (\<lambda>_. Some True) s (name # names) current r = run_lists wo opts fo (\<lambda>_. Some True) s names (Some ?bl) ?r"
      using assms Some send_grey_only [of opts fo _ _ r] by (cases current) (simp_all add: group_message_def)
    then show ?thesis using Cons.IH [of "Some ?bl" ?r] Some
      by (cases current) (auto simp: group_list_def fill_whites_def)
  next
    case None
    then show ?thesis
    proof (cases "map_of (st_whitelists s) name")
      case (Some wsec)
      then show ?thesis
      proof (cases current)
        case c: (Some bl)
        then show ?thesis using None Some Cons.IH [of "Some (fill_list wo (st_setup s) wsec TypeWhite bl)" r] by (simp add: fill_whites_def)
      qed (use None Some Cons.IH [of None r] in simp)
    qed (use None Cons.IH [of current r] in \<open>cases current; simp\<close>)
  qed
qed

lemma run_setup_conns:
  assumes "op_grey_only opts" "\<not> op_dryrun opts" "su_lists (st_setup s) \<noteq> []"
  shows "\<exists>r. run_setup wo opts fo (\<lambda>_. Some True) s fw = (None, r) \<and>
    ru_conns r = map (\<lambda>grp. list_frame (group_list wo s grp)) (list_groups s (su_lists (st_setup s)))"
  using run_lists_conns [OF assms(1,2), of wo fo s "su_lists (st_setup s)" None "\<lparr>ru_all_cidrs = [], ru_fw = fw, ru_conns = []\<rparr>"] assms(3)
  by (auto simp: run_setup_def Let_def)

subsection \<open>What a list holds\<close>

text \<open>
  A list that can be opened and is well formed: its lines, with no more entries than the limit.
\<close>

definition readable :: "world \<Rightarrow> setup_settings \<Rightarrow> (conf_section \<Rightarrow> list_line list) \<Rightarrow> conf_section \<Rightarrow> bool" where
  "readable wo cfg lines sec \<longleftrightarrow> open_list wo sec cfg = Some (list_text (lines sec)) \<and> list_all line_ok (lines sec) \<and>
     (su_max_entries cfg \<le> 0 \<or> int (length (line_entries (lines sec))) \<le> su_max_entries cfg)"

definition lists_addr :: "list_line list \<Rightarrow> u32 \<Rightarrow> bool" where
  "lists_addr ls x \<longleftrightarrow> (\<exists>e \<in> set (line_entries ls). fst (entry_range e) \<le> x \<and> x < snd (entry_range e))"

definition group_ranges :: "(conf_section \<Rightarrow> list_line list) \<Rightarrow> conf_section \<Rightarrow> conf_section list \<Rightarrow> range_spec list" where
  "group_ranges lines sec whites =
     typed_ranges TypeBlack (line_entries (lines sec)) @ concat (map (\<lambda>w. typed_ranges TypeWhite (line_entries (lines w))) whites)"

lemma covered_append [simp]: "covered t (rs @ rs') x \<longleftrightarrow> covered t rs x \<or> covered t rs' x"
  by (simp add: covered_def)

lemma covered_typed: "covered t (typed_ranges t' (line_entries ls)) x \<longleftrightarrow> t = t' \<and> lists_addr ls x"
  by (auto simp: covered_def list_ex_iff typed_ranges_def lists_addr_def in_range_def)

lemma covered_group:
  "covered TypeBlack (group_ranges lines sec whites) x \<longleftrightarrow> lists_addr (lines sec) x"
  "covered TypeWhite (group_ranges lines sec whites) x \<longleftrightarrow> (\<exists>w \<in> set whites. lists_addr (lines w) x)"
proof -
  have "covered t (concat (map (\<lambda>w. typed_ranges TypeWhite (line_entries (lines w))) whites)) x \<longleftrightarrow>
      t = TypeWhite \<and> (\<exists>w \<in> set whites. lists_addr (lines w) x)" for t
    by (induction whites) (auto simp: covered_typed, simp add: covered_def)
  then show "covered TypeBlack (group_ranges lines sec whites) x \<longleftrightarrow> lists_addr (lines sec) x"
    "covered TypeWhite (group_ranges lines sec whites) x \<longleftrightarrow> (\<exists>w \<in> set whites. lists_addr (lines w) x)"
    by (simp_all add: group_ranges_def covered_typed)
qed

lemma fill_readable:
  "readable wo cfg lines sec \<Longrightarrow> fill_list wo cfg sec t bl = add_ranges (typed_ranges t (line_entries (lines sec))) bl"
  by (simp add: readable_def fill_list_def parse_limited_text)

lemma group_list_ranges:
  assumes "list_all (readable wo (st_setup s) lines) (sec # whites)"
  shows "group_list wo s (name, sec, whites) =
    add_ranges (group_ranges lines sec whites) (new_blacklist name (group_message sec) StorageList)"
proof -
  have "fill_whites wo s whites bl = add_ranges (concat (map (\<lambda>w. typed_ranges TypeWhite (line_entries (lines w))) whites)) bl" for bl
    using assms by (induction whites arbitrary: bl) (simp_all add: fill_whites_def fill_readable [of wo _ lines] add_ranges_append)
  then show ?thesis using assms by (simp add: group_list_def group_ranges_def fill_readable [of wo _ lines] add_ranges_append)
qed

lemma add_ranges_frame: "bl_name (add_ranges rs b) = bl_name b \<and> bl_message (add_ranges rs b) = bl_message b"
  by (induction rs arbitrary: b) (auto simp: add_range_def)

subsection \<open>What the daemon installs\<close>

lemma sweep_cidrs: "c \<in> set (sweep es bs ws state b) \<Longrightarrow> \<exists>k. c = cidr_string k"
proof (induction es bs ws state b rule: sweep.induct)
  case (2 e es bs ws state b)
  then show ?case by (auto simp: Let_def range_to_cidrs_def split: if_splits)
qed simp

lemma collapse_cidrs: "c \<in> set (collapse bl) \<Longrightarrow> \<exists>k. c = cidr_string k"
  by (auto simp: collapse_def dest: sweep_cidrs split: if_splits)

lemma cidr_text: "blacklist_ip (cidr_string k) = cidr_string k" "one_line (cidr_string k)" "plain_text (cidr_string k)"
proof -
  have "one_line (dotted_quad w) \<and> plain_text (dotted_quad w)" for w
    using dotted_quad_chars [of lf w] dotted_quad_chars [of dquote w] dotted_quad_chars [of backslash w]
    by (auto simp: plain_text_def is_digit_def)
  then show "one_line (cidr_string k)" "plain_text (cidr_string k)"
    using itoa_text [of "unat (c_bits k)"] by (auto simp: cidr_string_text plain_text_def)
qed (simp add: blacklist_ip_def cidr_string_text)

lemma put_list_named: "b \<in> set (put_list bl bs) \<and> bl_name b = bl_name bl \<longleftrightarrow> b = bl"
  by (auto simp: put_list_def) (metis image_eqI)

lemma list_frame_installed:
  assumes d: "daemon_inv d" and bl: "bl = add_ranges rs (new_blacklist name message StorageList)"
    and plain: "one_line name" "plain_text name" "one_line message" "plain_text message"
    and some: "covered TypeBlack rs x0" "\<not> covered TypeWhite rs x0"
    and fit: "length (list_frame bl) \<le> max_frame" and auth: "authorise_config_peer unix_socket euid peer"
  shows "\<exists>d'. handle_config_conn unix_socket euid max_frame peer (list_frame bl) k uptime now d = (d', []) \<and> daemon_inv d' \<and>
    (\<forall>x. (\<exists>b \<in> set (snapshot_blacklists d'). bl_name b = name \<and> bl_match b (Addr4 x)) \<longleftrightarrow>
       covered TypeBlack rs x \<and> \<not> covered TypeWhite rs x)"
proof -
  let ?cs = "collapse bl"
  let ?b = "bl_add_all ?cs (new_blacklist name message StorageTrie)"
  let ?d = "install_blacklist name message ?cs d"
  have den: "denotes ?cs x \<longleftrightarrow> covered TypeBlack rs x \<and> \<not> covered TypeWhite rs x" for x
    unfolding bl by (rule collapse_denotes) (simp add: new_blacklist_def)
  then have ne: "?cs \<noteq> []" using some by (metis denotes_Nil)
  have nm: "bl_name bl = name" "bl_message bl = message" using bl add_ranges_frame by (simp_all add: new_blacklist_def)
  have ids: "map blacklist_ip ?cs = ?cs" using collapse_cidrs cidr_text(1) by (intro map_idI) metis
  have "list_all (\<lambda>v. one_line v \<and> plain_text v) (name # message # ?cs)"
    using plain collapse_cidrs [of _ bl] cidr_text(2,3) by (auto simp: list_all_iff)
  from read_blacklist [OF ne this, of max_frame "[]"]
  have "handle_config_conn unix_socket euid max_frame peer (list_frame bl) k uptime now d = (?d, [])"
    using fit auth nm ids by (simp add: list_frame_def handle_config_conn_def add_blacklist_def)
  moreover have i: "daemon_inv ?d" "snapshot_blacklists ?d = put_list ?b (snapshot_blacklists d)"
    using install_refines [OF d] by simp_all
  moreover have "bl_match ?b (Addr4 x) \<longleftrightarrow> denotes ?cs x" for x by (subst match_add_all) (simp_all add: denotes_def)
  moreover have "bl_name ?b = name" by (simp add: new_blacklist_def)
  then have "(\<exists>b \<in> set (snapshot_blacklists ?d). bl_name b = name \<and> bl_match b a) \<longleftrightarrow> bl_match ?b a" for a
    using put_list_named [of _ ?b "snapshot_blacklists d"] unfolding i(2) by metis
  ultimately show ?thesis using den by (intro exI [of _ ?d]) simp
qed


text \<open>A configuration with a blacklist of 10.0.0.0/8 and a whitelist of 10.0.0.1 after it.\<close>

definition file_section :: "string \<Rightarrow> string \<Rightarrow> conf_section" where
  "file_section name file = \<lparr>cs_name = name, cs_vars = [(''file'', StrValue file)], cs_order = [''file'']\<rparr>"

definition sample_lines :: "conf_section \<Rightarrow> list_line list" where
  "sample_lines sec = (if cs_name sec = ''bad'' then [Line (Net 0x0a000000 8) []] else [Line (Single 0x0a000001) []])"

definition sample_setup :: settings where
  "sample_setup =
     \<lparr>st_global = zero_global, st_grey = zero_grey, st_sync = zero_sync, st_spf = zero_spf,
      st_setup = zero_setup\<lparr>su_lists := [''bad'', ''good'']\<rparr>, st_monitor = zero_monitor, st_firewall = zero_driver,
      st_database = zero_driver, st_blacklists = [(''bad'', file_section ''bad'' ''/b'')],
      st_whitelists = [(''good'', file_section ''good'' ''/g'')], st_warnings = [], st_raw = new_config\<rparr>"

definition sample_world :: world where
  "sample_world =
     \<lparr>wo_file = (\<lambda>f. Some (list_text (sample_lines (if f = ''/b'' then file_section ''bad'' f else file_section ''good'' f)))),
      wo_run = (\<lambda>c args. None), wo_gunzip = (\<lambda>t. None)\<rparr>"

lemma sample_groups:
  "list_groups sample_setup (su_lists (st_setup sample_setup)) = [(''bad'', file_section ''bad'' ''/b'', [file_section ''good'' ''/g''])]"
  by (simp add: sample_setup_def zero_setup_def)

lemma sample_readable:
  "list_all (readable sample_world (st_setup sample_setup) sample_lines) [file_section ''bad'' ''/b'', file_section ''good'' ''/g'']"
  by code_simp

lemma sample_facts:
  "one_line (group_message (file_section ''bad'' ''/b'')) \<and> plain_text (group_message (file_section ''bad'' ''/b'')) \<and>
   lists_addr (sample_lines (file_section ''bad'' ''/b'')) 0x0a000002 \<and> \<not> lists_addr (sample_lines (file_section ''good'' ''/g'')) 0x0a000002 \<and>
   \<not> lists_addr (sample_lines (file_section ''bad'' ''/b'')) 0x0b000000 \<and> lists_addr (sample_lines (file_section ''good'' ''/g'')) 0x0a000001"
  by code_simp


end
