(* ===== verification/Spec2Isabelle.thy ===== *)
theory Spec2Isabelle
  imports Sync_Report Greyd_System Greyd_Trap Greyd_Setup
begin

text \<open>
  Verification of greyd, the greylisting daemon. The theories follow the packages of the program.
\<close>

end
